(* ===== verification/Hz_Prelude.thy ===== *)
theory Hz_Prelude
  imports Main "HOL-Library.Word" "HOL-Library.Signed_Division" "HOL-Library.Monad_Syntax"
begin

unbundle bit_operations_syntax

text \<open>
  Shared vocabulary of the development.

  \<^item> Widths: \<open>u8\<close>, \<open>u16\<close>, \<open>u32\<close>, \<open>u64\<close> are the unsigned C types; a plain
    \<open>char\<close> is a \<open>u8\<close> read with \<open>sint\<close> (the supported x86 targets have a
    signed \<open>char\<close>).  Signed \<open>int\<close> and \<open>long\<close> are HOL integers that pass through
    \<open>ck32\<close> or \<open>ck64\<close> wherever the source computes a new value: a signed overflow is
    undefined behaviour in C++ and gives \<open>None\<close>.
  \<^item> \<open>'a option\<close> as the result of a modelled function: \<open>None\<close> is an execution without
    defined result (undefined behaviour, a read of an unmapped address, a loop that does
    not end, a failed \<^verbatim>\<open>__ensure\<close> that aborts the process); \<open>Some\<close> is a completed call.  Error returns of the C functions are values
    inside \<open>Some\<close>.
  \<^item> The C division operators truncate towards zero: \<open>sdiv\<close> and \<open>smod\<close> of
    \<open>HOL-Library.Signed_Division\<close>.
\<close>

type_synonym u8 = "8 word"
type_synonym u16 = "16 word"
type_synonym u32 = "32 word"
type_synonym u64 = "64 word"

named_theorems c_range \<open>unfolding rules for the ranges of the C integer types\<close>
named_theorems c_mem \<open>rewriting of byte ranges of the memory\<close>

subsection \<open>Error numbers\<close>

text \<open>The values of \<^verbatim>\<open>errno\<close> the modelled functions set or return.\<close>

datatype errno =
  EPERM | EINTR | EAGAIN | ENOMEM | EACCES | EBUSY | EINVAL | ERANGE | EDEADLK | EOVERFLOW
| EILSEQ | ETIMEDOUT | ENOSPC | EAFNOSUPPORT | EIO

subsection \<open>Ranges of the signed C types\<close>

abbreviation INT_MAX :: int where "INT_MAX \<equiv> 2147483647"
abbreviation INT_MIN :: int where "INT_MIN \<equiv> - 2147483648"
abbreviation LONG_MAX :: int where "LONG_MAX \<equiv> 9223372036854775807"
abbreviation LONG_MIN :: int where "LONG_MIN \<equiv> - 9223372036854775808"

definition int32_ok :: "int \<Rightarrow> bool" where
  "int32_ok x \<longleftrightarrow> INT_MIN \<le> x \<and> x \<le> INT_MAX"

definition int64_ok :: "int \<Rightarrow> bool" where
  "int64_ok x \<longleftrightarrow> LONG_MIN \<le> x \<and> x \<le> LONG_MAX"

definition ck32 :: "int \<Rightarrow> int option" where
  "ck32 x = (if int32_ok x then Some x else None)"

definition ck64 :: "int \<Rightarrow> int option" where
  "ck64 x = (if int64_ok x then Some x else None)"

lemmas [c_range] = int32_ok_def int64_ok_def ck32_def ck64_def

lemma ck32_eq_Some [simp]: "ck32 x = Some y \<longleftrightarrow> y = x \<and> int32_ok x"
  by (auto simp: ck32_def)

lemma ck64_eq_Some [simp]: "ck64 x = Some y \<longleftrightarrow> y = x \<and> int64_ok x"
  by (auto simp: ck64_def)

lemma ck32_in_range: "INT_MIN \<le> x \<Longrightarrow> x \<le> INT_MAX \<Longrightarrow> ck32 x = Some x"
  by (simp add: int32_ok_def)

lemma ck64_in_range: "LONG_MIN \<le> x \<Longrightarrow> x \<le> LONG_MAX \<Longrightarrow> ck64 x = Some x"
  by (simp add: int64_ok_def)

subsection \<open>Truncating division on non-negative operands\<close>

lemma sdiv_nonneg [simp]:
  fixes a b :: int
  shows "0 \<le> a \<Longrightarrow> 0 \<le> b \<Longrightarrow> a sdiv b = a div b"
  by (cases "a = 0 \<or> b = 0") (auto simp: signed_divide_int_def)

lemma smod_nonneg [simp]:
  fixes a b :: int
  shows "0 \<le> a \<Longrightarrow> 0 \<le> b \<Longrightarrow> a smod b = a mod b"
  by (rule smod_mod_positive)

subsection \<open>The value range of a char\<close>

lemma sint_u8_range: "- 128 \<le> sint (c :: u8)" "sint (c :: u8) \<le> 127"
  using sint_range_size [of c] by (auto simp: word_size)

lemma sint_u8_eq_0_iff [simp]: "sint (c :: u8) = 0 \<longleftrightarrow> c = 0"
  by (fact signed_eq_0_iff)

lemma sint_u8_eq_iff: "sint (c :: u8) = sint d \<longleftrightarrow> c = d"
  by (auto intro: signed_word_eqI)

lemma uint_u8_range: "0 \<le> uint (c :: u8)" "uint (c :: u8) < 256"
  using uint_range_size [of c] by (simp_all add: word_size)

lemma signed_of_unsigned:
  fixes u h :: int
  assumes "0 \<le> u" and "u < 2 * h"
  shows "(u + h) mod (2 * h) - h = (if u < h then u else u - 2 * h)"
proof (cases "u < h")
  case True
  then show ?thesis using assms by simp
next
  case False
  then have "(u + h) mod (2 * h) = u - h"
    using assms by (intro int_mod_pos_eq [where q = 1]) auto
  then show ?thesis using False by simp
qed

lemma sint_u8_eq: "sint (c :: u8) = (if uint c < 128 then uint c else uint c - 256)"
proof -
  have "sint c = (uint c + 128) mod 256 - 128"
    by (simp add: sint_uint signed_take_bit_eq_take_bit_shift take_bit_eq_mod)
  then show ?thesis using signed_of_unsigned [of "uint c" 128] uint_u8_range [of c] by simp
qed

lemma sint_u32_eq: "sint (w :: u32) = (if uint w < 2 ^ 31 then uint w else uint w - 2 ^ 32)"
proof -
  have "sint w = (uint w + 2 ^ 31) mod 2 ^ 32 - 2 ^ 31"
    by (simp add: sint_uint signed_take_bit_eq_take_bit_shift take_bit_eq_mod)
  then show ?thesis using signed_of_unsigned [of "uint w" "2 ^ 31"] uint_range_size [of w] by (simp add: word_size)
qed

lemma sint_u64_eq: "sint (w :: u64) = (if uint w < 2 ^ 63 then uint w else uint w - 2 ^ 64)"
proof -
  have "sint w = (uint w + 2 ^ 63) mod 2 ^ 64 - 2 ^ 63"
    by (simp add: sint_uint signed_take_bit_eq_take_bit_shift take_bit_eq_mod)
  then show ?thesis using signed_of_unsigned [of "uint w" "2 ^ 63"] uint_range_size [of w] by (simp add: word_size)
qed

lemma int_div_less_mult:
  fixes a b n :: int
  assumes "a < n * b" and "0 < b"
  shows "a div b < n"
proof (rule ccontr)
  assume "\<not> a div b < n"
  then have "n * b \<le> a div b * b" using assms(2) by (intro mult_right_mono) auto
  also have "\<dots> \<le> a" using div_mult_mod_eq [of a b] pos_mod_sign [OF assms(2), of a] by linarith
  finally show False using assms(1) by simp
qed

lemma unat_u64_less: "unat (w :: u64) < 2 ^ 64"
  using unsigned_less [of w, where ?'a = nat] by simp

lemma unat_u64_of_nat: "n < 2 ^ 64 \<Longrightarrow> unat (word_of_nat n :: u64) = n"
  by (simp add: unat_of_nat take_bit_nat_eq_self)

lemma unat_u64_add: "unat a + unat b < 2 ^ 64 \<Longrightarrow> unat (a + b :: u64) = unat a + unat b"
  by (simp add: unat_word_ariths)

lemma unat_u64_sub: "unat b \<le> unat a \<Longrightarrow> unat (a - b :: u64) = unat a - unat b"
  by (simp add: unat_sub word_le_nat_alt)

lemma unat_u64_minus_1: "unat (- 1 :: u64) = 2 ^ 64 - 1"
  by (simp add: unsigned_minus_1_eq_mask mask_eq_exp_minus_1)

lemma high_bits_zero:
  fixes w :: "'a::len word"
  assumes "uint w < 2 ^ n" "n \<le> k"
  shows "\<not> bit w k"
proof -
  have "take_bit n (uint w) = uint w" using assms(1) by (simp add: take_bit_int_eq_self)
  then have "\<not> bit (uint w) k" using assms(2) by (metis bit_take_bit_iff not_le)
  then show ?thesis by (simp add: bit_uint_iff bit_imp_le_length) (meson bit_imp_le_length)
qed

lemma all_less_8: "(\<forall>n < (8::nat). P n) \<longleftrightarrow> P 0 \<and> P 1 \<and> P 2 \<and> P 3 \<and> P 4 \<and> P 5 \<and> P 6 \<and> P 7"
  by (simp add: numeral_eq_Suc All_less_Suc) blast

subsection \<open>Reachable states of a step relation\<close>

inductive reach :: "('s \<Rightarrow> bool) \<Rightarrow> ('s \<Rightarrow> 's \<Rightarrow> bool) \<Rightarrow> 's \<Rightarrow> bool"
  for init :: "'s \<Rightarrow> bool" and step :: "'s \<Rightarrow> 's \<Rightarrow> bool" where
  reach_init: "init s \<Longrightarrow> reach init step s"
| reach_step: "reach init step s \<Longrightarrow> step s t \<Longrightarrow> reach init step t"

text \<open>
  The contract of an inductive invariant: it holds initially and every step keeps it.
  A component with a step relation interprets this locale and takes the two consequences
  from it.
\<close>

locale inductive_invariant =
  fixes init :: "'s \<Rightarrow> bool"
    and step :: "'s \<Rightarrow> 's \<Rightarrow> bool"
    and inv :: "'s \<Rightarrow> bool"
  assumes inv_init: "init s \<Longrightarrow> inv s"
    and inv_step: "inv s \<Longrightarrow> step s t \<Longrightarrow> inv t"
begin

lemma reach_inv: "reach init step s \<Longrightarrow> inv s"
  by (induction rule: reach.induct) (auto intro: inv_init inv_step)

lemma rtranclp_inv: "step\<^sup>*\<^sup>* s t \<Longrightarrow> inv s \<Longrightarrow> inv t"
  by (induction rule: rtranclp_induct) (auto intro: inv_step)

end

end
