(* ===== verification/Once.thy ===== *)
theory Once
  imports Hz_Prelude
begin

text \<open>
  One-time initialisation: \<open>thread_once\<close> of \<^verbatim>\<open>src/internal/thread.cpp\<close>, behind \<open>pthread_once\<close> and
  \<open>call_once\<close>.

  Any number of threads run the call interleaved, one access to the shared word per step, with the local
  variable \<open>state\<close> in the program counter.  The call of \<open>init_fn\<close> is two steps, its start and its return,
  so that other threads run meanwhile.  The flag \<open>b\<close> of a step resolves a spurious failure of a weak
  exchange and an early return of a futex wait.

  The fields \<open>started\<close> and \<open>finished\<close> are history variables that count the starts and the returns
  of \<open>init_fn\<close>, and \<open>OnceIdle True\<close> records that the thread has returned from a call.
\<close>

subsection \<open>State\<close>

definition ONCE_INCOMPLETE :: int where "ONCE_INCOMPLETE = 0"
definition ONCE_QUEUED :: int where "ONCE_QUEUED = 1"
definition ONCE_RUNNING :: int where "ONCE_RUNNING = 2"
definition ONCE_COMPLETE :: int where "ONCE_COMPLETE = 3"

lemmas once_consts = ONCE_INCOMPLETE_def ONCE_QUEUED_def ONCE_RUNNING_def ONCE_COMPLETE_def

datatype once_pc =
    OnceIdle bool
  | OnceLoad
  | OnceTop int
  | OnceInit
  | OnceCall
  | OnceExchange
  | OnceWake
  | OnceWait
  | OnceBlocked

record once_machine =
  once_word :: int
  once_pcs :: "nat \<Rightarrow> once_pc"
  started :: nat
  finished :: nat

definition once_goto :: "nat \<Rightarrow> once_pc \<Rightarrow> once_machine \<Rightarrow> once_machine" where
  "once_goto t p M = M\<lparr>once_pcs := (once_pcs M)(t := p)\<rparr>"

subsection \<open>The call\<close>

definition once_wake_all :: "once_machine \<Rightarrow> once_machine" where
  "once_wake_all M = M\<lparr>once_pcs := (\<lambda>t. if once_pcs M t = OnceBlocked then OnceLoad else once_pcs M t)\<rparr>"

definition thread_once :: "bool \<Rightarrow> nat \<Rightarrow> once_machine \<Rightarrow> once_machine" where
  "thread_once b t M =
     (case once_pcs M t of
        OnceLoad \<Rightarrow> once_goto t (OnceTop (once_word M)) M
      | OnceTop st \<Rightarrow>
          (if st = ONCE_INCOMPLETE then
             (if once_word M = st \<and> b then once_goto t OnceInit (M\<lparr>once_word := ONCE_RUNNING\<rparr>)
              else once_goto t (OnceTop (once_word M)) M)
           else if st = ONCE_RUNNING \<or> st = ONCE_QUEUED then
             (if st = ONCE_RUNNING then
                (if once_word M = st \<and> b then once_goto t OnceWait (M\<lparr>once_word := ONCE_QUEUED\<rparr>)
                 else once_goto t (OnceTop (once_word M)) M)
              else once_goto t OnceWait M)
           else once_goto t (OnceIdle True) M)
      | OnceInit \<Rightarrow> once_goto t OnceCall (M\<lparr>started := started M + 1\<rparr>)
      | OnceCall \<Rightarrow> once_goto t OnceExchange (M\<lparr>finished := finished M + 1\<rparr>)
      | OnceExchange \<Rightarrow>
          (let M' = M\<lparr>once_word := ONCE_COMPLETE\<rparr> in
           if once_word M = ONCE_QUEUED then once_goto t OnceWake M' else once_goto t (OnceIdle True) M')
      | OnceWake \<Rightarrow> once_goto t (OnceIdle True) (once_wake_all M)
      | OnceWait \<Rightarrow> (if once_word M = ONCE_QUEUED \<and> b then once_goto t OnceBlocked M else once_goto t OnceLoad M)
      | OnceBlocked \<Rightarrow> (if b then once_goto t OnceLoad M else M)
      | OnceIdle r \<Rightarrow> M)"

inductive once_step :: "once_machine \<Rightarrow> once_machine \<Rightarrow> bool" where
  call_once: "once_pcs M t = OnceIdle r \<Longrightarrow> once_step M (once_goto t OnceLoad M)"
| run_once: "once_step M (thread_once b t M)"

definition once_start :: "once_machine \<Rightarrow> bool" where
  "once_start M \<longleftrightarrow> once_word M = ONCE_INCOMPLETE \<and> started M = 0 \<and> finished M = 0 \<and> (\<forall>t. once_pcs M t = OnceIdle False)"

subsection \<open>The invariant\<close>

definition runs_init :: "once_pc \<Rightarrow> bool" where
  "runs_init p \<longleftrightarrow> p \<in> {OnceInit, OnceCall, OnceExchange}"

definition initialisers :: "once_machine \<Rightarrow> nat set" where
  "initialisers M = {t. runs_init (once_pcs M t)}"

definition once_phase :: "once_machine \<Rightarrow> bool" where
  "once_phase M \<longleftrightarrow>
     once_word M = 0 \<and> started M = 0 \<and> finished M = 0 \<and> initialisers M = {} \<or>
     once_word M \<in> {1, 2} \<and>
       (\<exists>u. initialisers M = {u} \<and> started M = (if once_pcs M u = OnceInit then 0 else 1) \<and>
          finished M = (if once_pcs M u = OnceExchange then 1 else 0)) \<or>
     once_word M = 3 \<and> started M = 1 \<and> finished M = 1 \<and> initialisers M = {}"

definition once_local :: "int \<Rightarrow> once_pc \<Rightarrow> bool" where
  "once_local w p \<longleftrightarrow>
     (case p of OnceIdle r \<Rightarrow> r \<longrightarrow> w = 3 | OnceTop st \<Rightarrow> 0 \<le> st \<and> st \<le> 3 \<and> (st = 3 \<longrightarrow> w = 3) | OnceWake \<Rightarrow> w = 3 | _ \<Rightarrow> True)"

definition once_inv :: "once_machine \<Rightarrow> bool" where
  "once_inv M \<longleftrightarrow>
     once_phase M \<and> (\<forall>t. once_local (once_word M) (once_pcs M t)) \<and>
     (\<forall>t. once_pcs M t = OnceBlocked \<longrightarrow> once_word M = 1 \<or> (\<exists>u. once_pcs M u = OnceWake))"

lemma runs_init_simps [simp]:
  "runs_init OnceInit" "runs_init OnceCall" "runs_init OnceExchange" "\<not> runs_init (OnceIdle r)" "\<not> runs_init OnceLoad"
  "\<not> runs_init (OnceTop s)" "\<not> runs_init OnceWake" "\<not> runs_init OnceWait" "\<not> runs_init OnceBlocked"
  by (simp_all add: runs_init_def)

lemma once_local_simps [simp]:
  "once_local w (OnceIdle r) \<longleftrightarrow> (r \<longrightarrow> w = 3)" "once_local w (OnceTop s) \<longleftrightarrow> 0 \<le> s \<and> s \<le> 3 \<and> (s = 3 \<longrightarrow> w = 3)"
  "once_local w OnceWake \<longleftrightarrow> w = 3" "once_local w OnceInit" "once_local w OnceCall" "once_local w OnceExchange" "once_local w OnceLoad"
  "once_local w OnceWait" "once_local w OnceBlocked"
  by (simp_all add: once_local_def)

lemma once_local_mono: "once_local w p \<Longrightarrow> w = 3 \<longrightarrow> w' = 3 \<Longrightarrow> once_local w' p"
  by (cases p) auto

lemma initialisers_goto:
  "initialisers (once_goto t p M) = (if runs_init p then insert t (initialisers M) else initialisers M - {t})"
  by (auto simp: initialisers_def once_goto_def)

lemma once_inv_goto:
  assumes inv: "once_inv M" and "once_pcs M t \<noteq> OnceWake" and pcs: "once_pcs N = once_pcs M"
    and "once_phase (once_goto t p N)" and w: "once_word M = 3 \<longrightarrow> once_word N = 3" and "once_local (once_word N) p"
    and blocked: "p = OnceBlocked \<Longrightarrow> once_word N = 1" "once_word M = 1 \<Longrightarrow> once_word N = 1 \<or> p = OnceWake"
  shows "once_inv (once_goto t p N)"
proof -
  have l: "once_local (once_word N) (((once_pcs M)(t := p)) u)" for u
    using inv assms(6) w by (auto simp: once_inv_def intro: once_local_mono [of "once_word M"])
  have "once_word N = 1 \<or> (\<exists>u. ((once_pcs M)(t := p)) u = OnceWake)" if "((once_pcs M)(t := p)) v = OnceBlocked" for v
  proof (cases "v = t")
    case False
    then have "once_word M = 1 \<or> (\<exists>u. once_pcs M u = OnceWake)" using that inv by (auto simp: once_inv_def)
    then show ?thesis using blocked(2) assms(2) by (metis fun_upd_apply)
  qed (use that blocked(1) in simp)
  then show ?thesis using l assms(4) by (simp add: once_inv_def once_goto_def pcs)
qed

text \<open>A step of a thread outside the initialisation that keeps the word, or marks it as queued.\<close>

lemma once_inv_outside:
  assumes inv: "once_inv M" and out: "\<not> runs_init (once_pcs M t)" "\<not> runs_init p" and "once_pcs M t \<noteq> OnceWake"
    and w: "w = once_word M \<or> once_word M = 2 \<and> w = 1" and "once_local w p" and "p = OnceBlocked \<Longrightarrow> w = 1"
  shows "once_inv (once_goto t p (M\<lparr>once_word := w\<rparr>))"
proof -
  let ?N = "once_goto t p (M\<lparr>once_word := w\<rparr>)"
  have "t \<notin> initialisers M" using out by (simp add: initialisers_def)
  then have i: "initialisers ?N = initialisers M" using out by (simp add: initialisers_goto) (simp add: initialisers_def)
  have u: "once_pcs ?N u = once_pcs M u" if "initialisers M = {u}" for u
    using \<open>t \<notin> initialisers M\<close> that by (auto simp: once_goto_def)
  have f: "once_word ?N = w" "started ?N = started M" "finished ?N = finished M" by (simp_all add: once_goto_def)
  have "once_phase M" using inv by (simp add: once_inv_def)
  then have "once_phase ?N" unfolding once_phase_def f i using u w by auto
  then show ?thesis using assms by (intro once_inv_goto [OF inv]) auto
qed

lemma once_inv_stay:
  assumes "once_inv M" and "\<not> runs_init (once_pcs M t)" and "\<not> runs_init p" and "once_pcs M t \<noteq> OnceWake"
    and "once_local (once_word M) p" and "p = OnceBlocked \<Longrightarrow> once_word M = 1"
  shows "once_inv (once_goto t p M)"
proof -
  have "once_inv (once_goto t p (M\<lparr>once_word := once_word M\<rparr>))" by (rule once_inv_outside) (use assms in auto)
  then show ?thesis by simp
qed

lemma once_inv_running:
  assumes "once_inv M" and "runs_init (once_pcs M t)"
  shows "initialisers M = {t} \<and> once_word M \<in> {1, 2} \<and> started M = (if once_pcs M t = OnceInit then 0 else 1) \<and>
    finished M = (if once_pcs M t = OnceExchange then 1 else 0)"
proof -
  have "t \<in> initialisers M" using assms(2) by (simp add: initialisers_def)
  then show ?thesis using assms(1) unfolding once_inv_def once_phase_def by auto
qed

lemma once_inv_step:
  assumes "once_inv M" shows "once_inv (thread_once b t M)"
proof (cases "once_pcs M t")
  case (OnceIdle r)
  then show ?thesis using assms by (simp add: thread_once_def)
next
  case OnceLoad
  have "0 \<le> once_word M \<and> once_word M \<le> 3" using assms by (auto simp: once_inv_def once_phase_def)
  then show ?thesis using OnceLoad once_inv_stay [OF assms, of t "OnceTop (once_word M)"]
    by (simp add: thread_once_def)
next
  case (OnceTop st)
  have w: "0 \<le> once_word M \<and> once_word M \<le> 3" using assms by (auto simp: once_inv_def once_phase_def)
  have st: "0 \<le> st \<and> st \<le> 3 \<and> (st = 3 \<longrightarrow> once_word M = 3)" using assms OnceTop by (auto simp: once_inv_def dest: spec [of _ t])
  note O = once_inv_outside [OF assms, of t]
  have top: "once_inv (once_goto t (OnceTop (once_word M)) M)" using once_inv_stay [OF assms, of t "OnceTop (once_word M)"] OnceTop w by simp
  consider "st = 0" | "st = 1" | "st = 2" | "st = 3" using st by linarith
  then show ?thesis
  proof cases
    case 1
    have "once_inv (once_goto t OnceInit (M\<lparr>once_word := 2\<rparr>))" if "once_word M = 0"
    proof (rule once_inv_goto [OF assms])
      have "initialisers M = {}" "started M = 0" "finished M = 0" using assms that by (auto simp: once_inv_def once_phase_def)
      then have "initialisers (once_goto t OnceInit (M\<lparr>once_word := 2\<rparr>)) = {t}"
        by (simp add: initialisers_goto) (simp add: initialisers_def)
      then show "once_phase (once_goto t OnceInit (M\<lparr>once_word := 2\<rparr>))"
        using \<open>started M = 0\<close> \<open>finished M = 0\<close> by (auto simp: once_phase_def once_goto_def)
    qed (use that OnceTop in auto)
    then show ?thesis using 1 OnceTop top by (auto simp: thread_once_def once_consts)
  next
    case 2
    then show ?thesis using OnceTop once_inv_stay [OF assms, of t OnceWait] by (simp add: thread_once_def once_consts)
  next
    case 3
    then show ?thesis using OnceTop O [of OnceWait 1] top by (auto simp: thread_once_def once_consts)
  next
    case 4
    then show ?thesis using OnceTop st once_inv_stay [OF assms, of t "OnceIdle True"] by (simp add: thread_once_def once_consts)
  qed
next
  case OnceInit
  have R: "initialisers M = {t}" "once_word M \<in> {1, 2}" "started M = 0" "finished M = 0"
    using once_inv_running [OF assms, of t] OnceInit by simp_all
  show ?thesis using OnceInit R unfolding thread_once_def
    by (auto intro!: once_inv_goto [OF assms] simp: once_phase_def initialisers_goto) (auto simp: once_goto_def initialisers_def)
next
  case OnceCall
  have R: "initialisers M = {t}" "once_word M \<in> {1, 2}" "started M = 1" "finished M = 0"
    using once_inv_running [OF assms, of t] OnceCall by simp_all
  show ?thesis using OnceCall R unfolding thread_once_def
    by (auto intro!: once_inv_goto [OF assms] simp: once_phase_def initialisers_goto) (auto simp: once_goto_def initialisers_def)
next
  case OnceExchange
  have R: "initialisers M = {t}" "once_word M \<in> {1, 2}" "started M = 1" "finished M = 1"
    using once_inv_running [OF assms, of t] OnceExchange by simp_all
  have i: "initialisers (once_goto t p (M\<lparr>once_word := w\<rparr>)) = {}" if "\<not> runs_init p" for p w
    using that R(1) by (simp add: initialisers_goto) (simp add: initialisers_def)
  have "once_phase (once_goto t p (M\<lparr>once_word := 3\<rparr>))" if "\<not> runs_init p" for p
    unfolding once_phase_def i [OF that] using R by (simp add: once_goto_def)
  then show ?thesis using OnceExchange R(2) unfolding thread_once_def
    by (auto simp: once_consts Let_def intro!: once_inv_goto [OF assms])
next
  case OnceWake
  have w: "once_word M = 3" using assms OnceWake by (auto simp: once_inv_def dest: spec [of _ t])
  have "initialisers (thread_once b t M) = initialisers M"
    using OnceWake by (auto simp: initialisers_def thread_once_def once_goto_def once_wake_all_def)
  then have "once_phase (thread_once b t M)" using assms w OnceWake
    by (auto simp: once_inv_def once_phase_def thread_once_def once_goto_def once_wake_all_def)
  then show ?thesis using assms w OnceWake
    by (auto simp: once_inv_def thread_once_def once_goto_def once_wake_all_def)
next
  case OnceWait
  then show ?thesis using once_inv_stay [OF assms, of t OnceLoad] once_inv_stay [OF assms, of t OnceBlocked]
    by (simp add: thread_once_def once_consts)
next
  case OnceBlocked
  then show ?thesis using once_inv_stay [OF assms, of t OnceLoad] assms by (auto simp: thread_once_def)
qed

interpretation once: inductive_invariant once_start once_step once_inv
proof
  show "once_inv M" if "once_start M" for M using that by (auto simp: once_start_def once_inv_def once_phase_def once_consts initialisers_def)
  show "once_inv N" if "once_inv M" "once_step M N" for M N
    using that(2,1)
  proof cases
    case (call_once t r)
    then show ?thesis using once_inv_stay [OF that(1), of t OnceLoad] by simp
  qed (simp add: once_inv_step that(1))
qed

subsection \<open>Properties\<close>

text \<open>
  C7. In every interleaving of \<open>thread_once\<close> calls \<open>init_fn\<close> is started at most once, and no call returns before
  it has been started and has returned.
\<close>

theorem once_runs_exactly_once:
  assumes "reach once_start once_step M"
  shows "started M \<le> 1 \<and> (once_pcs M t = OnceIdle True \<longrightarrow> started M = 1 \<and> finished M = 1)"
proof -
  have inv: "once_inv M" using once.reach_inv [OF assms] .
  then have "started M \<le> 1" by (auto simp: once_inv_def once_phase_def)
  moreover have "once_pcs M t = OnceIdle True \<Longrightarrow> once_word M = 3" using inv by (auto simp: once_inv_def dest: spec [of _ t])
  ultimately show ?thesis using inv by (auto simp: once_inv_def once_phase_def)
qed

text \<open>
  C8. No wakeup is lost: while a thread sleeps in \<open>thread_once\<close> another one is running \<open>init_fn\<close> or about to
  wake the sleepers, so sleeping threads alone never remain.
\<close>

theorem once_no_lost_wakeup:
  assumes "reach once_start once_step M" and "once_pcs M t = OnceBlocked"
  shows "\<exists>u. once_pcs M u \<in> {OnceInit, OnceCall, OnceExchange, OnceWake}"
proof -
  have inv: "once_inv M" using once.reach_inv [OF assms(1)] .
  then have "once_word M = 1 \<or> (\<exists>u. once_pcs M u = OnceWake)" using assms(2) by (auto simp: once_inv_def)
  moreover have "once_word M = 1 \<Longrightarrow> \<exists>u. u \<in> initialisers M" using inv by (auto simp: once_inv_def once_phase_def)
  ultimately show ?thesis unfolding initialisers_def runs_init_def by blast
qed

text \<open>A run in which thread 1 sleeps while thread 0 initialises, and both return.\<close>

definition once_run :: "(bool \<times> nat) list \<Rightarrow> once_machine \<Rightarrow> once_machine" where
  "once_run steps M = fold (\<lambda>(b, t) M. case once_pcs M t of OnceIdle _ \<Rightarrow> once_goto t OnceLoad M | _ \<Rightarrow> thread_once b t M) steps M"

lemma once_run_reach: "reach once_start once_step M \<Longrightarrow> reach once_start once_step (once_run steps M)"
proof (induction steps arbitrary: M)
  case (Cons s steps)
  have "once_step M (case s of (b, t) \<Rightarrow> (case once_pcs M t of OnceIdle _ \<Rightarrow> once_goto t OnceLoad M | _ \<Rightarrow> thread_once b t M))"
    by (cases s) (auto split: once_pc.split intro: once_step.intros)
  then show ?case using Cons by (cases s) (simp add: once_run_def reach_step)
qed (simp add: once_run_def)

definition once_machine0 :: once_machine where
  "once_machine0 = \<lparr>once_word = 0, once_pcs = (\<lambda>_. OnceIdle False), started = 0, finished = 0\<rparr>"

definition sleep_schedule :: "(bool \<times> nat) list" where
  "sleep_schedule = map (Pair True) [0, 0, 0, 1, 1, 1, 1]"

definition return_schedule :: "(bool \<times> nat) list" where
  "return_schedule = sleep_schedule @ map (Pair True) [0, 0, 0, 0, 1, 1]"

lemma once_run_reachable: "reach once_start once_step (once_run steps once_machine0)"
  by (intro once_run_reach reach_init) (simp add: once_start_def once_machine0_def once_consts)

theorem once_runs_exactly_once_witness:
  "once_pcs (once_run return_schedule once_machine0) 1 = OnceIdle True \<and> started (once_run return_schedule once_machine0) = 1"
proof -
  have "once_pcs (once_run return_schedule once_machine0) 1 = OnceIdle True" by code_simp
  then show ?thesis using once_runs_exactly_once [OF once_run_reachable, of return_schedule 1] by simp
qed

theorem once_no_lost_wakeup_witness:
  "\<exists>u. once_pcs (once_run sleep_schedule once_machine0) u \<in> {OnceInit, OnceCall, OnceExchange, OnceWake}"
proof -
  have "once_pcs (once_run sleep_schedule once_machine0) 1 = OnceBlocked" by code_simp
  then show ?thesis by (rule once_no_lost_wakeup [OF once_run_reachable])
qed

end
