(* ===== verification/Semaphore.thy ===== *)
theory Semaphore
  imports Hz_Prelude
begin

text \<open>
  The POSIX semaphore of \<^verbatim>\<open>src/posix/semaphore.cpp\<close>.

  As for the mutex, any number of threads run \<open>sem_post\<close>, \<open>sem_wait\<close>, \<open>sem_timedwait\<close> and
  \<open>sem_trywait\<close> interleaved, one access to the shared word per step, and a thread's program counter
  holds its local variables.  The environment \<open>E\<close> of a step says whether a weak exchange fails
  or a futex wait returns spuriously, what the clock shows, and whether a futex wait is interrupted or times out.  A null timeout is
  \<open>None\<close>; then \<open>sem_timedwait\<close> takes the steps of \<open>sem_wait\<close>.  \<open>SemStuck\<close> is a failed \<open>__ensure\<close> or a
  signed overflow.

  The fields \<open>initial\<close>, \<open>posted\<close> and \<open>taken\<close> are history variables, not present in the code: the
  initial value, the posts that have stored, and the waits that have taken a unit.
\<close>

subsection \<open>State\<close>

definition SEM_VALUE_MAX :: u32 where "SEM_VALUE_MAX = 2147483647"
definition SEMAPHORE_COUNT_MASK :: u32 where "SEMAPHORE_COUNT_MASK = SEM_VALUE_MAX"
definition SEMAPHORE_WAITERS :: u32 where "SEMAPHORE_WAITERS = push_bit 31 1"

type_synonym timespec = "int \<times> int"

datatype sem_pc =
    SemIdle "errno option"
  | PostLoad
  | PostExchange u32
  | PostWake
  | WaitTop "timespec option" u32
  | WaitFutex "timespec option" u32
  | WaitBlocked "timespec option" u32
  | TryLoad
  | TryExchange u32
  | SemStuck

record Semaphore =
  sem_state :: u32
  pshared :: bool

record sem_machine = Semaphore +
  sem_pcs :: "nat \<Rightarrow> sem_pc"
  initial :: nat
  posted :: nat
  taken :: nat

record sem_env =
  spurious :: bool
  clock :: "errno + timespec"
  interrupt :: "errno option"

definition sem_goto :: "nat \<Rightarrow> sem_pc \<Rightarrow> sem_machine \<Rightarrow> sem_machine" where
  "sem_goto t p M = M\<lparr>sem_pcs := (sem_pcs M)(t := p)\<rparr>"

subsection \<open>Operations\<close>

definition sem_init :: "int \<Rightarrow> u32 \<Rightarrow> errno + Semaphore" where
  "sem_init ps v =
     (if v > SEM_VALUE_MAX then Inl EINVAL else Inr \<lparr>sem_state = v, pshared = (ps \<noteq> 0)\<rparr>)"

definition sem_getvalue :: "'a Semaphore_scheme \<Rightarrow> u32" where
  "sem_getvalue M = sem_state M AND NOT SEMAPHORE_WAITERS"

definition sem_wake_all :: "sem_machine \<Rightarrow> sem_machine" where
  "sem_wake_all M =
     M\<lparr>sem_pcs := (\<lambda>t. case sem_pcs M t of WaitBlocked a st \<Rightarrow> WaitTop a st | p \<Rightarrow> p)\<rparr>"

definition sem_post :: "nat \<Rightarrow> sem_machine \<Rightarrow> sem_machine" where
  "sem_post t M =
     (case sem_pcs M t of
        PostLoad \<Rightarrow>
          (let c = sem_state M AND SEMAPHORE_COUNT_MASK in
           if c = SEM_VALUE_MAX then sem_goto t (SemIdle (Some EOVERFLOW)) M
           else sem_goto t (PostExchange c) M)
      | PostExchange c \<Rightarrow>
          (let M' = M\<lparr>sem_state := c + 1, posted := posted M + 1\<rparr> in
           if sem_state M AND SEMAPHORE_WAITERS \<noteq> 0 then sem_goto t PostWake M'
           else sem_goto t (SemIdle None) M')
      | PostWake \<Rightarrow> sem_goto t (SemIdle None) (sem_wake_all M)
      | _ \<Rightarrow> M)"

definition wait_error :: "nat \<Rightarrow> timespec option \<Rightarrow> u32 \<Rightarrow> errno \<Rightarrow> sem_machine \<Rightarrow> sem_machine" where
  "wait_error t a st err M =
     (if err = ETIMEDOUT \<or> err = EINTR then sem_goto t (SemIdle (Some err)) M
      else if err = EAGAIN then sem_goto t (WaitTop a st) M
      else sem_goto t SemStuck M)"

text \<open>The relative timeout, \<open>None\<close> on signed overflow; a past deadline is the error.\<close>

definition relative_timeout :: "timespec \<Rightarrow> timespec \<Rightarrow> (errno + timespec) option" where
  "relative_timeout a now =
     do { sec \<leftarrow> ck64 (fst a - fst now); nsec \<leftarrow> ck64 (snd a - snd now);
          Some (if sec < 0 \<or> (sec = 0 \<and> nsec < 0) then Inl ETIMEDOUT else Inr (sec, nsec)) }"

text \<open>
  The kernel's futex wait: an invalid timeout is refused, a changed word is \<open>EAGAIN\<close>, and otherwise the
  caller sleeps unless interrupted at once; \<open>None\<close> is sleeping.
\<close>

definition futex_wait :: "u32 \<Rightarrow> u32 \<Rightarrow> timespec option \<Rightarrow> errno option \<Rightarrow> errno option" where
  "futex_wait word val timeout intr =
     (case timeout of
        Some (sec, nsec) \<Rightarrow>
          if sec < 0 \<or> nsec < 0 \<or> 1000000000 \<le> nsec then Some EINVAL
          else if word \<noteq> val then Some EAGAIN else intr
      | None \<Rightarrow> if word \<noteq> val then Some EAGAIN else intr)"

definition wait_futex :: "nat \<Rightarrow> timespec option \<Rightarrow> u32 \<Rightarrow> timespec option \<Rightarrow> errno option \<Rightarrow> sem_machine \<Rightarrow> sem_machine" where
  "wait_futex t a st timeout intr M =
     (case futex_wait (sem_state M) st timeout intr of
        None \<Rightarrow> sem_goto t (WaitBlocked a st) M
      | Some err \<Rightarrow> wait_error t a st err M)"

definition sem_timedwait :: "sem_env \<Rightarrow> nat \<Rightarrow> sem_machine \<Rightarrow> sem_machine" where
  "sem_timedwait E t M =
     (case sem_pcs M t of
        WaitTop a st \<Rightarrow>
          (if st AND SEMAPHORE_COUNT_MASK = 0 then
             (if sem_state M = st \<and> \<not> spurious E
              then sem_goto t (WaitFutex a st) (M\<lparr>sem_state := SEMAPHORE_WAITERS\<rparr>)
              else sem_goto t (WaitTop a (sem_state M)) M)
           else if sem_state M = st
             then sem_goto t (SemIdle None) (M\<lparr>sem_state := st - 1, taken := taken M + 1\<rparr>)
             else sem_goto t (WaitTop a (sem_state M)) M)
      | WaitFutex a st \<Rightarrow>
          (case a of
             None \<Rightarrow> wait_futex t a st None (interrupt E) M
           | Some deadline \<Rightarrow>
               (case clock E of
                  Inl e \<Rightarrow> sem_goto t (SemIdle (Some e)) M
                | Inr now \<Rightarrow>
                    (case relative_timeout deadline now of
                       None \<Rightarrow> sem_goto t SemStuck M
                     | Some (Inl e) \<Rightarrow> sem_goto t (SemIdle (Some e)) M
                     | Some (Inr timeout) \<Rightarrow> wait_futex t a st (Some timeout) (interrupt E) M)))
      | WaitBlocked a st \<Rightarrow>
          (if spurious E then sem_goto t (WaitTop a st) M
           else case interrupt E of None \<Rightarrow> M | Some err \<Rightarrow> wait_error t a st err M)
      | _ \<Rightarrow> M)"

definition sem_wait :: "sem_env \<Rightarrow> nat \<Rightarrow> sem_machine \<Rightarrow> sem_machine" where
  "sem_wait E t M =
     (case sem_pcs M t of
        WaitTop None st \<Rightarrow>
          (if st AND SEMAPHORE_COUNT_MASK = 0 then
             (if sem_state M = st \<and> \<not> spurious E
              then sem_goto t (WaitFutex None st) (M\<lparr>sem_state := SEMAPHORE_WAITERS\<rparr>)
              else sem_goto t (WaitTop None (sem_state M)) M)
           else if sem_state M = st
             then sem_goto t (SemIdle None) (M\<lparr>sem_state := st - 1, taken := taken M + 1\<rparr>)
             else sem_goto t (WaitTop None (sem_state M)) M)
      | WaitFutex None st \<Rightarrow> wait_futex t None st None (interrupt E) M
      | WaitBlocked None st \<Rightarrow>
          (if spurious E then sem_goto t (WaitTop None st) M
           else case interrupt E of None \<Rightarrow> M | Some err \<Rightarrow> wait_error t None st err M)
      | _ \<Rightarrow> M)"

definition sem_trywait :: "sem_env \<Rightarrow> nat \<Rightarrow> sem_machine \<Rightarrow> sem_machine" where
  "sem_trywait E t M =
     (case sem_pcs M t of
        TryLoad \<Rightarrow>
          (if sem_state M AND SEMAPHORE_WAITERS \<noteq> 0 \<or> sem_state M = 0
           then sem_goto t (SemIdle (Some EAGAIN)) M
           else sem_goto t (TryExchange (sem_state M)) M)
      | TryExchange st \<Rightarrow>
          (if sem_state M = st \<and> \<not> spurious E
           then sem_goto t (SemIdle None) (M\<lparr>sem_state := st - 1, taken := taken M + 1\<rparr>)
           else sem_goto t TryLoad M)
      | _ \<Rightarrow> M)"

subsection \<open>Interleaving\<close>

text \<open>An interrupted wait reports \<open>EINTR\<close>, or \<open>ETIMEDOUT\<close> after its timeout.\<close>

definition env_ok :: "sem_env \<Rightarrow> bool" where
  "env_ok E \<longleftrightarrow> interrupt E \<in> {None, Some EINTR, Some ETIMEDOUT}"

inductive sem_step :: "nat \<Rightarrow> sem_machine \<Rightarrow> sem_machine \<Rightarrow> bool" for t where
  call_post: "sem_pcs M t = SemIdle r \<Longrightarrow> sem_step t M (sem_goto t PostLoad M)"
| call_wait: "sem_pcs M t = SemIdle r \<Longrightarrow> sem_step t M (sem_goto t (WaitTop a 0) M)"
| call_trywait: "sem_pcs M t = SemIdle r \<Longrightarrow> sem_step t M (sem_goto t TryLoad M)"
| run_post: "sem_step t M (sem_post t M)"
| run_wait: "env_ok E \<Longrightarrow> sem_step t M (sem_wait E t M)"
| run_timedwait: "env_ok E \<Longrightarrow> sem_step t M (sem_timedwait E t M)"
| run_trywait: "env_ok E \<Longrightarrow> sem_step t M (sem_trywait E t M)"

definition sem_any_step :: "sem_machine \<Rightarrow> sem_machine \<Rightarrow> bool" where
  "sem_any_step M N \<longleftrightarrow> (\<exists>t. sem_step t M N)"

text \<open>Steps in which no other thread runs between the load and the exchange of a post.\<close>

definition serial_step :: "sem_machine \<Rightarrow> sem_machine \<Rightarrow> bool" where
  "serial_step M N \<longleftrightarrow> (\<exists>t. sem_step t M N \<and> (\<forall>u c. sem_pcs M u = PostExchange c \<longrightarrow> u = t))"

definition sem_start :: "sem_machine \<Rightarrow> bool" where
  "sem_start M \<longleftrightarrow> (\<exists>ps v. sem_init ps v = Inr \<lparr>sem_state = sem_state M, pshared = pshared M\<rparr>)
     \<and> initial M = unat (sem_state M) \<and> posted M = 0 \<and> taken M = 0 \<and> (\<forall>t. sem_pcs M t = SemIdle None)"


subsection \<open>The word\<close>

definition sem_word_ok :: "u32 \<Rightarrow> bool" where
  "sem_word_ok w \<longleftrightarrow> w = SEMAPHORE_WAITERS \<or> w \<le> SEM_VALUE_MAX"

lemma WAITERS_eq: "SEMAPHORE_WAITERS = 0x80000000"
  by (simp add: SEMAPHORE_WAITERS_def)

lemma WAITERS_bit: "bit SEMAPHORE_WAITERS n \<longleftrightarrow> n = 31"
  unfolding SEMAPHORE_WAITERS_def bit_push_bit_iff by (auto simp: bit_1_iff)

lemma MASK_eq: "SEMAPHORE_COUNT_MASK = mask 31"
  by (simp add: SEMAPHORE_COUNT_MASK_def SEM_VALUE_MAX_def mask_eq_exp_minus_1)

lemma count_waiters [simp]: "SEMAPHORE_WAITERS AND SEMAPHORE_COUNT_MASK = 0"
  by (simp add: WAITERS_eq SEMAPHORE_COUNT_MASK_def SEM_VALUE_MAX_def)

lemma small_word:
  assumes "w \<le> SEM_VALUE_MAX"
  shows "w AND SEMAPHORE_COUNT_MASK = w" "w AND SEMAPHORE_WAITERS = 0"
proof -
  have "uint w < 2 ^ 31" using assms by (simp add: SEM_VALUE_MAX_def word_le_def)
  note hi = high_bits_zero [OF this]
  show "w AND SEMAPHORE_COUNT_MASK = w"
    by (rule bit_word_eqI) (use hi in \<open>auto simp: MASK_eq bit_simps intro: leI ccontr\<close>)
  show "w AND SEMAPHORE_WAITERS = 0"
    by (rule bit_word_eqI) (use hi in \<open>auto simp: WAITERS_bit bit_simps\<close>)
qed

lemma word_succ_ok: "c < SEM_VALUE_MAX \<Longrightarrow> c + 1 \<le> SEM_VALUE_MAX \<and> unat (c + 1) = unat c + 1"
  unfolding SEM_VALUE_MAX_def by (simp add: word_less_nat_alt word_le_nat_alt unat_word_ariths)

lemma word_pred_ok: "c \<le> SEM_VALUE_MAX \<Longrightarrow> c \<noteq> 0 \<Longrightarrow> c - 1 \<le> SEM_VALUE_MAX \<and> unat c = unat (c - 1) + 1"
  unfolding SEM_VALUE_MAX_def by unat_arith

definition sem_count :: "u32 \<Rightarrow> nat" where
  "sem_count w = unat (w AND SEMAPHORE_COUNT_MASK)"

lemma sem_count_simps [simp]: "sem_count SEMAPHORE_WAITERS = 0" "w \<le> SEM_VALUE_MAX \<Longrightarrow> sem_count w = unat w"
  by (simp_all add: sem_count_def small_word)

lemma sem_word_cases:
  assumes "sem_word_ok w"
  obtains "w AND SEMAPHORE_COUNT_MASK = 0" "sem_count w = 0" | "w \<le> SEM_VALUE_MAX" "w \<noteq> 0" "w AND SEMAPHORE_COUNT_MASK = w"
  using assms unfolding sem_word_ok_def by (cases "w = 0") (auto simp: small_word SEM_VALUE_MAX_def sem_count_def)

lemma count_le: "sem_word_ok w \<Longrightarrow> w AND SEMAPHORE_COUNT_MASK \<le> SEM_VALUE_MAX"
  by (auto simp: sem_word_ok_def small_word)

subsection \<open>Invariants\<close>

definition pc_ok :: "sem_pc \<Rightarrow> bool" where
  "pc_ok p \<longleftrightarrow>
     (case p of
        PostExchange c \<Rightarrow> c < SEM_VALUE_MAX
      | WaitTop a st \<Rightarrow> sem_word_ok st
      | WaitFutex a st \<Rightarrow> sem_word_ok st \<and> sem_count st = 0
      | WaitBlocked a st \<Rightarrow> sem_word_ok st \<and> sem_count st = 0
      | TryExchange st \<Rightarrow> st \<le> SEM_VALUE_MAX \<and> st \<noteq> 0
      | _ \<Rightarrow> True)"

definition sem_typed :: "sem_machine \<Rightarrow> bool" where
  "sem_typed M \<longleftrightarrow> sem_word_ok (sem_state M) \<and> (\<forall>t. pc_ok (sem_pcs M t))"

lemma sem_typed_goto:
  "sem_typed M \<Longrightarrow> sem_pcs N = sem_pcs M \<Longrightarrow> sem_word_ok (sem_state N) \<Longrightarrow> pc_ok p \<Longrightarrow> sem_typed (sem_goto t p N)"
  by (simp add: sem_typed_def sem_goto_def)

lemma pc_ok_simps [simp]:
  "pc_ok (SemIdle r)" "pc_ok PostLoad" "pc_ok PostWake" "pc_ok TryLoad" "pc_ok SemStuck"
  "pc_ok (PostExchange c) = (c < SEM_VALUE_MAX)" "pc_ok (WaitTop a st) = sem_word_ok st"
  "pc_ok (WaitFutex a st) = (sem_word_ok st \<and> sem_count st = 0)"
  "pc_ok (WaitBlocked a st) = (sem_word_ok st \<and> sem_count st = 0)"
  "pc_ok (TryExchange st) = (st \<le> SEM_VALUE_MAX \<and> st \<noteq> 0)"
  by (simp_all add: pc_ok_def)

lemma word_ok_intros [intro]:
  "sem_word_ok SEMAPHORE_WAITERS" "sem_word_ok 0" "w \<le> SEM_VALUE_MAX \<Longrightarrow> sem_word_ok w"
  by (auto simp: sem_word_ok_def)

lemma sem_typedD: "sem_typed M \<Longrightarrow> sem_word_ok (sem_state M)" "sem_typed M \<Longrightarrow> pc_ok (sem_pcs M t)"
  by (auto simp: sem_typed_def)

lemma wait_error_typed: "sem_typed M \<Longrightarrow> sem_word_ok st \<Longrightarrow> sem_typed (wait_error t a st err M)"
  by (auto simp: wait_error_def intro!: sem_typed_goto dest: sem_typedD)

lemma wait_futex_typed:
  "sem_typed M \<Longrightarrow> sem_word_ok st \<Longrightarrow> sem_count st = 0 \<Longrightarrow> sem_typed (wait_futex t a st timeout intr M)"
  by (auto simp: wait_futex_def wait_error_typed intro!: sem_typed_goto dest: sem_typedD split: option.split)

lemma sem_wake_all_typed:
  assumes "sem_typed M" shows "sem_typed (sem_wake_all M)"
proof -
  have "pc_ok (case sem_pcs M u of WaitBlocked a st \<Rightarrow> WaitTop a st | p \<Rightarrow> p)" for u
    using sem_typedD(2) [OF assms, of u] by (auto split: sem_pc.split)
  then show ?thesis using assms by (simp add: sem_typed_def sem_wake_all_def)
qed

lemma sem_post_typed:
  assumes "sem_typed M" shows "sem_typed (sem_post t M)"
proof (cases "sem_pcs M t")
  case PostLoad
  have "sem_state M AND SEMAPHORE_COUNT_MASK \<le> SEM_VALUE_MAX" using count_le sem_typedD assms by blast
  then show ?thesis using PostLoad assms
    by (auto simp: sem_post_def Let_def intro!: sem_typed_goto [OF assms] dest: sem_typedD)
next
  case (PostExchange c)
  then have "c + 1 \<le> SEM_VALUE_MAX" using sem_typedD(2) [OF assms, of t] word_succ_ok by auto
  then show ?thesis using PostExchange by (auto simp: sem_post_def Let_def intro!: sem_typed_goto [OF assms])
next
  case PostWake
  then show ?thesis using sem_wake_all_typed [OF assms]
    by (auto simp: sem_post_def intro!: sem_typed_goto dest: sem_typedD)
qed (use assms in \<open>simp_all add: sem_post_def\<close>)

lemma sem_wait_cases: "sem_wait E t M = sem_timedwait E t M \<or> sem_wait E t M = M"
  by (cases "sem_pcs M t") (auto simp: sem_wait_def sem_timedwait_def split: option.split)

lemma sem_timedwait_typed:
  assumes "sem_typed M" shows "sem_typed (sem_timedwait E t M)"
proof (cases "sem_pcs M t")
  case (WaitTop a st)
  have st: "sem_word_ok st" using sem_typedD(2) [OF assms, of t] WaitTop by simp
  have w: "sem_word_ok (sem_state M)" using sem_typedD assms by blast
  from st show ?thesis
  proof (cases rule: sem_word_cases)
    case 1
    then show ?thesis using WaitTop st w by (auto simp: sem_timedwait_def intro!: sem_typed_goto [OF assms])
  next
    case 2
    then show ?thesis using WaitTop w word_pred_ok [of st]
      by (auto simp: sem_timedwait_def intro!: sem_typed_goto [OF assms])
  qed
next
  case (WaitFutex a st)
  then show ?thesis using sem_typedD(2) [OF assms, of t] sem_typedD(1) [OF assms] assms
    by (auto simp: sem_timedwait_def intro!: sem_typed_goto [OF assms] wait_futex_typed split: option.split sum.split)
next
  case (WaitBlocked a st)
  then show ?thesis using sem_typedD(2) [OF assms, of t] sem_typedD(1) [OF assms] assms
    by (auto simp: sem_timedwait_def intro!: sem_typed_goto [OF assms] wait_error_typed split: option.split)
qed (use assms in \<open>simp_all add: sem_timedwait_def\<close>)

lemma sem_trywait_typed:
  assumes "sem_typed M" shows "sem_typed (sem_trywait E t M)"
proof (cases "sem_pcs M t")
  case TryLoad
  then show ?thesis using sem_typedD(1) [OF assms]
    by (auto simp: sem_trywait_def sem_word_ok_def WAITERS_eq intro!: sem_typed_goto [OF assms])
next
  case (TryExchange st)
  then show ?thesis using sem_typedD(1) [OF assms] sem_typedD(2) [OF assms, of t] word_pred_ok [of st]
    by (auto simp: sem_trywait_def intro!: sem_typed_goto [OF assms])
qed (use assms in \<open>simp_all add: sem_trywait_def\<close>)

lemma sem_wait_typed: "sem_typed M \<Longrightarrow> sem_typed (sem_wait E t M)"
  using sem_wait_cases [of E t M] sem_timedwait_typed [of M E t] by auto

lemma sem_step_typed: "sem_step t M N \<Longrightarrow> sem_typed M \<Longrightarrow> sem_typed N"
  by (induction rule: sem_step.induct)
    (auto intro!: sem_typed_goto sem_post_typed sem_wait_typed sem_timedwait_typed sem_trywait_typed dest: sem_typedD)

lemma sem_start_typed: "sem_start M \<Longrightarrow> sem_typed M"
  by (auto simp: sem_start_def sem_init_def sem_typed_def split: if_splits)

interpretation semword: inductive_invariant sem_start sem_any_step sem_typed
  by unfold_locales (auto simp: sem_start_typed sem_any_step_def intro: sem_step_typed)

text \<open>Units are conserved when posts are serial, and a pending post still knows the count.\<close>

definition sem_conserved :: "sem_machine \<Rightarrow> bool" where
  "sem_conserved M \<longleftrightarrow>
     sem_typed M \<and> sem_count (sem_state M) + taken M = initial M + posted M \<and>
     (\<forall>t c. sem_pcs M t = PostExchange c \<longrightarrow> unat c = sem_count (sem_state M))"

lemma conserved_goto:
  assumes "sem_conserved M" "sem_typed (sem_goto t p N)" "sem_pcs N = sem_pcs M" "initial N = initial M"
    "sem_count (sem_state N) + taken N = initial M + posted N"
    "\<forall>u c. sem_pcs M u = PostExchange c \<longrightarrow> u = t" "\<forall>c. p = PostExchange c \<longrightarrow> unat c = sem_count (sem_state N)"
  shows "sem_conserved (sem_goto t p N)"
  using assms by (auto simp: sem_conserved_def sem_goto_def)

lemma conservedD:
  assumes "sem_conserved M"
  shows "sem_typed M" "sem_count (sem_state M) + taken M = initial M + posted M"
    "sem_pcs M t = PostExchange c \<Longrightarrow> unat c = sem_count (sem_state M)"
  using assms by (auto simp: sem_conserved_def)

lemma conserved_same_word:
  assumes "sem_conserved M" "\<forall>u c. sem_pcs M u = PostExchange c \<longrightarrow> u = t" "sem_typed (sem_goto t p M)"
    "\<forall>c. p = PostExchange c \<longrightarrow> unat c = sem_count (sem_state M)"
  shows "sem_conserved (sem_goto t p M)"
  using assms conservedD(2) [OF assms(1)] by (intro conserved_goto) auto

lemma sem_post_conserved:
  assumes inv: "sem_conserved M" and serial: "\<forall>u c. sem_pcs M u = PostExchange c \<longrightarrow> u = t"
  shows "sem_conserved (sem_post t M)"
proof (cases "sem_pcs M t")
  case PostLoad
  then show ?thesis
    using sem_post_typed [OF conservedD(1) [OF inv], of t]
    by (auto simp: sem_post_def Let_def sem_count_def intro!: conserved_same_word [OF inv serial] split: if_splits)
next
  case (PostExchange c)
  have c: "c < SEM_VALUE_MAX" using sem_typedD(2) [OF conservedD(1) [OF inv], of t] PostExchange by simp
  have n: "unat c = sem_count (sem_state M)" using conservedD(3) [OF inv PostExchange] .
  show ?thesis
    using sem_post_typed [OF conservedD(1) [OF inv], of t] PostExchange word_succ_ok [OF c] n
      conservedD(2) [OF inv]
    by (auto simp: sem_post_def Let_def intro!: conserved_goto [OF inv] serial [rule_format] split: if_splits)
next
  case PostWake
  have "sem_conserved (sem_wake_all M)"
    using inv sem_wake_all_typed [OF conservedD(1) [OF inv]]
    by (auto simp: sem_conserved_def sem_wake_all_def split: sem_pc.splits)
  then show ?thesis
    using sem_post_typed [OF conservedD(1) [OF inv], of t] PostWake serial
    by (auto simp: sem_post_def sem_wake_all_def intro!: conserved_same_word split: sem_pc.splits)
qed (use inv in \<open>simp_all add: sem_post_def\<close>)

lemma wait_error_conserved:
  assumes "sem_conserved M" "\<forall>u c. sem_pcs M u = PostExchange c \<longrightarrow> u = t" "sem_word_ok st"
  shows "sem_conserved (wait_error t a st err M)"
  using wait_error_typed [OF conservedD(1) [OF assms(1)] assms(3), of t a err]
  by (auto simp: wait_error_def intro!: conserved_same_word [OF assms(1,2)] split: if_splits)

lemma wait_futex_conserved:
  assumes "sem_conserved M" "\<forall>u c. sem_pcs M u = PostExchange c \<longrightarrow> u = t" "sem_word_ok st" "sem_count st = 0"
  shows "sem_conserved (wait_futex t a st timeout intr M)"
  using wait_futex_typed [OF conservedD(1) [OF assms(1)] assms(3,4), of t a timeout intr]
    wait_error_conserved [OF assms(1-3)]
  by (auto simp: wait_futex_def intro!: conserved_same_word [OF assms(1,2)] split: option.splits)

lemma sem_timedwait_conserved:
  assumes inv: "sem_conserved M" and serial: "\<forall>u c. sem_pcs M u = PostExchange c \<longrightarrow> u = t"
  shows "sem_conserved (sem_timedwait E t M)"
proof (cases "sem_pcs M t")
  case (WaitTop a st)
  note typed = sem_timedwait_typed [OF conservedD(1) [OF inv], of E t]
  have "sem_word_ok st" using sem_typedD(2) [OF conservedD(1) [OF inv], of t] WaitTop by simp
  then show ?thesis
  proof (cases rule: sem_word_cases)
    case 1
    then show ?thesis using WaitTop typed conservedD(2) [OF inv] serial
      by (auto simp: sem_timedwait_def intro!: conserved_same_word [OF inv serial] conserved_goto [OF inv] split: if_splits)
  next
    case 2
    then show ?thesis using WaitTop typed conservedD(2) [OF inv] word_pred_ok [of st] serial
      by (auto simp: sem_timedwait_def intro!: conserved_same_word [OF inv serial] conserved_goto [OF inv] split: if_splits)
  qed
next
  case (WaitFutex a st)
  then show ?thesis
    using sem_typedD(2) [OF conservedD(1) [OF inv], of t] sem_timedwait_typed [OF conservedD(1) [OF inv], of E t]
    by (auto simp: sem_timedwait_def intro!: conserved_same_word [OF inv serial] wait_futex_conserved [OF inv serial]
        split: option.splits sum.splits)
next
  case (WaitBlocked a st)
  then show ?thesis
    using sem_typedD(2) [OF conservedD(1) [OF inv], of t] sem_timedwait_typed [OF conservedD(1) [OF inv], of E t] inv
    by (auto simp: sem_timedwait_def intro!: conserved_same_word [OF inv serial] wait_error_conserved [OF inv serial]
        split: option.splits if_splits)
qed (use inv in \<open>simp_all add: sem_timedwait_def\<close>)

lemma sem_wait_conserved:
  "sem_conserved M \<Longrightarrow> \<forall>u c. sem_pcs M u = PostExchange c \<longrightarrow> u = t \<Longrightarrow> sem_conserved (sem_wait E t M)"
  using sem_wait_cases [of E t M] sem_timedwait_conserved [of M t E] by auto

lemma sem_trywait_conserved:
  assumes inv: "sem_conserved M" and serial: "\<forall>u c. sem_pcs M u = PostExchange c \<longrightarrow> u = t"
  shows "sem_conserved (sem_trywait E t M)"
proof (cases "sem_pcs M t")
  case TryLoad
  then show ?thesis using sem_trywait_typed [OF conservedD(1) [OF inv], of E t]
    by (auto simp: sem_trywait_def intro!: conserved_same_word [OF inv serial] split: if_splits)
next
  case (TryExchange st)
  then show ?thesis
    using sem_trywait_typed [OF conservedD(1) [OF inv], of E t] conservedD(2) [OF inv] word_pred_ok [of st]
      sem_typedD(2) [OF conservedD(1) [OF inv], of t] serial
    by (auto simp: sem_trywait_def intro!: conserved_same_word [OF inv serial] conserved_goto [OF inv] split: if_splits)
qed (use inv in \<open>simp_all add: sem_trywait_def\<close>)

lemma serial_step_conserved: "serial_step M N \<Longrightarrow> sem_conserved M \<Longrightarrow> sem_conserved N"
proof -
  assume "serial_step M N" and inv: "sem_conserved M"
  then obtain t where st: "sem_step t M N" and serial: "\<forall>u c. sem_pcs M u = PostExchange c \<longrightarrow> u = t"
    by (auto simp: serial_step_def)
  note typed = sem_step_typed [OF st conservedD(1) [OF inv]]
  from st typed inv serial show ?thesis
    by cases (auto intro!: conserved_same_word sem_post_conserved sem_wait_conserved sem_timedwait_conserved
        sem_trywait_conserved)
qed

lemma sem_start_conserved: "sem_start M \<Longrightarrow> sem_conserved M"
proof -
  assume start: "sem_start M"
  then have "sem_state M \<le> SEM_VALUE_MAX" by (auto simp: sem_start_def sem_init_def split: if_splits)
  then show ?thesis using start sem_start_typed [OF start] by (auto simp: sem_conserved_def sem_start_def)
qed

interpretation semcount: inductive_invariant sem_start serial_step sem_conserved
  by unfold_locales (auto intro: sem_start_conserved serial_step_conserved)

subsection \<open>Schedules\<close>

text \<open>A schedule names the thread and the action of each step; the environment is undisturbed.\<close>

datatype sem_action = CallPost | CallWait | RunPost | RunWait

definition calm :: sem_env where
  "calm = \<lparr>spurious = False, clock = Inr (0, 0), interrupt = None\<rparr>"

fun sem_act :: "nat \<times> sem_action \<Rightarrow> sem_machine \<Rightarrow> sem_machine" where
  "sem_act (t, CallPost) M = (case sem_pcs M t of SemIdle r \<Rightarrow> sem_goto t PostLoad M | _ \<Rightarrow> sem_post t M)"
| "sem_act (t, CallWait) M = (case sem_pcs M t of SemIdle r \<Rightarrow> sem_goto t (WaitTop None 0) M | _ \<Rightarrow> sem_post t M)"
| "sem_act (t, RunPost) M = sem_post t M"
| "sem_act (t, RunWait) M = sem_wait calm t M"

definition sem_schedule :: "(nat \<times> sem_action) list \<Rightarrow> sem_machine \<Rightarrow> sem_machine" where
  "sem_schedule as M = fold sem_act as M"

lemma sem_act_step: "sem_step (fst a) M (sem_act a M)"
proof -
  have "env_ok calm" by (simp add: env_ok_def calm_def)
  then show ?thesis by (cases "(a, M)" rule: sem_act.cases) (auto intro: sem_step.intros split: sem_pc.split)
qed

lemma reach_schedule: "reach sem_start sem_any_step M \<Longrightarrow> reach sem_start sem_any_step (sem_schedule as M)"
  unfolding sem_schedule_def
proof (induction as arbitrary: M)
  case (Cons a as)
  have "sem_any_step M (sem_act a M)" using sem_act_step [of a M] unfolding sem_any_step_def by blast
  then show ?case using Cons by (auto intro: reach_step simp del: sem_act.simps)
qed simp

definition fresh :: "u32 \<Rightarrow> sem_machine" where
  "fresh v = \<lparr>sem_state = v, pshared = False, sem_pcs = (\<lambda>_. SemIdle None), initial = unat v, posted = 0, taken = 0\<rparr>"

lemma fresh_start: "v \<le> SEM_VALUE_MAX \<Longrightarrow> sem_start (fresh v)"
  by (auto simp: sem_start_def fresh_def sem_init_def not_less [symmetric] intro: exI [of _ 0])

lemmas sem_eval = sem_schedule_def fresh_def calm_def sem_goto_def sem_post_def sem_wait_def sem_wake_all_def
  wait_futex_def futex_wait_def wait_error_def sem_getvalue_def WAITERS_eq SEMAPHORE_COUNT_MASK_def SEM_VALUE_MAX_def Let_def

subsection \<open>Properties\<close>

text \<open>
  In every interleaving, racing posts included, the word of a semaphore is either a count between 0
  and \<open>SEM_VALUE_MAX\<close> or the bare waiters mark, never both at once, and so \<open>sem_getvalue\<close> is at most
  \<open>SEM_VALUE_MAX\<close> and \<open>sem_trywait\<close> fails only at value zero.\<close>

theorem sem_word_well_formed:
  assumes "reach sem_start sem_any_step M"
  shows "(sem_state M = SEMAPHORE_WAITERS \<or> sem_state M \<le> SEM_VALUE_MAX) \<and> sem_getvalue M \<le> SEM_VALUE_MAX
    \<and> (sem_pcs M t = TryLoad \<longrightarrow> sem_pcs (sem_trywait E t M) t = SemIdle (Some EAGAIN) \<longleftrightarrow> sem_getvalue M = 0)"
proof -
  have ok: "sem_word_ok (sem_state M)" using semword.reach_inv [OF assms] by (rule sem_typedD)
  have "sem_getvalue M = (if sem_state M = SEMAPHORE_WAITERS then 0 else sem_state M)"
    by (rule bit_word_eqI)
      (use ok small_word(2) [of "sem_state M"] in
        \<open>auto simp: sem_getvalue_def sem_word_ok_def WAITERS_bit bit_simps bit_eq_iff\<close>)
  then show ?thesis using ok small_word(2) [of "sem_state M"]
    by (auto simp: sem_word_ok_def sem_trywait_def sem_goto_def WAITERS_eq)
qed

theorem sem_word_well_formed_witness:
  "reach sem_start sem_any_step (sem_schedule [(0, CallWait), (0, RunWait)] (fresh 0))
   \<and> sem_getvalue (sem_schedule [(0, CallWait), (0, RunWait)] (fresh 0)) \<le> SEM_VALUE_MAX"
proof -
  have r: "reach sem_start sem_any_step (sem_schedule [(0, CallWait), (0, RunWait)] (fresh 0))"
    by (intro reach_schedule reach_init fresh_start) (simp add: SEM_VALUE_MAX_def)
  show ?thesis using r sem_word_well_formed [OF r] by blast
qed

text \<open>
  C34. As long as no other thread runs between the load and the exchange of a \<open>sem_post\<close>, a semaphore
  conserves its units in every interleaving of posts, waits, timed waits and try-waits: waits never take
  more than the initial value and the posts supplied, and \<open>sem_getvalue\<close> reports exactly the rest.\<close>

theorem sem_serial_posts_conserve_units:
  assumes "reach sem_start serial_step M"
  shows "taken M \<le> initial M + posted M \<and> unat (sem_getvalue M) = initial M + posted M - taken M"
proof -
  have inv: "sem_conserved M" using assms by (rule semcount.reach_inv)
  have "sem_getvalue M = sem_state M AND SEMAPHORE_COUNT_MASK"
    using sem_typedD(1) [OF conservedD(1) [OF inv]]
    by (intro bit_word_eqI) (auto simp: sem_getvalue_def MASK_eq WAITERS_bit bit_simps)
  then show ?thesis using conservedD(2) [OF inv] by (simp add: sem_count_def)
qed

theorem sem_serial_posts_conserve_units_witness:
  "reach sem_start serial_step (sem_act (0, RunWait) (sem_act (0, RunWait) (sem_act (0, CallWait) (fresh 2))))
   \<and> unat (sem_getvalue (sem_act (0, RunWait) (sem_act (0, RunWait) (sem_act (0, CallWait) (fresh 2))))) = 1"
proof -
  have step: "reach sem_start serial_step (sem_act (0, a) A)"
    if "reach sem_start serial_step A" "\<forall>u c. sem_pcs A u \<noteq> PostExchange c" for a A
    using that(2) sem_act_step [of "(0, a)" A] by (intro reach_step [OF that(1)]) (auto simp: serial_step_def)
  define A B C where "A = sem_act (0, CallWait) (fresh 2)" and "B = sem_act (0, RunWait) A" and "C = sem_act (0, RunWait) B"
  have "reach sem_start serial_step (fresh 2)"
    by (intro reach_init fresh_start) (simp add: SEM_VALUE_MAX_def)
  then have "reach sem_start serial_step A" unfolding A_def by (rule step) (simp add: fresh_def)
  then have "reach sem_start serial_step B" unfolding B_def by (rule step) (simp add: A_def sem_eval)
  then have "reach sem_start serial_step C" unfolding C_def by (rule step) (simp add: A_def B_def sem_eval)
  moreover have "taken C = 1" "initial C = 2" "posted C = 0" by (simp_all add: A_def B_def C_def sem_eval)
  ultimately show ?thesis using sem_serial_posts_conserve_units [of C] unfolding A_def B_def C_def by simp
qed

text \<open>
  C36. Without that restriction units are duplicated: a wait between the load and the exchange of a post
  is undone by the exchange, and three waits succeed on a semaphore of value one after a single post.\<close>

theorem sem_post_duplicates_a_unit:
  "\<exists>M. reach sem_start sem_any_step M \<and> initial M = 1 \<and> posted M = 1 \<and> taken M = 3"
proof -
  let ?as = "[(0, CallPost), (0, RunPost), (1, CallWait), (1, RunWait), (1, RunWait), (0, RunPost),
    (1, CallWait), (1, RunWait), (1, RunWait), (1, CallWait), (1, RunWait), (1, RunWait)]"
  have "reach sem_start sem_any_step (sem_schedule ?as (fresh 1))"
    by (intro reach_schedule reach_init fresh_start) (simp add: SEM_VALUE_MAX_def)
  moreover have "initial (sem_schedule ?as (fresh 1)) = 1" "posted (sem_schedule ?as (fresh 1)) = 1"
    "taken (sem_schedule ?as (fresh 1)) = 3" by (simp_all add: sem_eval)
  ultimately show ?thesis by blast
qed

text \<open>
  C35. A wakeup is lost: a thread sleeps in \<open>sem_wait\<close> on a semaphore of value one while no other call
  is in progress.  The futex call compares the word with the value before it was marked, so it sleeps
  on an unmarked zero, and the next post sees no waiter.\<close>

theorem sem_wait_loses_wakeup:
  "\<exists>M. reach sem_start sem_any_step M \<and> sem_getvalue M = 1 \<and> sem_pcs M = (\<lambda>_. SemIdle None)(0 := WaitBlocked None 0)"
proof -
  let ?as = "[(0, CallWait), (0, RunWait), (1, CallPost), (1, RunPost), (1, RunPost), (1, RunPost),
    (2, CallWait), (2, RunWait), (2, RunWait), (0, RunWait), (1, CallPost), (1, RunPost), (1, RunPost)]"
  have "reach sem_start sem_any_step (sem_schedule ?as (fresh 0))"
    by (intro reach_schedule reach_init fresh_start) (simp add: SEM_VALUE_MAX_def)
  moreover have "sem_getvalue (sem_schedule ?as (fresh 0)) = 1"
    "sem_pcs (sem_schedule ?as (fresh 0)) = (\<lambda>_. SemIdle None)(0 := WaitBlocked None 0)"
    by (simp_all add: sem_eval fun_eq_iff)
  ultimately show ?thesis by blast
qed

text \<open>The relative timeout may have negative nanoseconds, which the kernel refuses and the code takes for a panic.\<close>

lemma sem_timedwait_panics:
  "sem_pcs (sem_timedwait \<lparr>spurious = False, clock = Inr (3, 200), interrupt = None\<rparr> 0
     (sem_goto 0 (WaitFutex (Some (5, 100)) 0) (fresh 0))) 0 = SemStuck"
  by (simp add: sem_eval sem_timedwait_def relative_timeout_def ck64_def int64_ok_def)

end
