(* ===== verification/Cond.thy ===== *)
theory Cond
  imports Semaphore
begin

text \<open>
  Condition variables: \<open>thread_cond_wait\<close>, \<open>thread_cond_timedwait\<close>, \<open>thread_cond_signal\<close> and
  \<open>thread_cond_broadcast\<close> of \<^verbatim>\<open>src/internal/thread.cpp\<close>, behind the \<open>pthread_cond\<close> and \<open>cnd\<close> functions, and
  \<open>pthread_cond_clockwait\<close> of \<^verbatim>\<open>src/posix/pthread.cpp\<close>.

  Any number of threads run interleaved, one access to the futex word per step.  The caller's mutex is
  represented by its contract, the thread that holds it: a lock step waits until it is free, which is
  what the theory of the mutex shows.  A wait is called with the mutex held.  A null timeout is \<open>None\<close>; then
  the timed wait takes the steps of the plain one.  \<open>CondStuck\<close> is a signed overflow of the timeout.

  The environment of a step is that of the semaphore, and for a signal the sleeper the kernel picks.
  The history variables \<open>signals\<close> and \<open>broadcasts\<close> count the increments of the word and record the count at the
  last broadcast that has returned; a waiting thread keeps the count \<open>n\<close> at its load.
\<close>

subsection \<open>State\<close>

datatype cond_pc =
    CondIdle "errno option"
  | CondTop "timespec option"
  | CondLoad "timespec option" "timespec option"
  | CondUnlock "timespec option" "timespec option" u32 nat
  | CondFutex "timespec option" "timespec option" u32 nat
  | CondBlocked "timespec option" u32 nat
  | CondRelock "timespec option" "errno option"
  | CondAdd bool
  | CondWake bool nat
  | CondStuck

record Cond =
  futex :: u32
  cond_clock :: int

record cond_machine = Cond +
  cond_pcs :: "nat \<Rightarrow> cond_pc"
  holder :: "nat option"
  signals :: nat
  broadcasts :: nat

definition CLOCK_REALTIME :: int where "CLOCK_REALTIME = 0"

definition thread_cond_init :: "int option \<Rightarrow> Cond" where
  "thread_cond_init attr = \<lparr>futex = 0, cond_clock = (case attr of Some clock_id \<Rightarrow> clock_id | None \<Rightarrow> CLOCK_REALTIME)\<rparr>"

definition cond_goto :: "nat \<Rightarrow> cond_pc \<Rightarrow> cond_machine \<Rightarrow> cond_machine" where
  "cond_goto t p M = M\<lparr>cond_pcs := (cond_pcs M)(t := p)\<rparr>"

definition is_blocked :: "cond_pc \<Rightarrow> bool" where
  "is_blocked p = (case p of CondBlocked _ _ _ \<Rightarrow> True | _ \<Rightarrow> False)"

definition woken :: "cond_pc \<Rightarrow> cond_pc" where
  "woken p = (case p of CondBlocked a _ _ \<Rightarrow> CondRelock a None | _ \<Rightarrow> p)"

subsection \<open>Waiting\<close>

text \<open>What the call does with the result of the futex call once it has the mutex back.\<close>

definition after_relock :: "nat \<Rightarrow> timespec option \<Rightarrow> errno option \<Rightarrow> cond_machine \<Rightarrow> cond_machine" where
  "after_relock t a err M =
     (if a = None then cond_goto t (CondIdle None) M
      else if err = Some ETIMEDOUT then cond_goto t (CondIdle (Some ETIMEDOUT)) M
      else if err = Some EINTR then cond_goto t (CondTop a) M
      else cond_goto t (CondIdle None) M)"

definition cond_futex :: "sem_env \<Rightarrow> nat \<Rightarrow> cond_machine \<Rightarrow> cond_machine" where
  "cond_futex E t M =
     (case cond_pcs M t of
        CondLoad a rel \<Rightarrow> cond_goto t (CondUnlock a rel (futex M) (signals M)) M
      | CondUnlock a rel v n \<Rightarrow> cond_goto t (CondFutex a rel v n) (M\<lparr>holder := None\<rparr>)
      | CondFutex a rel v n \<Rightarrow>
          (case futex_wait (futex M) v rel (interrupt E) of
             None \<Rightarrow> cond_goto t (CondBlocked a v n) M
           | Some err \<Rightarrow> cond_goto t (CondRelock a (Some err)) M)
      | CondBlocked a v n \<Rightarrow>
          (if spurious E then cond_goto t (CondRelock a None) M
           else case interrupt E of None \<Rightarrow> M | Some err \<Rightarrow> cond_goto t (CondRelock a (Some err)) M)
      | CondRelock a err \<Rightarrow>
          (if holder M = None then after_relock t a err (M\<lparr>holder := Some t\<rparr>) else M)
      | _ \<Rightarrow> M)"

definition thread_cond_wait :: "sem_env \<Rightarrow> nat \<Rightarrow> cond_machine \<Rightarrow> cond_machine" where
  "thread_cond_wait E t M =
     (case cond_pcs M t of
        CondTop None \<Rightarrow> cond_goto t (CondLoad None None) M
      | _ \<Rightarrow> cond_futex E t M)"

definition thread_cond_timedwait :: "sem_env \<Rightarrow> nat \<Rightarrow> cond_machine \<Rightarrow> cond_machine" where
  "thread_cond_timedwait E t M =
     (case cond_pcs M t of
        CondTop (Some deadline) \<Rightarrow>
          (case clock E of
             Inl e \<Rightarrow> cond_goto t (CondIdle (Some e)) M
           | Inr now \<Rightarrow>
               (case relative_timeout deadline now of
                  None \<Rightarrow> cond_goto t CondStuck M
                | Some (Inl e) \<Rightarrow> cond_goto t (CondIdle (Some e)) M
                | Some (Inr timeout) \<Rightarrow> cond_goto t (CondLoad (Some deadline) (Some timeout)) M))
      | _ \<Rightarrow> thread_cond_wait E t M)"

text \<open>The same loop with the clock of the call instead of the clock of the condition variable.\<close>

definition pthread_cond_clockwait :: "(int \<Rightarrow> errno + timespec) \<Rightarrow> int \<Rightarrow> sem_env \<Rightarrow> nat \<Rightarrow> cond_machine \<Rightarrow> cond_machine" where
  "pthread_cond_clockwait gettime clock_id E t M = thread_cond_timedwait (E\<lparr>clock := gettime clock_id\<rparr>) t M"

subsection \<open>Waking\<close>

definition cond_add :: "nat \<Rightarrow> bool \<Rightarrow> cond_machine \<Rightarrow> cond_machine" where
  "cond_add t every M =
     cond_goto t (CondWake every (signals M + 1)) (M\<lparr>futex := futex M + 1, signals := signals M + 1\<rparr>)"

definition thread_cond_broadcast :: "nat \<Rightarrow> cond_machine \<Rightarrow> cond_machine" where
  "thread_cond_broadcast t M =
     (case cond_pcs M t of
        CondAdd True \<Rightarrow> cond_add t True M
      | CondWake True i \<Rightarrow>
          cond_goto t (CondIdle None) (M\<lparr>cond_pcs := woken \<circ> cond_pcs M, broadcasts := max (broadcasts M) i\<rparr>)
      | _ \<Rightarrow> M)"

definition thread_cond_signal :: "nat \<Rightarrow> nat \<Rightarrow> cond_machine \<Rightarrow> cond_machine" where
  "thread_cond_signal pick t M =
     (case cond_pcs M t of
        CondAdd False \<Rightarrow> cond_add t False M
      | CondWake False i \<Rightarrow>
          cond_goto t (CondIdle None) (M\<lparr>cond_pcs := (cond_pcs M)(pick := woken (cond_pcs M pick))\<rparr>)
      | _ \<Rightarrow> M)"

subsection \<open>Interleaving\<close>

inductive cond_step :: "cond_machine \<Rightarrow> cond_machine \<Rightarrow> bool" where
  lock: "cond_pcs M t = CondIdle r \<Longrightarrow> holder M = None \<Longrightarrow> cond_step M (M\<lparr>holder := Some t\<rparr>)"
| unlock: "cond_pcs M t = CondIdle r \<Longrightarrow> holder M = Some t \<Longrightarrow> cond_step M (M\<lparr>holder := None\<rparr>)"
| call_wait: "cond_pcs M t = CondIdle r \<Longrightarrow> holder M = Some t \<Longrightarrow> cond_step M (cond_goto t (CondTop a) M)"
| call_wake: "cond_pcs M t = CondIdle r \<Longrightarrow> cond_step M (cond_goto t (CondAdd every) M)"
| run_wait: "env_ok E \<Longrightarrow> cond_step M (thread_cond_timedwait E t M)"
| run_broadcast: "cond_step M (thread_cond_broadcast t M)"
| run_signal: "(\<exists>u. is_blocked (cond_pcs M u)) \<longrightarrow> is_blocked (cond_pcs M pick) \<Longrightarrow> cond_step M (thread_cond_signal pick t M)"

definition cond_start :: "cond_machine \<Rightarrow> bool" where
  "cond_start M \<longleftrightarrow> (\<exists>attr. thread_cond_init attr = \<lparr>futex = futex M, cond_clock = cond_clock M\<rparr>) \<and> signals M = 0 \<and> broadcasts M = 0 \<and> holder M = None \<and> (\<forall>t. cond_pcs M t = CondIdle None)"

subsection \<open>The invariant\<close>

text \<open>A thread inside a wait holds the mutex before it releases it and when it returns, and not in between.\<close>

definition cond_local :: "nat option \<Rightarrow> nat \<Rightarrow> nat \<Rightarrow> nat \<Rightarrow> cond_pc \<Rightarrow> bool" where
  "cond_local h s br t p \<longleftrightarrow>
     (case p of
        CondTop a \<Rightarrow> h = Some t
      | CondLoad a rel \<Rightarrow> h = Some t
      | CondUnlock a rel v n \<Rightarrow> h = Some t \<and> v = of_nat n \<and> n \<le> s
      | CondFutex a rel v n \<Rightarrow> h \<noteq> Some t \<and> v = of_nat n \<and> n \<le> s
      | CondBlocked a v n \<Rightarrow> h \<noteq> Some t \<and> v = of_nat n \<and> n \<le> s \<and> (s < 2 ^ 32 \<longrightarrow> br \<le> n)
      | CondRelock a err \<Rightarrow> h \<noteq> Some t
      | CondWake every i \<Rightarrow> i \<le> s
      | _ \<Rightarrow> True)"

definition cond_inv :: "cond_machine \<Rightarrow> bool" where
  "cond_inv M \<longleftrightarrow>
     futex M = of_nat (signals M) \<and> broadcasts M \<le> signals M \<and>
     (\<forall>t. cond_local (holder M) (signals M) (broadcasts M) t (cond_pcs M t))"

lemma cond_local_simps [simp]:
  "cond_local h s br t (CondIdle r)" "cond_local h s br t (CondAdd every)" "cond_local h s br t CondStuck"
  "cond_local h s br t (CondTop a) \<longleftrightarrow> h = Some t" "cond_local h s br t (CondLoad a rel) \<longleftrightarrow> h = Some t"
  "cond_local h s br t (CondUnlock a rel v n) \<longleftrightarrow> h = Some t \<and> v = of_nat n \<and> n \<le> s"
  "cond_local h s br t (CondFutex a rel v n) \<longleftrightarrow> h \<noteq> Some t \<and> v = of_nat n \<and> n \<le> s"
  "cond_local h s br t (CondBlocked a v n) \<longleftrightarrow> h \<noteq> Some t \<and> v = of_nat n \<and> n \<le> s \<and> (s < 2 ^ 32 \<longrightarrow> br \<le> n)"
  "cond_local h s br t (CondRelock a err) \<longleftrightarrow> h \<noteq> Some t" "cond_local h s br t (CondWake every i) \<longleftrightarrow> i \<le> s"
  by (simp_all add: cond_local_def)

text \<open>Another thread's condition survives a change of the holder that does not involve it and an increment.\<close>

lemma cond_local_frame:
  "cond_local h s br u p \<Longrightarrow> h' = Some u \<longleftrightarrow> h = Some u \<Longrightarrow> s \<le> s' \<Longrightarrow> cond_local h' s' br u p"
  by (cases p) auto

lemma cond_inv_goto:
  assumes inv: "cond_inv M" and pcs: "cond_pcs N = cond_pcs M" and "futex N = of_nat (signals N)" and "signals M \<le> signals N"
    and "broadcasts N = broadcasts M" and h: "\<And>u. u \<noteq> t \<Longrightarrow> holder N = Some u \<longleftrightarrow> holder M = Some u"
    and "cond_local (holder N) (signals N) (broadcasts N) t p"
  shows "cond_inv (cond_goto t p N)"
proof -
  have "cond_local (holder N) (signals N) (broadcasts N) u (((cond_pcs M)(t := p)) u)" for u
    using inv assms(4,5,7) h by (cases "u = t") (auto simp: cond_inv_def intro: cond_local_frame)
  then show ?thesis using assms(3,4,5) inv by (auto simp: cond_inv_def cond_goto_def pcs)
qed

lemma cond_invD:
  assumes "cond_inv M"
  shows "futex M = of_nat (signals M)" "broadcasts M \<le> signals M" "cond_local (holder M) (signals M) (broadcasts M) t (cond_pcs M t)"
  using assms by (auto simp: cond_inv_def)

lemma after_relock_inv:
  assumes "cond_inv M" and "holder M = None" shows "cond_inv (after_relock t a err (M\<lparr>holder := Some t\<rparr>))"
  unfolding after_relock_def
  using cond_inv_goto [OF assms(1), of "M\<lparr>holder := Some t\<rparr>" t] cond_invD [OF assms(1)] assms(2) by simp

lemma cond_futex_inv:
  assumes inv: "cond_inv M" shows "cond_inv (cond_futex E t M)"
proof -
  note G = cond_inv_goto [OF inv, of _ t] and D = cond_invD [OF inv]
  have L: "cond_local (holder M) (signals M) (broadcasts M) t (cond_pcs M t)" by (rule D)
  show ?thesis
  proof (cases "cond_pcs M t")
    case (CondFutex a rel v n)
    have eq: "n = signals M" if "futex M = v" "signals M < 2 ^ 32"
    proof -
      have "(of_nat (signals M) :: u32) = of_nat n" "n \<le> signals M" using that D(1) L CondFutex by auto
      then have "signals M mod 2 ^ 32 = n mod 2 ^ 32"
        by (simp add: word_of_nat_eq_iff take_bit_eq_mod)
      then show ?thesis using \<open>n \<le> signals M\<close> that(2) by simp
    qed
    have "futex_wait (futex M) v rel (interrupt E) = None \<Longrightarrow> futex M = v" by (auto simp: futex_wait_def split: option.splits prod.splits if_splits)
    then have "futex_wait (futex M) v rel (interrupt E) = None \<Longrightarrow> cond_inv (cond_goto t (CondBlocked a v n) M)"
      using eq D L CondFutex by (intro G) auto
    moreover have "cond_inv (cond_goto t (CondRelock a err) M)" for err using D L CondFutex by (intro G) auto
    ultimately show ?thesis using CondFutex by (auto simp: cond_futex_def split: option.split)
  next
    case (CondBlocked a v n)
    have "cond_inv (cond_goto t (CondRelock a err) M)" for err using D L CondBlocked by (intro G) auto
    then show ?thesis using CondBlocked inv by (auto simp: cond_futex_def split: option.split)
  next
    case (CondUnlock a rel v n)
    then show ?thesis using D L by (auto simp: cond_futex_def intro!: G)
  next
    case (CondRelock a err)
    then show ?thesis using after_relock_inv [OF inv] inv by (simp add: cond_futex_def)
  qed (use D L inv in \<open>auto simp: cond_futex_def intro!: G\<close>)
qed

lemma timedwait_inv:
  assumes inv: "cond_inv M" shows "cond_inv (thread_cond_timedwait E t M)"
proof -
  note G = cond_inv_goto [OF inv, of M t] and D = cond_invD [OF inv]
  show ?thesis
  proof (cases "cond_pcs M t")
    case (CondTop a)
    have "holder M = Some t" using D(3) [of t] CondTop by simp
    then show ?thesis using CondTop D(1)
      by (auto simp: thread_cond_timedwait_def thread_cond_wait_def intro!: G split: option.split sum.split)
  qed (use cond_futex_inv [OF inv, of E t] in \<open>simp_all add: thread_cond_timedwait_def thread_cond_wait_def\<close>)
qed

lemma cond_add_inv: "cond_inv M \<Longrightarrow> cond_inv (cond_add t every M)"
  unfolding cond_add_def by (rule cond_inv_goto) (auto dest: cond_invD)

lemma cond_local_woken: "cond_local h s br u p \<Longrightarrow> cond_local h s br' u (woken p)"
  by (cases p) (auto simp: woken_def)

lemma broadcast_inv:
  assumes inv: "cond_inv M" shows "cond_inv (thread_cond_broadcast t M)"
proof (cases "\<exists>i. cond_pcs M t = CondWake True i")
  case True
  then obtain i where i: "cond_pcs M t = CondWake True i" by blast
  then have "i \<le> signals M" using cond_invD(3) [OF inv, of t] by simp
  then show ?thesis using inv i cond_invD(2) [OF inv]
    by (auto simp: thread_cond_broadcast_def cond_inv_def cond_goto_def intro: cond_local_woken)
next
  case False
  then show ?thesis using inv cond_add_inv [OF inv]
    by (cases "cond_pcs M t") (auto simp: thread_cond_broadcast_def split: bool.split)
qed

lemma signal_inv:
  assumes inv: "cond_inv M" shows "cond_inv (thread_cond_signal pick t M)"
proof (cases "\<exists>i. cond_pcs M t = CondWake False i")
  case True
  then show ?thesis using inv cond_local_woken [OF cond_invD(3) [OF inv, of pick], of "broadcasts M"]
    by (auto simp: thread_cond_signal_def cond_inv_def cond_goto_def)
next
  case False
  then show ?thesis using inv cond_add_inv [OF inv]
    by (cases "cond_pcs M t") (auto simp: thread_cond_signal_def split: bool.split)
qed

interpretation cond: inductive_invariant cond_start cond_step cond_inv
proof
  show "cond_inv M" if "cond_start M" for M using that by (auto simp: cond_start_def cond_inv_def thread_cond_init_def)
  show "cond_inv N" if inv: "cond_inv M" and "cond_step M N" for M N
    using that(2)
  proof cases
    case (lock t r)
    then show ?thesis using inv cond_inv_goto [OF inv, of "M\<lparr>holder := Some t\<rparr>" t "CondIdle r"] cond_invD [OF inv]
      by (simp add: cond_goto_def fun_upd_idem)
  next
    case (unlock t r)
    then show ?thesis using inv cond_inv_goto [OF inv, of "M\<lparr>holder := None\<rparr>" t "CondIdle r"] cond_invD [OF inv]
      by (simp add: cond_goto_def fun_upd_idem)
  next
    case (call_wait t r a)
    then show ?thesis using cond_inv_goto [OF inv, of M t "CondTop a"] cond_invD [OF inv] by simp
  next
    case (call_wake t r every)
    then show ?thesis using cond_inv_goto [OF inv, of M t "CondAdd every"] cond_invD [OF inv] by simp
  qed (simp_all add: timedwait_inv broadcast_inv signal_inv inv)
qed

subsection \<open>Properties\<close>

text \<open>
  C11. A broadcast wakes every thread that waited before it: in every interleaving with fewer than 2^32
  signals, a sleeping thread has read the word after the increment of the last broadcast that has
  returned, so a thread that read it before that increment is awake.
\<close>

theorem cond_broadcast_wakes_all:
  assumes "reach cond_start cond_step M" and "signals M < 2 ^ 32" and "cond_pcs M t = CondBlocked a v n"
  shows "broadcasts M \<le> n \<and> n \<le> signals M"
  using cond_invD(3) [OF cond.reach_inv [OF assms(1)], of t] assms(2,3) by simp

text \<open>
  C12. A wait gives the mutex up while it sleeps and has it back when it returns, with success, on a
  timeout, and on an error of the clock alike.
\<close>

theorem cond_wait_returns_with_mutex:
  assumes "reach cond_start cond_step M" and "\<And>r. cond_pcs M t \<noteq> CondIdle r"
    and "cond_pcs (thread_cond_timedwait E t M) t = CondIdle r"
  shows "holder (thread_cond_timedwait E t M) = Some t \<and> (\<forall>a v n. cond_pcs M u = CondBlocked a v n \<longrightarrow> holder M \<noteq> Some u)"
proof -
  note D = cond_invD(3) [OF cond.reach_inv [OF assms(1)]]
  have "holder (thread_cond_timedwait E t M) = Some t"
    using D [of t] assms(2,3)
    by (cases "cond_pcs M t")
      (auto simp: thread_cond_timedwait_def thread_cond_wait_def cond_futex_def after_relock_def cond_goto_def
        split: option.splits sum.splits if_splits)
  then show ?thesis using D [of u] by auto
qed

text \<open>Runs of a schedule.\<close>

datatype cond_act = ALock nat | AWait nat | ASignal nat | ABroadcast nat | ARun nat | AWake nat nat

definition idle :: "cond_pc \<Rightarrow> bool" where
  "idle p = (case p of CondIdle _ \<Rightarrow> True | _ \<Rightarrow> False)"

definition quiet :: sem_env where
  "quiet = \<lparr>spurious = False, clock = Inl EINVAL, interrupt = None\<rparr>"

fun cond_do :: "cond_act \<Rightarrow> cond_machine \<Rightarrow> cond_machine" where
  "cond_do (ALock t) M = (if idle (cond_pcs M t) \<and> holder M = None then M\<lparr>holder := Some t\<rparr> else M)"
| "cond_do (AWait t) M = (if idle (cond_pcs M t) \<and> holder M = Some t then cond_goto t (CondTop None) M else M)"
| "cond_do (ASignal t) M = (if idle (cond_pcs M t) then cond_goto t (CondAdd False) M else M)"
| "cond_do (ABroadcast t) M = (if idle (cond_pcs M t) then cond_goto t (CondAdd True) M else M)"
| "cond_do (ARun t) M =
     (case cond_pcs M t of CondAdd True \<Rightarrow> thread_cond_broadcast t M | CondWake True _ \<Rightarrow> thread_cond_broadcast t M
      | _ \<Rightarrow> thread_cond_timedwait quiet t M)"
| "cond_do (AWake pick t) M = (if is_blocked (cond_pcs M pick) then thread_cond_signal pick t M else M)"

lemma cond_do_reach:
  assumes "reach cond_start cond_step M" shows "reach cond_start cond_step (cond_do x M)"
proof -
  have i: "idle p \<Longrightarrow> \<exists>r. p = CondIdle r" for p by (cases p) (auto simp: idle_def)
  have q: "env_ok quiet" by (simp add: env_ok_def quiet_def)
  have "cond_step M (cond_do x M) \<or> cond_do x M = M"
    by (cases x) (auto dest!: i split: cond_pc.splits bool.splits intro: cond_step.intros run_wait [OF q] simp: is_blocked_def)
  then show ?thesis using assms by (auto intro: reach_step)
qed

definition cond_machine0 :: cond_machine where
  "cond_machine0 = \<lparr>futex = 0, cond_clock = 0, cond_pcs = (\<lambda>_. CondIdle None), holder = None, signals = 0, broadcasts = 0\<rparr>"

lemma cond_run_reach: "reach cond_start cond_step (fold cond_do xs cond_machine0)"
proof -
  have "reach cond_start cond_step (fold cond_do xs M)" if "reach cond_start cond_step M" for M
    using that by (induction xs arbitrary: M) (simp_all add: cond_do_reach)
  moreover have "reach cond_start cond_step cond_machine0" by (rule reach_init) (simp add: cond_start_def cond_machine0_def thread_cond_init_def CLOCK_REALTIME_def exI [of _ None])
  ultimately show ?thesis .
qed

definition sleep_run :: "nat \<Rightarrow> cond_act list" where
  "sleep_run t = [ALock t, AWait t, ARun t, ARun t, ARun t, ARun t]"

theorem cond_broadcast_wakes_all_witness:
  "broadcasts (fold cond_do ([ABroadcast 0, ARun 0, ARun 0] @ sleep_run 1) cond_machine0) \<le> 1"
proof -
  let ?M = "fold cond_do ([ABroadcast 0, ARun 0, ARun 0] @ sleep_run 1) cond_machine0"
  have "cond_pcs ?M 1 = CondBlocked None 1 1" "signals ?M = 1" by code_simp+
  then show ?thesis using cond_broadcast_wakes_all [OF cond_run_reach, of "[ABroadcast 0, ARun 0, ARun 0] @ sleep_run 1"] by simp
qed

theorem cond_wait_returns_with_mutex_witness:
  "holder (thread_cond_timedwait quiet 1 (fold cond_do (sleep_run 1 @ [ABroadcast 0, ARun 0, ARun 0]) cond_machine0)) = Some 1"
proof -
  let ?l = "sleep_run 1 @ [ABroadcast 0, ARun 0, ARun 0]"
  have "cond_pcs (fold cond_do ?l cond_machine0) 1 = CondRelock None None"
    "cond_pcs (thread_cond_timedwait quiet 1 (fold cond_do ?l cond_machine0)) 1 = CondIdle None" by code_simp+
  then show ?thesis using cond_wait_returns_with_mutex [OF cond_run_reach, of ?l 1] by simp
qed

text \<open>
  C13. A signal can miss the threads it is meant for: a thread that starts to wait between the increment and
  the wake of \<open>thread_cond_signal\<close> can take the wakeup, and a thread that has slept since before the signal sleeps on
  although the signal has returned.
\<close>

theorem cond_signal_stolen:
  "\<exists>M. reach cond_start cond_step M \<and> cond_pcs M 0 = CondWake False 1 \<and> cond_pcs M 1 = CondBlocked None 0 0 \<and>
     cond_pcs M 2 = CondBlocked None 1 1 \<and> cond_step M (thread_cond_signal 2 0 M) \<and>
     cond_pcs (thread_cond_signal 2 0 M) 0 = CondIdle None \<and> cond_pcs (thread_cond_signal 2 0 M) 1 = CondBlocked None 0 0"
proof -
  let ?l = "sleep_run 1 @ [ASignal 0, AWake 1 0] @ sleep_run 2"
  let ?M = "fold cond_do ?l cond_machine0"
  have "cond_pcs ?M 0 = CondWake False 1" "cond_pcs ?M 1 = CondBlocked None 0 0" "cond_pcs ?M 2 = CondBlocked None 1 1"
    "cond_pcs (thread_cond_signal 2 0 ?M) 0 = CondIdle None" "cond_pcs (thread_cond_signal 2 0 ?M) 1 = CondBlocked None 0 0"
    by code_simp+
  moreover have "cond_step ?M (thread_cond_signal 2 0 ?M)" by (rule run_signal) (use calculation(3) in \<open>simp add: is_blocked_def\<close>)
  ultimately show ?thesis using cond_run_reach [of ?l] by blast
qed

end
