(* ===== verification/Barrier.thy ===== *)
theory Barrier
  imports Hz_Prelude
begin

text \<open>
  The barrier of \<^verbatim>\<open>src/posix/pthread.cpp\<close>: \<open>pthread_barrier_init\<close>, \<open>pthread_barrier_wait\<close> and
  \<open>pthread_barrier_destroy\<close>.

  Threads run interleaved, one access to one of the three shared words per step, with the local variables
  in the program counter.  The flag \<open>b\<close> of a step resolves a spurious failure of the weak exchange and
  an early return of a futex wait.  A value \<open>True\<close> of \<open>BarIdle\<close> is the return value
  \<open>PTHREAD_BARRIER_SERIAL_THREAD\<close> of the last call, \<open>False\<close> is 0.

  The fields \<open>arrived\<close>, \<open>returned\<close> and \<open>bumps\<close> are history variables: how often a thread has been counted
  and has returned, and how often the sequence was bumped.
\<close>

subsection \<open>State\<close>

datatype bar_pc =
    BarIdle bool
  | BarEnter
  | BarSequence
  | BarLoad u32
  | BarCas u32 int
  | BarBump
  | BarStore
  | BarWakeAll
  | BarWait u32
  | BarBlocked u32
  | BarCheck u32
  | BarLeave bool
  | BarLeaveWake bool
  | DestroyLoad
  | DestroyWait int
  | DestroyBlocked

record Barrier =
  b_waiting :: int
  b_inside :: int
  b_sequence :: u32
  b_count :: int

record bar_machine = Barrier +
  bar_pcs :: "nat \<Rightarrow> bar_pc"
  arrived :: "nat \<Rightarrow> nat"
  returned :: "nat \<Rightarrow> nat"
  bumps :: nat

definition bar_goto :: "nat \<Rightarrow> bar_pc \<Rightarrow> bar_machine \<Rightarrow> bar_machine" where
  "bar_goto t p M = M\<lparr>bar_pcs := (bar_pcs M)(t := p)\<rparr>"

definition bar_return :: "nat \<Rightarrow> bool \<Rightarrow> bar_machine \<Rightarrow> bar_machine" where
  "bar_return t r M = bar_goto t (BarIdle r) (M\<lparr>returned := (returned M)(t := returned M t + 1)\<rparr>)"

definition pthread_barrier_init :: "u32 \<Rightarrow> Barrier" where
  "pthread_barrier_init n = \<lparr>b_waiting = 0, b_inside = 0, b_sequence = 0, b_count = sint n\<rparr>"

subsection \<open>Operations\<close>

text \<open>The two wake calls, on the sequence and on the number of threads inside.\<close>

definition wake_sequence :: "bar_machine \<Rightarrow> bar_machine" where
  "wake_sequence M = M\<lparr>bar_pcs := (\<lambda>t. case bar_pcs M t of BarBlocked s \<Rightarrow> BarCheck s | p \<Rightarrow> p)\<rparr>"

definition wake_inside :: "bar_machine \<Rightarrow> bar_machine" where
  "wake_inside M = M\<lparr>bar_pcs := (\<lambda>t. case bar_pcs M t of DestroyBlocked \<Rightarrow> BarIdle False | p \<Rightarrow> p)\<rparr>"

definition pthread_barrier_wait :: "bool \<Rightarrow> nat \<Rightarrow> bar_machine \<Rightarrow> bar_machine" where
  "pthread_barrier_wait b t M =
     (case bar_pcs M t of
        BarEnter \<Rightarrow> bar_goto t BarSequence (M\<lparr>b_inside := b_inside M + 1\<rparr>)
      | BarSequence \<Rightarrow> bar_goto t (BarLoad (b_sequence M)) M
      | BarLoad s \<Rightarrow> bar_goto t (BarCas s (b_waiting M)) M
      | BarCas s e \<Rightarrow>
          (if b_waiting M = e \<and> b then
             (let M' = M\<lparr>b_waiting := e + 1, arrived := (arrived M)(t := arrived M t + 1)\<rparr> in
              if e + 1 = b_count M then bar_goto t BarBump M' else bar_goto t (BarWait s) M')
           else bar_goto t (BarLoad s) M)
      | BarBump \<Rightarrow> bar_goto t BarStore (M\<lparr>b_sequence := b_sequence M + 1, bumps := bumps M + 1\<rparr>)
      | BarStore \<Rightarrow> bar_goto t BarWakeAll (M\<lparr>b_waiting := 0\<rparr>)
      | BarWakeAll \<Rightarrow> bar_goto t (BarLeave True) (wake_sequence M)
      | BarWait s \<Rightarrow> (if b_sequence M = s \<and> b then bar_goto t (BarBlocked s) M else bar_goto t (BarCheck s) M)
      | BarBlocked s \<Rightarrow> (if b then bar_goto t (BarCheck s) M else M)
      | BarCheck s \<Rightarrow> (if sint (b_sequence M) > sint s then bar_goto t (BarLeave False) M else bar_goto t (BarWait s) M)
      | BarLeave r \<Rightarrow>
          (let M' = M\<lparr>b_inside := b_inside M - 1\<rparr> in
           if b_inside M - 1 = 0 then bar_goto t (BarLeaveWake r) M' else bar_return t r M')
      | BarLeaveWake r \<Rightarrow> bar_return t r (wake_inside M)
      | _ \<Rightarrow> M)"

text \<open>The local variable \<open>inside\<close> of the code stays 0, so its loop runs once.\<close>

definition pthread_barrier_destroy :: "bool \<Rightarrow> nat \<Rightarrow> bar_machine \<Rightarrow> bar_machine" where
  "pthread_barrier_destroy b t M =
     (case bar_pcs M t of
        DestroyLoad \<Rightarrow> (if b_inside M = 0 then bar_goto t (BarIdle False) M else bar_goto t (DestroyWait (b_inside M)) M)
      | DestroyWait e \<Rightarrow> (if b_inside M = e \<and> b then bar_goto t DestroyBlocked M else bar_goto t (BarIdle False) M)
      | DestroyBlocked \<Rightarrow> (if b then bar_goto t (BarIdle False) M else M)
      | _ \<Rightarrow> M)"

subsection \<open>Interleaving\<close>

inductive bar_step :: "bar_machine \<Rightarrow> bar_machine \<Rightarrow> bool" where
  call_wait: "bar_pcs M t = BarIdle r \<Longrightarrow> bar_step M (bar_goto t BarEnter M)"
| call_destroy: "bar_pcs M t = BarIdle r \<Longrightarrow> bar_step M (bar_goto t DestroyLoad M)"
| run_wait: "bar_step M (pthread_barrier_wait b t M)"
| run_destroy: "bar_step M (pthread_barrier_destroy b t M)"

text \<open>Steps of calls in progress, without a new call.\<close>

inductive bar_run :: "bar_machine \<Rightarrow> bar_machine \<Rightarrow> bool" where
  "bar_run M (pthread_barrier_wait b t M)"
| "bar_run M (pthread_barrier_destroy b t M)"

definition bar_start :: "u32 \<Rightarrow> bar_machine \<Rightarrow> bool" where
  "bar_start n M \<longleftrightarrow> (\<forall>t. bar_pcs M t = BarIdle False \<and> arrived M t = 0 \<and> returned M t = 0) \<and> bumps M = 0 \<and>
     pthread_barrier_init n = \<lparr>b_waiting = b_waiting M, b_inside = b_inside M, b_sequence = b_sequence M, b_count = b_count M\<rparr>"

fun bar_do :: "nat \<Rightarrow> bar_machine \<Rightarrow> bar_machine" where
  "bar_do t M = (case bar_pcs M t of BarIdle _ \<Rightarrow> bar_goto t BarEnter M | _ \<Rightarrow> pthread_barrier_wait True t M)"

definition bar_machine0 :: bar_machine where
  "bar_machine0 = \<lparr>b_waiting = 0, b_inside = 0, b_sequence = 0, b_count = 2, bar_pcs = (\<lambda>_. BarIdle False),
     arrived = (\<lambda>_. 0), returned = (\<lambda>_. 0), bumps = 0\<rparr>"

lemma bar_do_step: "bar_step M (bar_do t M)"
  by (auto split: bar_pc.split intro: bar_step.intros)

lemma bar_do_reach: "reach (bar_start 2) bar_step (fold bar_do ts bar_machine0)"
proof -
  have "reach (bar_start 2) bar_step (fold bar_do ts M)" if "reach (bar_start 2) bar_step M" for M
    using that by (induction ts arbitrary: M) (auto simp del: bar_do.simps intro: bar_do_step reach_step)
  moreover have "reach (bar_start 2) bar_step bar_machine0"
    by (rule reach_init) (simp add: bar_start_def bar_machine0_def pthread_barrier_init_def)
  ultimately show ?thesis .
qed

subsection \<open>Waiting for ever\<close>

text \<open>
  A set of threads waits for a sequence number that has not come, and every other thread is
  outside: then nobody will ever bump the sequence.
\<close>

definition waits_for :: "u32 \<Rightarrow> bar_pc \<Rightarrow> bool" where
  "waits_for s p \<longleftrightarrow> p \<in> {BarWait s, BarBlocked s, BarCheck s}"

definition bar_dead :: "nat set \<Rightarrow> u32 \<Rightarrow> bar_machine \<Rightarrow> bool" where
  "bar_dead T s M \<longleftrightarrow> b_sequence M = s \<and> (\<forall>t\<in>T. waits_for s (bar_pcs M t)) \<and> (\<forall>t. t \<notin> T \<longrightarrow> (\<exists>r. bar_pcs M t = BarIdle r))"

lemma bar_dead_step:
  assumes "bar_dead T s M" and "bar_run M N" shows "bar_dead T s N"
  using assms(2)
proof cases
  case (1 b t)
  then show ?thesis using assms(1) by (cases "t \<in> T"; cases "bar_pcs M t")
      (auto simp: bar_dead_def waits_for_def pthread_barrier_wait_def bar_goto_def bar_return_def)
next
  case (2 b t)
  then show ?thesis using assms(1) by (cases "t \<in> T"; cases "bar_pcs M t")
      (auto simp: bar_dead_def waits_for_def pthread_barrier_destroy_def bar_goto_def)
qed

lemma bar_dead_forever: "bar_run\<^sup>*\<^sup>* M N \<Longrightarrow> bar_dead T s M \<Longrightarrow> bar_dead T s N"
  by (induction rule: rtranclp_induct) (auto intro: bar_dead_step)

subsection \<open>Properties\<close>

lemma bar_do_other:
  assumes "u \<noteq> t" and "bar_pcs M u = BarIdle r"
  shows "bar_pcs (bar_do t M) u = BarIdle r"
  using assms by (auto simp: pthread_barrier_wait_def bar_goto_def bar_return_def wake_sequence_def wake_inside_def Let_def split: bar_pc.split)

lemma bar_fold_other:
  "u \<notin> set ts \<Longrightarrow> bar_pcs M u = BarIdle r \<Longrightarrow> bar_pcs (fold bar_do ts M) u = BarIdle r"
  by (induction ts arbitrary: M) (simp_all del: bar_do.simps add: bar_do_other)

text \<open>The schedule of two threads on a barrier for two: thread 0 returns from the first round and
  arrives for the second one between the two stores of thread 1, which ends the first round.\<close>

definition lost_schedule :: "nat list" where
  "lost_schedule = replicate 5 0 @ replicate 6 1 @ replicate 3 0 @ replicate 6 0 @ replicate 3 1 @ replicate 2 0 @ replicate 6 1"

text \<open>
  C15. A barrier for two threads can hang two correct threads for ever: the last thread of a round bumps the
  sequence before it resets the number of waiting threads, so an arrival for the next round in
  between is erased.  Both threads have called \<open>pthread_barrier_wait\<close> a second time, and in no continuation
  does either of the two calls return.
\<close>

theorem barrier_loses_arrival:
  "\<exists>M. reach (bar_start 2) bar_step M \<and> b_sequence M = 1 \<and> waits_for 1 (bar_pcs M 0) \<and> waits_for 1 (bar_pcs M 1) \<and>
     (\<forall>N. bar_run\<^sup>*\<^sup>* M N \<longrightarrow> waits_for 1 (bar_pcs N 0) \<and> waits_for 1 (bar_pcs N 1))"
proof -
  let ?M = "fold bar_do lost_schedule bar_machine0"
  have e: "b_sequence ?M = 1" "waits_for 1 (bar_pcs ?M 0)" "waits_for 1 (bar_pcs ?M 1)" by code_simp+
  have "\<exists>r. bar_pcs ?M u = BarIdle r" if "u \<notin> {0, 1}" for u
    using bar_fold_other [of u lost_schedule bar_machine0 False] that by (auto simp: lost_schedule_def bar_machine0_def)
  then have "bar_dead {0, 1} 1 ?M" using e by (auto simp: bar_dead_def)
  have "waits_for 1 (bar_pcs N 0) \<and> waits_for 1 (bar_pcs N 1)" if "bar_run\<^sup>*\<^sup>* ?M N" for N
    using bar_dead_forever [OF that, of "{0, 1}" 1] e \<open>bar_dead {0, 1} 1 ?M\<close> by (auto simp: bar_dead_def)
  then show ?thesis using bar_do_reach [of lost_schedule] e by blast
qed

definition stale_schedule :: "nat list" where
  "stale_schedule = replicate 3 2 @ replicate 5 0 @ replicate 9 1 @ replicate 3 0 @ replicate 6 2"

text \<open>
  When more threads than its count use the barrier, one thread can pass it alone: a thread that read the
  sequence before a round ended and is counted after it returns at once, and the arrival it
  leaves behind lets a single later call through as the serial thread.
\<close>

theorem barrier_passed_alone:
  "\<exists>M. reach (bar_start 2) bar_step M \<and> (\<forall>t. \<exists>r. bar_pcs M t = BarIdle r) \<and> b_waiting M = 1 \<and>
     bar_pcs M 3 = BarIdle False \<and> bar_pcs (fold bar_do (replicate 10 3) M) 3 = BarIdle True"
proof -
  let ?M = "fold bar_do stale_schedule bar_machine0"
  have e: "bar_pcs ?M 0 = BarIdle False" "bar_pcs ?M 1 = BarIdle True" "bar_pcs ?M 2 = BarIdle False" "b_waiting ?M = 1"
    "bar_pcs ?M 3 = BarIdle False" "bar_pcs (fold bar_do (replicate 10 3) ?M) 3 = BarIdle True" by code_simp+
  have "\<exists>r. bar_pcs ?M t = BarIdle r" for t
  proof (cases "t \<in> {0, 1, 2}")
    case False
    then show ?thesis using bar_fold_other [of t stale_schedule bar_machine0 False] by (auto simp: stale_schedule_def bar_machine0_def)
  qed (use e in auto)
  then show ?thesis using bar_do_reach [of stale_schedule] e by blast
qed

theorem barrier_loses_arrival_witness:
  "\<exists>M N. reach (bar_start 2) bar_step M \<and> bar_run\<^sup>*\<^sup>* M N \<and> waits_for 1 (bar_pcs N 0) \<and> waits_for 1 (bar_pcs N 1)"
  using barrier_loses_arrival by blast

subsection \<open>The barrier used by as many threads as its count\<close>

text \<open>Clients: threads below the count call \<open>pthread_barrier_wait\<close>, over and over.\<close>

inductive client_step :: "bar_machine \<Rightarrow> bar_machine \<Rightarrow> bool" where
  client_call: "int t < b_count M \<Longrightarrow> bar_pcs M t = BarIdle r \<Longrightarrow> client_step M (bar_goto t BarEnter M)"
| client_run: "client_step M (pthread_barrier_wait b t M)"

text \<open>
  With \<open>S\<close> bumps so far, a thread that has been counted \<open>a\<close> times has returned \<open>r\<close> times: it has not been
  counted for the current round before its exchange, and it stays at its number until it returns.
\<close>

definition bar_local :: "nat \<Rightarrow> nat \<Rightarrow> nat \<Rightarrow> bar_pc \<Rightarrow> bool" where
  "bar_local S a r p \<longleftrightarrow>
     (case p of
        BarIdle _ \<Rightarrow> a = S \<and> r = a
      | BarEnter \<Rightarrow> a = S \<and> r = a
      | BarSequence \<Rightarrow> a = S \<and> r = a
      | BarLoad s \<Rightarrow> a = S \<and> r = a \<and> s = of_nat S
      | BarCas s e \<Rightarrow> a = S \<and> r = a \<and> s = of_nat S
      | BarBump \<Rightarrow> a = S + 1 \<and> a = r + 1
      | BarStore \<Rightarrow> a = S \<and> a = r + 1
      | BarWakeAll \<Rightarrow> a = S \<and> a = r + 1
      | BarLeave _ \<Rightarrow> a = S \<and> a = r + 1
      | BarLeaveWake _ \<Rightarrow> a = S \<and> a = r + 1
      | BarWait s \<Rightarrow> (a = S \<or> a = S + 1) \<and> a = r + 1 \<and> s = of_nat r
      | BarBlocked s \<Rightarrow> (a = S \<or> a = S + 1) \<and> a = r + 1 \<and> s = of_nat r
      | BarCheck s \<Rightarrow> (a = S \<or> a = S + 1) \<and> a = r + 1 \<and> s = of_nat r
      | _ \<Rightarrow> False)"

definition counted :: "nat \<Rightarrow> bar_machine \<Rightarrow> nat set" where
  "counted n M = {t. t < n \<and> arrived M t = bumps M + 1}"

definition bar_inv :: "nat \<Rightarrow> bar_machine \<Rightarrow> bool" where
  "bar_inv n M \<longleftrightarrow>
     b_count M = int n \<and> b_sequence M = of_nat (bumps M) \<and>
     (\<forall>t<n. bar_local (bumps M) (arrived M t) (returned M t) (bar_pcs M t)) \<and> (\<forall>t\<ge>n. \<exists>r. bar_pcs M t = BarIdle r) \<and>
     (\<forall>t u. bar_pcs M t = BarStore \<longrightarrow> bar_pcs M u = BarStore \<longrightarrow> t = u) \<and>
     (\<forall>t u. bar_pcs M t = BarBump \<longrightarrow> bar_pcs M u = BarBump \<longrightarrow> t = u) \<and>
     ((\<exists>t. bar_pcs M t = BarBump) \<longrightarrow> counted n M = {..<n} \<and> int n \<le> b_waiting M) \<and>
     (if \<exists>t. bar_pcs M t = BarStore then int n \<le> b_waiting M else b_waiting M \<le> int (card (counted n M)))"

lemma bar_invD:
  assumes "bar_inv n M"
  shows "b_count M = int n" "b_sequence M = of_nat (bumps M)"
    "t < n \<Longrightarrow> bar_local (bumps M) (arrived M t) (returned M t) (bar_pcs M t)" "n \<le> t \<Longrightarrow> \<exists>r. bar_pcs M t = BarIdle r"
    "bar_pcs M t = BarStore \<Longrightarrow> bar_pcs M u = BarStore \<Longrightarrow> t = u" "bar_pcs M t = BarBump \<Longrightarrow> bar_pcs M u = BarBump \<Longrightarrow> t = u"
    "bar_pcs M t = BarBump \<Longrightarrow> counted n M = {..<n} \<and> int n \<le> b_waiting M"
    "bar_pcs M t = BarStore \<Longrightarrow> int n \<le> b_waiting M"
    "\<forall>u. bar_pcs M u \<noteq> BarStore \<Longrightarrow> b_waiting M \<le> int (card (counted n M))"
  using assms unfolding bar_inv_def by metis+

text \<open>The steps that concern neither the counts nor the threads that end a round.\<close>

lemma bar_inv_quiet:
  assumes inv: "bar_inv n M" and "t < n" and old: "bar_pcs M t \<notin> {BarStore, BarBump}" and new: "p \<notin> {BarStore, BarBump}"
    and N: "arrived N = arrived M" "bumps N = bumps M" "b_sequence N = b_sequence M" "b_count N = b_count M"
      "b_waiting N = b_waiting M" "bar_pcs N = bar_pcs M" "\<And>u. u \<noteq> t \<Longrightarrow> returned N u = returned M u"
    and "bar_local (bumps M) (arrived M t) (returned N t) p"
  shows "bar_inv n (bar_goto t p N)"
proof -
  have k: "((bar_pcs M)(t := p)) u = q \<longleftrightarrow> bar_pcs M u = q" if "q \<in> {BarStore, BarBump}" for u q
    using that old new by auto
  have c: "counted n (bar_goto t p N) = counted n M" by (simp add: counted_def bar_goto_def N)
  have "bar_local (bumps M) (arrived M u) (returned N u) (((bar_pcs M)(t := p)) u)" if "u < n" for u
    using bar_invD(3) [OF inv that] assms(12) N(7) by (cases "u = t") auto
  then show ?thesis using inv assms(2) k [of BarStore] k [of BarBump]
    unfolding bar_inv_def c by (simp add: bar_goto_def N)
qed

lemma card_counted: "counted n M \<subseteq> {..<n}" "finite (counted n M)"
  by (auto simp: counted_def)

lemma bar_inv_cas:
  assumes inv: "bar_inv n M" and "t < n" and t: "bar_pcs M t = BarCas s e" and e: "b_waiting M = e"
  defines "N \<equiv> M\<lparr>b_waiting := e + 1, arrived := (arrived M)(t := arrived M t + 1)\<rparr>"
  shows "bar_inv n (bar_goto t (if e + 1 = int n then BarBump else BarWait s) N)"
proof -
  let ?p = "if e + 1 = int n then BarBump else BarWait s" and ?S = "bumps M"
  let ?N = "bar_goto t ?p N"
  have L: "arrived M t = ?S" "returned M t = ?S" "s = of_nat ?S" using bar_invD(3) [OF inv assms(2)] t by (simp_all add: bar_local_def)
  then have nt: "t \<notin> counted n M" by (simp add: counted_def)
  have c: "counted n ?N = insert t (counted n M)" using assms(2) L by (auto simp: counted_def bar_goto_def N_def)
  then have card: "card (counted n ?N) = card (counted n M) + 1" using nt card_counted by simp
  have nb: "bar_pcs M u \<noteq> BarBump" for u using bar_invD(7) [OF inv, of u] nt assms(2) by auto
  have loc: "bar_local ?S (arrived N u) (returned M u) (((bar_pcs M)(t := ?p)) u)" if "u < n" for u
    using bar_invD(3) [OF inv that] L by (cases "u = t") (auto simp: N_def bar_local_def)
  have k: "((bar_pcs M)(t := ?p)) u = BarStore \<longleftrightarrow> bar_pcs M u = BarStore" for u using t by auto
  have b: "((bar_pcs M)(t := ?p)) u = BarBump \<longleftrightarrow> u = t \<and> e + 1 = int n" for u using nb by auto
  have w: "if \<exists>u. bar_pcs M u = BarStore then int n \<le> e + 1 else e + 1 \<le> int (card (counted n ?N))"
  proof (cases "\<exists>u. bar_pcs M u = BarStore")
    case True
    then obtain u where "bar_pcs M u = BarStore" by blast
    then have "int n \<le> e" using bar_invD(8) [OF inv, of u] e by simp
    then show ?thesis using True by simp
  next
    case False
    then have "b_waiting M \<le> int (card (counted n M))" using bar_invD(9) [OF inv] by blast
    then show ?thesis using False e card by simp
  qed
  have full: "counted n ?N = {..<n}" if "e + 1 = int n"
  proof -
    have "bar_pcs M u \<noteq> BarStore" for u using bar_invD(8) [OF inv, of u] e that by auto
    then have "b_waiting M \<le> int (card (counted n M))" using bar_invD(9) [OF inv] by blast
    then have "n \<le> card (counted n ?N)" using e that card by simp
    then show ?thesis using card_counted [of n ?N] by (intro card_seteq) auto
  qed
  have f: "bar_pcs ?N = (bar_pcs M)(t := ?p)" "bumps ?N = ?S" "b_count ?N = b_count M" "b_sequence ?N = b_sequence M"
    "b_waiting ?N = e + 1" "arrived ?N = arrived N" "returned ?N = returned M" by (simp_all add: bar_goto_def N_def)
  have out: "\<exists>r. ((bar_pcs M)(t := ?p)) u = BarIdle r" if "n \<le> u" for u
    using bar_invD(4) [OF inv that] that assms(2) by simp
  have "int n \<le> e + 1" if "e + 1 = int n" using that by simp
  then show ?thesis unfolding bar_inv_def f k b
    using bar_invD(1,2) [OF inv] bar_invD(5) [OF inv] loc out w full by blast
qed

lemma bar_inv_bump:
  assumes inv: "bar_inv n M" and "t < n" and t: "bar_pcs M t = BarBump"
  shows "bar_inv n (bar_goto t BarStore (M\<lparr>b_sequence := b_sequence M + 1, bumps := bumps M + 1\<rparr>))" (is "bar_inv n ?N")
proof -
  have all: "arrived M u = bumps M + 1" if "u < n" for u
    using bar_invD(7) [OF inv t] that by (auto simp: counted_def)
  have others: "u \<noteq> t \<Longrightarrow> bar_pcs M u \<notin> {BarStore, BarBump}" for u
    using bar_invD(3,4) [OF inv, of u] bar_invD(6) [OF inv t, of u] all [of u] by (cases "u < n") (auto simp: bar_local_def)
  have loc: "bar_local (bumps M + 1) (arrived M u) (returned M u) (((bar_pcs M)(t := BarStore)) u)" if "u < n" for u
    using bar_invD(3) [OF inv that] all [OF that] others [of u] t by (cases "u = t"; cases "bar_pcs M u") (auto simp: bar_local_def)
  have f: "bar_pcs ?N = (bar_pcs M)(t := BarStore)" "bumps ?N = bumps M + 1" "b_count ?N = b_count M" "b_waiting ?N = b_waiting M"
    "b_sequence ?N = b_sequence M + 1" "arrived ?N = arrived M" "returned ?N = returned M" by (simp_all add: bar_goto_def)
  have s: "((bar_pcs M)(t := BarStore)) u = BarStore \<longleftrightarrow> u = t" "((bar_pcs M)(t := BarStore)) u \<noteq> BarBump" for u
    using others [of u] by auto
  have out: "\<exists>r. ((bar_pcs M)(t := BarStore)) u = BarIdle r" if "n \<le> u" for u
    using bar_invD(4) [OF inv that] that assms(2) by simp
  have sq: "b_sequence M + 1 = of_nat (bumps M + 1)" using bar_invD(2) [OF inv] by simp
  have "if \<exists>u. u = t then int n \<le> b_waiting M else b_waiting M \<le> int (card (counted n ?N))"
    using bar_invD(7) [OF inv t] by simp
  then show ?thesis unfolding bar_inv_def f s(1)
    using bar_invD(1) [OF inv] sq loc out s(2) by blast
qed

lemma bar_inv_store:
  assumes inv: "bar_inv n M" and "t < n" and t: "bar_pcs M t = BarStore"
  shows "bar_inv n (bar_goto t BarWakeAll (M\<lparr>b_waiting := 0\<rparr>))" (is "bar_inv n ?N")
proof -
  have a: "arrived M t = bumps M" using bar_invD(3) [OF inv assms(2)] t by (simp add: bar_local_def)
  then have "t \<notin> counted n M" by (simp add: counted_def)
  then have nb: "bar_pcs M u \<noteq> BarBump" for u using bar_invD(7) [OF inv, of u] assms(2) by auto
  have s: "((bar_pcs M)(t := BarWakeAll)) u \<noteq> BarStore" "((bar_pcs M)(t := BarWakeAll)) u \<noteq> BarBump" for u
    using bar_invD(5) [OF inv t, of u] nb [of u] by auto
  have loc: "bar_local (bumps M) (arrived M u) (returned M u) (((bar_pcs M)(t := BarWakeAll)) u)" if "u < n" for u
    using bar_invD(3) [OF inv that] t by (cases "u = t") (auto simp: bar_local_def)
  have f: "bar_pcs ?N = (bar_pcs M)(t := BarWakeAll)" "bumps ?N = bumps M" "b_count ?N = b_count M" "b_waiting ?N = 0"
    "b_sequence ?N = b_sequence M" "arrived ?N = arrived M" "returned ?N = returned M" by (simp_all add: bar_goto_def)
  have out: "\<exists>r. ((bar_pcs M)(t := BarWakeAll)) u = BarIdle r" if "n \<le> u" for u
    using bar_invD(4) [OF inv that] that assms(2) by simp
  have "if \<exists>u. ((bar_pcs M)(t := BarWakeAll)) u = BarStore then int n \<le> 0 else 0 \<le> int (card (counted n ?N))"
    using s(1) by simp
  then show ?thesis unfolding bar_inv_def f using bar_invD(1,2) [OF inv] loc out s by blast
qed

lemma bar_inv_wake:
  assumes inv: "bar_inv n M" shows "bar_inv n (wake_sequence M)" "wake_inside M = M"
proof -
  let ?q = "\<lambda>t. case bar_pcs M t of BarBlocked s \<Rightarrow> BarCheck s | p \<Rightarrow> p"
  have k: "?q u = BarStore \<longleftrightarrow> bar_pcs M u = BarStore" "?q u = BarBump \<longleftrightarrow> bar_pcs M u = BarBump"
    "?q u = BarIdle r \<longleftrightarrow> bar_pcs M u = BarIdle r" for u r by (auto split: bar_pc.split)
  have "bar_local (bumps M) (arrived M u) (returned M u) (?q u)" if "u < n" for u
    using bar_invD(3) [OF inv that] by (auto simp: bar_local_def split: bar_pc.splits)
  moreover have f: "bar_pcs (wake_sequence M) = ?q" "bumps (wake_sequence M) = bumps M" "b_count (wake_sequence M) = b_count M"
    "b_waiting (wake_sequence M) = b_waiting M" "b_sequence (wake_sequence M) = b_sequence M"
    "arrived (wake_sequence M) = arrived M" "returned (wake_sequence M) = returned M" "counted n (wake_sequence M) = counted n M"
    by (simp_all add: wake_sequence_def counted_def)
  ultimately show "bar_inv n (wake_sequence M)" using inv unfolding bar_inv_def f k by blast
  have "bar_pcs M u \<noteq> DestroyBlocked" for u
    using bar_invD(3,4) [OF inv, of u] by (cases "u < n") (auto simp: bar_local_def)
  then have "(case bar_pcs M u of DestroyBlocked \<Rightarrow> BarIdle False | p \<Rightarrow> p) = bar_pcs M u" for u by (auto split: bar_pc.split)
  then show "wake_inside M = M" by (simp add: wake_inside_def)
qed

lemma bar_inv_step:
  assumes inv: "bar_inv n M" shows "bar_inv n (pthread_barrier_wait b t M)"
proof (cases "t < n")
  case False
  then show ?thesis using bar_invD(4) [OF inv, of t] inv by (auto simp: pthread_barrier_wait_def)
next
  case True
  note L = bar_invD(3) [OF inv True, unfolded bar_local_def] and Q = bar_inv_quiet [OF inv True]
  have ret: "bar_inv n (bar_return t r (M\<lparr>b_inside := i\<rparr>))" if "bar_pcs M t \<in> {BarLeave r, BarLeaveWake r}" for r i
    unfolding bar_return_def using that L by (intro Q) (auto simp: bar_local_def)
  show ?thesis
  proof (cases "bar_pcs M t")
    case (BarCas s e)
    have "bar_inv n (bar_goto t (BarLoad s) M)" using BarCas L by (intro Q) (auto simp: bar_local_def)
    then show ?thesis using BarCas bar_inv_cas [OF inv True BarCas] bar_invD(1) [OF inv]
      by (auto simp: pthread_barrier_wait_def Let_def split: if_splits)
  next
    case BarBump
    then show ?thesis using bar_inv_bump [OF inv True] by (simp add: pthread_barrier_wait_def)
  next
    case BarStore
    then show ?thesis using bar_inv_store [OF inv True] by (simp add: pthread_barrier_wait_def)
  next
    case BarWakeAll
    have "bar_pcs (wake_sequence M) t = BarWakeAll" using BarWakeAll by (simp add: wake_sequence_def)
    moreover have "bar_local (bumps M) (arrived M t) (returned M t) (BarLeave True)" using BarWakeAll L by (simp add: bar_local_def)
    ultimately show ?thesis using bar_inv_quiet [OF bar_inv_wake(1) [OF inv] True, of "BarLeave True" "wake_sequence M"] BarWakeAll
      by (simp add: pthread_barrier_wait_def wake_sequence_def)
  next
    case (BarCheck s)
    have "bar_inv n (bar_goto t (BarWait s) M)" using BarCheck L by (intro Q) (auto simp: bar_local_def)
    moreover have "bar_inv n (bar_goto t (BarLeave False) M)" if "sint (b_sequence M) > sint s"
    proof -
      have "arrived M t \<noteq> bumps M + 1" using that BarCheck L bar_invD(2) [OF inv] by auto
      then show ?thesis using BarCheck L by (intro Q) (auto simp: bar_local_def)
    qed
    ultimately show ?thesis using BarCheck by (simp add: pthread_barrier_wait_def)
  next
    case (BarLeave r)
    have "bar_inv n (bar_goto t (BarLeaveWake r) (M\<lparr>b_inside := i\<rparr>))" for i using BarLeave L by (intro Q) (auto simp: bar_local_def)
    then show ?thesis using BarLeave ret by (simp add: pthread_barrier_wait_def Let_def)
  next
    case (BarLeaveWake r)
    then show ?thesis using ret [of r "b_inside M"] bar_inv_wake(2) [OF inv] by (simp add: pthread_barrier_wait_def)
  next
    case (BarBlocked s)
    have "bar_inv n (bar_goto t (BarCheck s) M)" using BarBlocked L by (intro Q) (auto simp: bar_local_def)
    then show ?thesis using BarBlocked inv by (simp add: pthread_barrier_wait_def)
  qed (use L inv bar_invD(2) [OF inv] in \<open>auto simp: pthread_barrier_wait_def bar_local_def intro!: Q\<close>)
qed

interpretation barrier: inductive_invariant "\<lambda>M. bar_start c M \<and> sint c = int n" client_step "bar_inv n" for c n
proof
  show "bar_inv n M" if "bar_start c M \<and> sint c = int n" for M
    using that by (auto simp: bar_start_def bar_inv_def bar_local_def pthread_barrier_init_def counted_def)
  show "bar_inv n N" if inv: "bar_inv n M" and step: "client_step M N" for M N
    using step
  proof cases
    case (client_call t r)
    then have "t < n" using bar_invD(1) [OF inv] by simp
    then show ?thesis using client_call bar_invD(3) [OF inv \<open>t < n\<close>] bar_inv_quiet [OF inv \<open>t < n\<close>, of BarEnter M]
      by (simp add: bar_local_def)
  qed (simp add: bar_inv_step inv)
qed

text \<open>
  C14. Used by exactly as many threads as its count, the barrier never lets a thread pass early: when a thread
  has returned from its \<open>k\<close>-th call, every thread has arrived at least \<open>k\<close> times.
\<close>

theorem barrier_safe:
  assumes "reach (\<lambda>M. bar_start c M \<and> sint c = int n) client_step M" and "t < n" and "u < n"
  shows "returned M t \<le> arrived M u"
proof -
  have inv: "bar_inv n M" using barrier.reach_inv [OF assms(1)] .
  have "bumps M \<le> arrived M u"
    using bar_invD(3) [OF inv assms(3)] by (auto simp: bar_local_def split: bar_pc.splits)
  moreover have "returned M t \<le> bumps M"
    using bar_invD(3) [OF inv assms(2)] by (auto simp: bar_local_def split: bar_pc.splits)
  ultimately show ?thesis by simp
qed

lemma client_do_reach:
  assumes "set ts \<subseteq> {0, 1}"
  shows "reach (\<lambda>M. bar_start 2 M \<and> sint (2 :: u32) = int 2) client_step (fold bar_do ts bar_machine0)" (is "?R (fold bar_do ts bar_machine0)")
proof -
  have cnt: "b_count (bar_do t M) = b_count M" for t M
    by (auto simp: pthread_barrier_wait_def bar_goto_def bar_return_def wake_sequence_def wake_inside_def Let_def split: bar_pc.split)
  have step: "client_step M (bar_do t M)" if "b_count M = 2" "t \<in> {0, 1}" for t M
    using that by (auto split: bar_pc.split intro: client_step.intros)
  have "?R (fold bar_do ts M)" if "?R M" "b_count M = 2" for M
    using that assms
  proof (induction ts arbitrary: M)
    case (Cons t ts)
    have "?R (bar_do t M)" by (rule reach_step [OF Cons(2)]) (use Cons(3,4) step in auto)
    then show ?case using Cons.IH [of "bar_do t M"] Cons(3,4) cnt by (simp del: bar_do.simps)
  qed simp
  moreover have "?R bar_machine0"
    by (rule reach_init) (simp add: bar_start_def bar_machine0_def pthread_barrier_init_def)
  ultimately show ?thesis by (simp add: bar_machine0_def)
qed

theorem barrier_safe_witness:
  "returned (fold bar_do (take 14 lost_schedule) bar_machine0) 0 = 1 \<and> 1 \<le> arrived (fold bar_do (take 14 lost_schedule) bar_machine0) 1"
proof -
  have r: "returned (fold bar_do (take 14 lost_schedule) bar_machine0) 0 = 1" by code_simp
  have "set (take 14 lost_schedule) \<subseteq> {0, 1}" by code_simp
  from barrier_safe [OF client_do_reach [OF this], of 0 1] r show ?thesis by simp
qed

end
