(* ===== verification/Tls_Keys.thy ===== *)
theory Tls_Keys
  imports Hz_Prelude
begin

text \<open>
  Thread-specific data: the keys of \<^verbatim>\<open>src/internal/thread.cpp\<close>, behind the \<open>pthread_key\<close> and \<open>tss\<close> functions, and the
  destructors a thread calls when it ends.

  Each operation runs under \<open>KEYS_MUTEX\<close> as a whole, so operations are functions on the global table \<open>KEYS\<close>
  and the threads' tables \<open>tcb->keys\<close>, both indexed below \<open>PTHREAD_KEYS_MAX\<close>.  Function pointers and values are
  numbers with 0 for the null pointer.  \<open>None\<close> is the panic of \<open>thread_getspecific\<close> or an overflow of a generation counter.
  The field \<open>calls\<close> is a history variable with the destructor calls made.
\<close>

subsection \<open>State\<close>

definition PTHREAD_KEYS_MAX :: nat where "PTHREAD_KEYS_MAX = 1024"
definition PTHREAD_DESTRUCTOR_ITERATIONS :: nat where "PTHREAD_DESTRUCTOR_ITERATIONS = 4"

record Key =
  destructor :: nat
  generation :: int
  used :: bool

record Tcb_Key =
  l_generation :: int
  l_value :: nat

record key_state =
  KEYS :: "nat \<Rightarrow> Key"
  tcb_keys :: "nat \<Rightarrow> nat \<Rightarrow> Tcb_Key"
  calls :: "(nat \<times> nat) list"

definition key_state0 :: key_state where
  "key_state0 = \<lparr>KEYS = (\<lambda>_. \<lparr>destructor = 0, generation = 0, used = False\<rparr>),
     tcb_keys = (\<lambda>_ _. \<lparr>l_generation = 0, l_value = 0\<rparr>), calls = []\<rparr>"

definition set_local :: "nat \<Rightarrow> nat \<Rightarrow> Tcb_Key \<Rightarrow> key_state \<Rightarrow> key_state" where
  "set_local t k l s = s\<lparr>tcb_keys := (tcb_keys s)(t := (tcb_keys s t)(k := l))\<rparr>"

subsection \<open>Operations\<close>

function key_create_loop :: "nat \<Rightarrow> nat \<Rightarrow> key_state \<Rightarrow> (key_state \<times> (errno + nat)) option" where
  "key_create_loop i d s =
     (if i < PTHREAD_KEYS_MAX then
        (if \<not> used (KEYS s i) then
           do { g \<leftarrow> ck32 (generation (KEYS s i) + 1);
                Some (s\<lparr>KEYS := (KEYS s)(i := \<lparr>destructor = d, generation = g, used = True\<rparr>)\<rparr>, Inr i) }
         else key_create_loop (Suc i) d s)
      else Some (s, Inl EAGAIN))"
  by auto
termination by (relation "measure (\<lambda>(i, d, s). PTHREAD_KEYS_MAX - i)") auto

declare key_create_loop.simps [simp del]

definition thread_key_create :: "nat \<Rightarrow> key_state \<Rightarrow> (key_state \<times> (errno + nat)) option" where
  "thread_key_create d s = key_create_loop 0 d s"

definition thread_key_delete :: "nat \<Rightarrow> key_state \<Rightarrow> key_state \<times> errno option" where
  "thread_key_delete k s =
     (if PTHREAD_KEYS_MAX \<le> k then (s, Some EINVAL)
      else if \<not> used (KEYS s k) then (s, Some EINVAL)
      else (s\<lparr>KEYS := (KEYS s)(k := (KEYS s k)\<lparr>used := False, destructor := 0\<rparr>)\<rparr>, None))"

definition thread_getspecific :: "nat \<Rightarrow> nat \<Rightarrow> key_state \<Rightarrow> (key_state \<times> nat) option" where
  "thread_getspecific t k s =
     (if PTHREAD_KEYS_MAX \<le> k \<or> \<not> used (KEYS s k) then None
      else if l_generation (tcb_keys s t k) \<noteq> generation (KEYS s k)
      then Some (set_local t k \<lparr>l_generation = generation (KEYS s k), l_value = 0\<rparr> s, 0)
      else Some (s, l_value (tcb_keys s t k)))"

definition thread_setspecific :: "nat \<Rightarrow> nat \<Rightarrow> nat \<Rightarrow> key_state \<Rightarrow> key_state \<times> errno option" where
  "thread_setspecific t k v s =
     (if PTHREAD_KEYS_MAX \<le> k \<or> \<not> used (KEYS s k) then (s, Some EINVAL)
      else (set_local t k \<lparr>l_generation = generation (KEYS s k), l_value = v\<rparr> s, None))"

text \<open>
  The destructors of an ending thread.  The code of a destructor is the parameter \<open>call\<close>: it may use the
  keys itself.
\<close>

definition destroy_key :: "(nat \<Rightarrow> nat \<Rightarrow> key_state \<Rightarrow> key_state) \<Rightarrow> nat \<Rightarrow> nat \<Rightarrow> key_state \<Rightarrow> key_state" where
  "destroy_key call t i s =
     (let g = KEYS s i; l = tcb_keys s t i in
      if \<not> used g \<or> generation g \<noteq> l_generation l \<or> l_value l = 0 then s
      else if destructor g \<noteq> 0 then call (destructor g) (l_value l)
             ((set_local t i (l\<lparr>l_value := 0\<rparr>) s)\<lparr>calls := calls s @ [(destructor g, l_value l)]\<rparr>)
      else s)"

definition destroy_pass :: "(nat \<Rightarrow> nat \<Rightarrow> key_state \<Rightarrow> key_state) \<Rightarrow> nat \<Rightarrow> key_state \<Rightarrow> key_state" where
  "destroy_pass call t s = fold (destroy_key call t) [0..<PTHREAD_KEYS_MAX] s"

definition thread_call_destructors :: "(nat \<Rightarrow> nat \<Rightarrow> key_state \<Rightarrow> key_state) \<Rightarrow> nat \<Rightarrow> key_state \<Rightarrow> key_state" where
  "thread_call_destructors call t s = (destroy_pass call t ^^ PTHREAD_DESTRUCTOR_ITERATIONS) s"

subsection \<open>The abstract table\<close>

text \<open>
  What a client sees: for each live key its destructor and the value of every thread.
\<close>

type_synonym key_table = "nat \<Rightarrow> (nat \<times> (nat \<Rightarrow> nat)) option"

datatype key_op = OCreate nat | ODelete nat | OSet nat nat nat | OGet nat nat
datatype key_result = RKey "errno + nat" | RErr "errno option" | RVal nat

fun table_op :: "key_op \<Rightarrow> key_table \<Rightarrow> (key_table \<times> key_result) option" where
  "table_op (OCreate d) A =
     (case List.find (\<lambda>k. A k = None) [0..<PTHREAD_KEYS_MAX] of
        Some k \<Rightarrow> Some (A(k \<mapsto> (d, \<lambda>_. 0)), RKey (Inr k))
      | None \<Rightarrow> Some (A, RKey (Inl EAGAIN)))"
| "table_op (ODelete k) A =
     (case A k of Some _ \<Rightarrow> Some (A(k := None), RErr None) | None \<Rightarrow> Some (A, RErr (Some EINVAL)))"
| "table_op (OSet t k v) A =
     (case A k of Some (d, f) \<Rightarrow> Some (A(k \<mapsto> (d, f(t := v))), RErr None) | None \<Rightarrow> Some (A, RErr (Some EINVAL)))"
| "table_op (OGet t k) A = (case A k of Some (d, f) \<Rightarrow> Some (A, RVal (f t)) | None \<Rightarrow> None)"

fun run_key :: "key_op \<Rightarrow> key_state \<Rightarrow> (key_state \<times> key_result) option" where
  "run_key (OCreate d) s = map_option (\<lambda>(s', r). (s', RKey r)) (thread_key_create d s)"
| "run_key (ODelete k) s = (let (s', r) = thread_key_delete k s in Some (s', RErr r))"
| "run_key (OSet t k v) s = (let (s', r) = thread_setspecific t k v s in Some (s', RErr r))"
| "run_key (OGet t k) s = map_option (\<lambda>(s', v). (s', RVal v)) (thread_getspecific t k s)"

fun run_ops :: "('o \<Rightarrow> 's \<Rightarrow> ('s \<times> 'r) option) \<Rightarrow> 'o list \<Rightarrow> 's \<Rightarrow> ('s \<times> 'r list) option" where
  "run_ops f [] s = Some (s, [])"
| "run_ops f (x # xs) s = do { (s1, r) \<leftarrow> f x s; (s2, rs) \<leftarrow> run_ops f xs s1; Some (s2, r # rs) }"

definition key_abs :: "key_state \<Rightarrow> key_table" where
  "key_abs s = (\<lambda>k. if k < PTHREAD_KEYS_MAX \<and> used (KEYS s k)
     then Some (destructor (KEYS s k),
       \<lambda>t. if l_generation (tcb_keys s t k) = generation (KEYS s k) then l_value (tcb_keys s t k) else 0)
     else None)"

text \<open>No thread's generation is ahead of the table's, and a generation no table has reached has no value.\<close>

definition key_inv :: "int \<Rightarrow> key_state \<Rightarrow> bool" where
  "key_inv n s \<longleftrightarrow> (\<forall>k. 0 \<le> generation (KEYS s k) \<and> generation (KEYS s k) + n \<le> INT_MAX \<and>
     (\<forall>t. l_generation (tcb_keys s t k) \<le> generation (KEYS s k)))"

lemma key_create_loop_eq:
  "key_create_loop i d s =
     (case List.find (\<lambda>k. \<not> used (KEYS s k)) [i..<PTHREAD_KEYS_MAX] of
        Some k \<Rightarrow> do { g \<leftarrow> ck32 (generation (KEYS s k) + 1);
                      Some (s\<lparr>KEYS := (KEYS s)(k := \<lparr>destructor = d, generation = g, used = True\<rparr>)\<rparr>, Inr k) }
      | None \<Rightarrow> Some (s, Inl EAGAIN))"
  by (induction i d s rule: key_create_loop.induct) (subst key_create_loop.simps, auto simp: upt_conv_Cons)

lemma key_find: "List.find (\<lambda>k. key_abs s k = None) [0..<PTHREAD_KEYS_MAX] = List.find (\<lambda>k. \<not> used (KEYS s k)) [0..<PTHREAD_KEYS_MAX]"
  by (rule find_cong) (auto simp: key_abs_def)

lemma find_upt: "List.find P [0..<n] = Some k \<Longrightarrow> k < n \<and> P k"
  by (auto simp: find_Some_iff)

lemma key_inv_mono:
  assumes "key_inv n s" and "m \<le> n" shows "key_inv m s"
proof -
  have "generation (KEYS s k) + m \<le> INT_MAX" for k using assms by (auto simp: key_inv_def dest!: spec [of _ k])
  then show ?thesis using assms(1) by (simp add: key_inv_def)
qed

lemma run_key_refines:
  assumes "key_inv (n + 1) s" and "0 \<le> n"
  shows "case table_op x (key_abs s) of
      None \<Rightarrow> run_key x s = None
    | Some (A, r) \<Rightarrow> \<exists>s'. run_key x s = Some (s', r) \<and> key_abs s' = A \<and> key_inv n s'"
proof (cases x)
  case (OCreate d)
  have inv: "key_inv n s" using key_inv_mono [OF assms(1)] by simp
  show ?thesis
  proof (cases "List.find (\<lambda>k. \<not> used (KEYS s k)) [0..<PTHREAD_KEYS_MAX]")
    case None
    then show ?thesis using OCreate inv by (simp add: key_find thread_key_create_def key_create_loop_eq)
  next
    case (Some k)
    have k: "k < PTHREAD_KEYS_MAX" "\<not> used (KEYS s k)" using find_upt [OF Some] by auto
    have g: "0 \<le> generation (KEYS s k)" "generation (KEYS s k) + (n + 1) \<le> INT_MAX"
      "l_generation (tcb_keys s t k) \<le> generation (KEYS s k)" for t
      using assms(1) by (auto simp: key_inv_def)
    then have ck: "ck32 (generation (KEYS s k) + 1) = Some (generation (KEYS s k) + 1)" using assms(2) by (simp add: ck32_def int32_ok_def)
    let ?s = "s\<lparr>KEYS := (KEYS s)(k := \<lparr>destructor = d, generation = generation (KEYS s k) + 1, used = True\<rparr>)\<rparr>"
    have "l_generation (tcb_keys s t k) \<noteq> generation (KEYS s k) + 1" for t using g(3) [of t] by simp
    then have "key_abs ?s = (key_abs s)(k \<mapsto> (d, \<lambda>_. 0))" using k by (auto simp: key_abs_def fun_eq_iff)
    moreover have "key_inv n ?s"
    proof -
      have "l_generation (tcb_keys s t k) \<le> generation (KEYS s k) + 1" for t using g(3) [of t] by simp
      then show ?thesis using inv g(1,2) by (auto simp: key_inv_def)
    qed
    ultimately show ?thesis using OCreate Some ck by (simp add: key_find thread_key_create_def key_create_loop_eq ck32_def)
  qed
next
  case (ODelete k)
  then show ?thesis using assms key_inv_mono [OF assms(1), of n] by (auto simp: thread_key_delete_def key_abs_def key_inv_def fun_eq_iff)
next
  case (OSet t k v)
  then show ?thesis using assms key_inv_mono [OF assms(1), of n] by (auto simp: thread_setspecific_def key_abs_def key_inv_def set_local_def fun_eq_iff)
next
  case (OGet t k)
  then show ?thesis using assms key_inv_mono [OF assms(1), of n] by (auto simp: thread_getspecific_def key_abs_def key_inv_def set_local_def fun_eq_iff)
qed

lemma run_keys_refine:
  "key_inv (int (length xs)) s \<Longrightarrow>
   (case run_ops table_op xs (key_abs s) of
      None \<Rightarrow> run_ops run_key xs s = None
    | Some (A, rs) \<Rightarrow> \<exists>s'. run_ops run_key xs s = Some (s', rs) \<and> key_abs s' = A)"
proof (induction xs arbitrary: s)
  case (Cons x xs)
  have inv: "key_inv (int (length xs) + 1) s" using Cons(2) by (simp add: add.commute)
  show ?case
  proof (cases "table_op x (key_abs s)")
    case None
    then show ?thesis using run_key_refines [OF inv, of x] by simp
  next
    case (Some p)
    obtain A r where p: "p = (A, r)" by (cases p)
    then obtain s1 where s1: "run_key x s = Some (s1, r)" "key_abs s1 = A" "key_inv (int (length xs)) s1"
      using run_key_refines [OF inv, of x] Some by auto
    then show ?thesis using Cons.IH [OF s1(3)] Some p
      by (auto split: option.splits)
  qed
qed simp

subsection \<open>Destructors\<close>

text \<open>The call that key \<open>i\<close> of thread \<open>t\<close> is due.\<close>

definition due :: "nat \<Rightarrow> key_state \<Rightarrow> nat \<Rightarrow> (nat \<times> nat) list" where
  "due t s i =
     (case key_abs s i of Some (d, f) \<Rightarrow> if d \<noteq> 0 \<and> f t \<noteq> 0 then [(d, f t)] else [] | None \<Rightarrow> [])"

definition leaves_keys :: "(nat \<Rightarrow> nat \<Rightarrow> key_state \<Rightarrow> key_state) \<Rightarrow> bool" where
  "leaves_keys call \<longleftrightarrow> (\<forall>d v s. call d v s = s)"

lemma destroy_key_eq:
  assumes "leaves_keys call" and "i < PTHREAD_KEYS_MAX"
  shows "calls (destroy_key call t i s) = calls s @ due t s i" "due t (destroy_key call t i s) j = (if j = i then [] else due t s j)"
    "KEYS (destroy_key call t i s) = KEYS s"
  using assms by (auto simp: destroy_key_def due_def key_abs_def leaves_keys_def set_local_def Let_def)

lemma destroy_pass_eq:
  assumes "leaves_keys call" and "set is \<subseteq> {..<PTHREAD_KEYS_MAX}" and "distinct is"
  shows "calls (fold (destroy_key call t) is s) = calls s @ concat (map (due t s) is) \<and>
    (\<forall>j. due t (fold (destroy_key call t) is s) j = (if j \<in> set is then [] else due t s j))"
  using assms(2,3)
proof (induction "is" arbitrary: s)
  case (Cons i "is")
  have m: "map (due t (destroy_key call t i s)) is = map (due t s) is"
    using Cons(2,3) destroy_key_eq(2) [OF assms(1), of i t s] by auto
  show ?case using Cons destroy_key_eq [OF assms(1), of i t s] by (simp add: m)
qed simp

lemma destroy_pass_done:
  assumes "leaves_keys call" and "\<And>i. due t s i = []"
  shows "calls (destroy_pass call t s) = calls s" "due t (destroy_pass call t s) i = []"
  using destroy_pass_eq [OF assms(1), of "[0..<PTHREAD_KEYS_MAX]" t s] assms(2) by (simp_all add: destroy_pass_def atLeast0LessThan)

subsection \<open>Properties\<close>

text \<open>
  C9. The key functions refine a table of live keys: for every sequence of fewer than 2^31 calls the results, the errors and
  the panics are those of a table that gives a new key the smallest free number and the null value in every
  thread.  In particular no thread sees a value stored under a deleted key of the same number.
\<close>

theorem keys_refine_table:
  assumes "int (length xs) \<le> INT_MAX"
  shows "map_option snd (run_ops run_key xs key_state0) = map_option snd (run_ops table_op xs (\<lambda>_. None))"
proof -
  have "key_inv (int (length xs)) key_state0" using assms by (simp add: key_inv_def key_state0_def)
  moreover have "key_abs key_state0 = (\<lambda>_. None)" by (auto simp: key_abs_def key_state0_def)
  ultimately show ?thesis using run_keys_refine [of xs key_state0] by (auto split: option.splits)
qed

theorem keys_refine_table_witness:
  "map_option snd (run_ops run_key [OCreate 0, OSet 1 0 7, OGet 1 0, ODelete 0, OCreate 0, OGet 1 0] key_state0) =
     Some [RKey (Inr 0), RErr None, RVal 7, RErr None, RKey (Inr 0), RVal 0]"
proof -
  have max: "0 < PTHREAD_KEYS_MAX" by (simp add: PTHREAD_KEYS_MAX_def)
  have f: "List.find (\<lambda>k. k = 0 \<or> P k) [0..<PTHREAD_KEYS_MAX] = Some 0" "List.find (\<lambda>k. True) [0..<PTHREAD_KEYS_MAX] = Some 0" for P
    using upt_conv_Cons [of 0 PTHREAD_KEYS_MAX] by (simp_all add: max)
  show ?thesis
    using keys_refine_table [of "[OCreate 0, OSet 1 0 7, OGet 1 0, ODelete 0, OCreate 0, OGet 1 0]"]
    by (simp add: f)
qed

text \<open>
  C10. An ending thread calls, in the order of the keys, the destructor of every live key that has one and holds a
  non-null value of the thread, exactly once and with that value, provided the destructors leave the keys and all values as they are; afterwards no value
  with a destructor is left.
\<close>

theorem destructors_called_once:
  assumes "leaves_keys call"
  shows "calls (thread_call_destructors call t s) = calls s @ concat (map (due t s) [0..<PTHREAD_KEYS_MAX]) \<and>
    due t (thread_call_destructors call t s) i = []"
proof -
  let ?f = "destroy_pass call t"
  have out: "due t s i = []" if "\<not> i < PTHREAD_KEYS_MAX" for s i using that by (simp add: due_def key_abs_def)
  have 1: "calls (?f s) = calls s @ concat (map (due t s) [0..<PTHREAD_KEYS_MAX])" "due t (?f s) i = []" for i
    using destroy_pass_eq [OF assms, of "[0..<PTHREAD_KEYS_MAX]" t s] out [of i] by (auto simp: destroy_pass_def atLeast0LessThan)
  note D = destroy_pass_done [OF assms]
  have "thread_call_destructors call t s = ?f (?f (?f (?f s)))"
    by (simp add: thread_call_destructors_def PTHREAD_DESTRUCTOR_ITERATIONS_def numeral_eq_Suc)
  then show ?thesis using 1 D [OF 1(2)] D [OF D(2) [OF 1(2)]] D [OF D(2) [OF D(2) [OF 1(2)]]] by simp
qed

definition key_sample :: key_state where
  "key_sample = set_local 5 3 \<lparr>l_generation = 1, l_value = 9\<rparr>
     (key_state0\<lparr>KEYS := (KEYS key_state0)(3 := \<lparr>destructor = 7, generation = 1, used = True\<rparr>)\<rparr>)"

theorem destructors_called_once_witness:
  "calls (thread_call_destructors (\<lambda>_ _ s. s) 5 key_sample) = [(7, 9)]"
proof -
  have d: "due 5 key_sample i = (if i = 3 then [(7, 9)] else [])" for i
    by (simp add: due_def key_abs_def key_sample_def set_local_def key_state0_def PTHREAD_KEYS_MAX_def)
  have max: "3 < PTHREAD_KEYS_MAX" by (simp add: PTHREAD_KEYS_MAX_def)
  have "[0..<PTHREAD_KEYS_MAX] = [0..<3] @ 3 # [Suc 3..<PTHREAD_KEYS_MAX]"
    using upt_add_eq_append [of 0 3 "PTHREAD_KEYS_MAX - 3"] upt_conv_Cons [OF max] max by simp
  moreover have "concat (map (due 5 key_sample) [Suc 3..<PTHREAD_KEYS_MAX]) = []" "concat (map (due 5 key_sample) [0..<3]) = []"
    by (auto simp: d)
  ultimately have "concat (map (due 5 key_sample) [0..<PTHREAD_KEYS_MAX]) = [(7, 9)]" by (simp only: map_append concat_append list.map concat.simps d) simp
  then show ?thesis using destructors_called_once [of "\<lambda>_ _ s. s" 5 key_sample] by (simp add: leaves_keys_def key_sample_def set_local_def key_state0_def)
qed

end
