(* ===== verification/Calendar.thy ===== *)
theory Calendar
  imports Hz_Prelude
begin

text \<open>
  The calendar part of \<^verbatim>\<open>src/ansi/time.cpp\<close> and \<^verbatim>\<open>src/internal/time.hpp\<close>: leap
  years and month tables, the time zone lookup \<open>get_tz_data\<close>, the conversions
  \<open>gmtime_r\<close>, \<open>localtime_r\<close> from seconds to broken-down time and \<open>mktime\<close>,
  \<open>timegm\<close> back.

  \<open>time_t\<close> and \<open>int\<close> values are integers; \<open>ck32\<close> marks the \<open>int\<close> operations that can
  overflow for some argument.  The functions return \<open>None\<close> for undefined behaviour (an
  index outside a month table, an overflow, a read past the zone data), \<open>Some (Inl e)\<close>
  when they set \<open>errno\<close> and fail, \<open>Some (Inr v)\<close> otherwise.  The time zone file is a
  header record and the bytes after it; \<open>None\<close> for it is the empty \<^verbatim>\<open>TZ_DATA\<close>.  The
  byte order conversion \<^verbatim>\<open>hz::to_ne_from_be\<close> is a parameter.
\<close>

subsection \<open>Leap years and tables (src/internal/time.hpp)\<close>

definition is_leap :: "int \<Rightarrow> bool" where
  "is_leap year \<longleftrightarrow> year smod 400 = 0 \<or> (year smod 4 = 0 \<and> year smod 100 \<noteq> 0)"

definition days_per_year :: "int \<Rightarrow> int" where
  "days_per_year year = (if is_leap year then 366 else 365)"

definition DAYS_IN_MONTHS_NOLEAP :: "int list" where
  "DAYS_IN_MONTHS_NOLEAP = [31, 28, 31, 30, 31, 30, 31, 31, 30, 31, 30, 31]"

definition DAYS_IN_MONTHS_LEAP :: "int list" where
  "DAYS_IN_MONTHS_LEAP = [31, 29, 31, 30, 31, 30, 31, 31, 30, 31, 30, 31]"

definition get_days_per_month_table :: "int \<Rightarrow> int list" where
  "get_days_per_month_table year = (if is_leap year then DAYS_IN_MONTHS_LEAP else DAYS_IN_MONTHS_NOLEAP)"

definition EPOCH_YEAR :: int where "EPOCH_YEAR = 1970"

text \<open>An array access of the C code: outside the table it is undefined.\<close>

definition index :: "'a list \<Rightarrow> int \<Rightarrow> 'a option" where
  "index xs i = (if 0 \<le> i \<and> i < int (length xs) then Some (xs ! nat i) else None)"

subsection \<open>Broken-down time and zone data\<close>

record tm =
  tm_sec :: int
  tm_min :: int
  tm_hour :: int
  tm_mday :: int
  tm_mon :: int
  tm_year :: int
  tm_wday :: int
  tm_yday :: int
  tm_isdst :: int
  tm_gmtoff :: int
  tm_zone :: "u8 list"

definition UTC :: "u8 list" where "UTC = [85, 84, 67]"

text \<open>The bytes that follow the header in \<^verbatim>\<open>TZ_DATA\<close> are the last field.\<close>

record TzFile =
  magic :: "u8 list"
  version :: u8
  reserved :: "u8 list"
  tzh_ttisutcnt :: u32
  tzh_ttisstdcnt :: u32
  tzh_leapcnt :: u32
  tzh_timecnt :: u32
  tzh_typecnt :: u32
  tzh_charcnt :: u32
  tz_body :: "u8 list"

record TtInfo =
  tt_utoff :: int
  tt_isdst :: u8
  tt_desigidx :: u8

record TzData =
  gmt_offset :: int
  is_dst :: bool
  zone :: "u8 list"

text \<open>A little-endian load of four bytes, as the supported targets do it.\<close>

definition load32 :: "u8 list \<Rightarrow> nat \<Rightarrow> u32 option" where
  "load32 bs i =
     (if i + 4 \<le> length bs then
        Some (ucast (bs ! i) OR push_bit 8 (ucast (bs ! (i + 1)))
              OR push_bit 16 (ucast (bs ! (i + 2))) OR push_bit 24 (ucast (bs ! (i + 3))))
      else None)"

text \<open>
  The constructor \<open>init_timezone\<close>, with the results of the system calls as arguments: the
  error codes of open, stat, read and close, the contents of the file and the count that was read.
  The inner option is the zone file: \<open>None\<close> when the file could not be opened or read.
\<close>

definition parse_TzFile :: "(u32 \<Rightarrow> u32) \<Rightarrow> u8 list \<Rightarrow> TzFile option" where
  "parse_TzFile ne_from_be bs =
     do { utcnt \<leftarrow> load32 bs 20; stdcnt \<leftarrow> load32 bs 24; leapcnt \<leftarrow> load32 bs 28;
          timecnt \<leftarrow> load32 bs 32; typecnt \<leftarrow> load32 bs 36; charcnt \<leftarrow> load32 bs 40;
          if take 4 bs = [0x54, 0x5A, 0x69, 0x66] \<and> bs ! 4 \<in> {0, 0x32, 0x33, 0x34} then
            Some \<lparr>magic = take 4 bs, version = bs ! 4, reserved = take 15 (drop 5 bs),
                  tzh_ttisutcnt = ne_from_be utcnt, tzh_ttisstdcnt = ne_from_be stdcnt,
                  tzh_leapcnt = ne_from_be leapcnt, tzh_timecnt = ne_from_be timecnt,
                  tzh_typecnt = ne_from_be typecnt, tzh_charcnt = ne_from_be charcnt,
                  tz_body = drop 44 bs\<rparr>
          else None }"

definition init_timezone ::
    "(u32 \<Rightarrow> u32) \<Rightarrow> int \<Rightarrow> int \<Rightarrow> int \<Rightarrow> int \<Rightarrow> u8 list \<Rightarrow> int \<Rightarrow> TzFile option option" where
  "init_timezone ne_from_be sys_openat sys_stat sys_read sys_close bs count_read =
     (if sys_openat \<noteq> 0 then Some None
      else if sys_stat \<noteq> 0 \<or> sys_read \<noteq> 0 then (if sys_close = 0 then Some None else None)
      else if sys_close \<noteq> 0 \<or> count_read \<noteq> int (length bs) then None
      else map_option Some (parse_TzFile ne_from_be bs))"

function find_transition ::
    "(u32 \<Rightarrow> u32) \<Rightarrow> u8 list \<Rightarrow> nat \<Rightarrow> int \<Rightarrow> nat \<Rightarrow> int option" where
  "find_transition ne_from_be body timecnt time i =
     (if i < timecnt then
        do { w \<leftarrow> load32 body (4 * i);
             let transition_time = sint (ne_from_be w) in
             if i \<noteq> 0 \<and> transition_time > time then Some (sint (word_of_nat (i - 1) :: u32))
             else find_transition ne_from_be body timecnt time (i + 1) }
      else Some (- 1))"
  by pat_completeness auto
termination by (relation "measure (\<lambda>(_, _, n, _, i). n - i)") auto

declare find_transition.simps [simp del]

definition read_TtInfo :: "(u32 \<Rightarrow> u32) \<Rightarrow> u8 list \<Rightarrow> nat \<Rightarrow> TtInfo option" where
  "read_TtInfo ne_from_be body off =
     (if off + 6 \<le> length body then
        do { w \<leftarrow> load32 body off;
             Some \<lparr>tt_utoff = sint (ne_from_be w), tt_isdst = body ! (off + 4),
                   tt_desigidx = body ! (off + 5)\<rparr> }
      else None)"

definition get_tz_data :: "(u32 \<Rightarrow> u32) \<Rightarrow> TzFile \<Rightarrow> int \<Rightarrow> TzData option" where
  "get_tz_data ne_from_be ptr time =
     do { transition_index \<leftarrow> find_transition ne_from_be (tz_body ptr) (unat (tzh_timecnt ptr)) time 0;
          transition_info_index \<leftarrow>
            (if transition_index \<ge> 0
             then index (tz_body ptr) (uint (tzh_timecnt ptr * 4 + word_of_int transition_index))
             else Some 0);
          if tzh_typecnt ptr = 0 then None
          else do {
            info \<leftarrow> read_TtInfo ne_from_be (tz_body ptr)
                     (unat (tzh_timecnt ptr * 5) + unat transition_info_index * 6);
            let abbrevs = unat (tzh_timecnt ptr * 5) + unat (tzh_typecnt ptr) * 6 in
            Some \<lparr>gmt_offset = tt_utoff info, is_dst = (tt_isdst info \<noteq> 0),
                  zone = takeWhile (\<lambda>c. c \<noteq> 0) (drop (abbrevs + unat (tt_desigidx info)) (tz_body ptr))\<rparr> } }"

subsection \<open>From seconds to broken-down time\<close>

definition days_since_sunday :: "int \<Rightarrow> int" where
  "days_since_sunday days_since_epoch =
     (if days_since_epoch \<ge> - 4 then (days_since_epoch + 4) smod 7
      else (days_since_epoch + 5) smod 7 + 6)"

function year_loop :: "int \<Rightarrow> int \<Rightarrow> int \<times> int" where
  "year_loop year days_since_epoch =
     (let days = days_per_year year in
      if days_since_epoch \<ge> days then year_loop (year + 1) (days_since_epoch - days)
      else (year, days_since_epoch))"
  by pat_completeness auto
termination
  by (relation "measure (\<lambda>(_, d). nat d)") (auto simp: days_per_year_def split: if_splits)

declare year_loop.simps [simp del]

function month_loop :: "int list \<Rightarrow> nat \<Rightarrow> int \<Rightarrow> (nat \<times> int) option" where
  "month_loop table month days_since_epoch =
     (if month < length table then
        (let days = table ! month in
         if days_since_epoch \<ge> days then month_loop table (month + 1) (days_since_epoch - days)
         else Some (month, days_since_epoch))
      else None)"
  by pat_completeness auto
termination by (relation "measure (\<lambda>(t, m, _). length t - m)") auto

declare month_loop.simps [simp del]

definition broken_down :: "int \<Rightarrow> int \<Rightarrow> bool \<Rightarrow> u8 list \<Rightarrow> tm option" where
  "broken_down local gmt_off dst zn =
     (let days_since_epoch = local sdiv (60 * 60 * 24);
          wday = days_since_sunday days_since_epoch;
          (year, year_day) = year_loop EPOCH_YEAR days_since_epoch
      in do { (month, day) \<leftarrow> month_loop (get_days_per_month_table year) 0 year_day;
              Some \<lparr>tm_sec = local smod 60, tm_min = local sdiv 60 smod 60,
                    tm_hour = local sdiv 60 sdiv 60 smod 24, tm_mday = day + 1,
                    tm_mon = int month, tm_year = year - 1900, tm_wday = wday,
                    tm_yday = year_day, tm_isdst = (if dst then 1 else 0),
                    tm_gmtoff = gmt_off, tm_zone = zn\<rparr> })"

definition gmtime_r :: "int \<Rightarrow> (errno + tm) option" where
  "gmtime_r time_value =
     (if time_value < - 32500915200 \<or> time_value \<ge> 32500915200 then Some (Inl EOVERFLOW)
      else map_option Inr (broken_down time_value 0 False UTC))"

definition localtime_r :: "(u32 \<Rightarrow> u32) \<Rightarrow> TzFile option \<Rightarrow> int \<Rightarrow> (errno + tm) option" where
  "localtime_r ne_from_be tz time_value =
     (if time_value < 0 \<or> time_value \<ge> 32500915200 then Some (Inl EOVERFLOW)
      else case tz of
        None \<Rightarrow> map_option Inr (broken_down time_value 0 False UTC)
      | Some ptr \<Rightarrow>
          do { info \<leftarrow> get_tz_data ne_from_be ptr time_value;
               map_option Inr (broken_down (time_value + gmt_offset info) (gmt_offset info)
                                 (is_dst info) (zone info)) })"

subsection \<open>From broken-down time to seconds\<close>

function carry :: "int \<Rightarrow> int \<Rightarrow> int \<Rightarrow> errno + (int \<times> int)" where
  "carry radix low high =
     (if 0 < radix \<and> low \<ge> radix then
        (if high = INT_MAX then Inl EOVERFLOW else carry radix (low - radix) (high + 1))
      else Inr (low, high))"
  by pat_completeness auto
termination by (relation "measure (\<lambda>(_, l, _). nat l)") auto

declare carry.simps [simp del]

function day_loop :: "int \<Rightarrow> int \<Rightarrow> int \<Rightarrow> (int \<times> int \<times> int) option" where
  "day_loop day mon year =
     (if 0 \<le> mon \<and> mon < 12 then
        (let days = get_days_per_month_table year ! nat mon in
         if day < days then Some (day, mon, year)
         else if mon + 1 = 12
           then (if int32_ok (year + 1) then day_loop (day - days) 0 (year + 1) else None)
           else day_loop (day - days) (mon + 1) year)
      else None)"
  by pat_completeness auto

lemma month_table_length [simp]: "length (get_days_per_month_table y) = 12"
  by (simp add: get_days_per_month_table_def DAYS_IN_MONTHS_LEAP_def DAYS_IN_MONTHS_NOLEAP_def)

lemma month_table_bounds:
  assumes "d \<in> set (get_days_per_month_table y)"
  shows "28 \<le> d" and "d \<le> 31"
  using assms by (auto simp: get_days_per_month_table_def DAYS_IN_MONTHS_LEAP_def
      DAYS_IN_MONTHS_NOLEAP_def split: if_splits)

lemma month_table_nth:
  assumes "i < 12"
  shows "28 \<le> get_days_per_month_table y ! i" and "get_days_per_month_table y ! i \<le> 31"
  using month_table_bounds [of "get_days_per_month_table y ! i" y] assms by simp_all

lemma month_table_int:
  assumes "0 \<le> mon" and "mon < 12"
  shows "28 \<le> get_days_per_month_table y ! nat mon" and "get_days_per_month_table y ! nat mon \<le> 31"
  using month_table_nth [of "nat mon" y] assms by simp_all

termination day_loop
proof (relation "measure (\<lambda>(d, _, _). nat d)", goal_cases)
  case (2 day mon year x)
  then show ?case using month_table_int(1) [of mon year] by auto
next
  case (3 day mon year x)
  then show ?case using month_table_int(1) [of mon year] by auto
qed simp

declare day_loop.simps [simp del]

fun sum_months :: "int list \<Rightarrow> nat \<Rightarrow> int" where
  "sum_months table 0 = 0"
| "sum_months table (Suc month) = sum_months table month + table ! month"

function sum_years :: "int \<Rightarrow> int \<Rightarrow> int" where
  "sum_years year stop = (if year < stop then days_per_year year + sum_years (year + 1) stop else 0)"
  by pat_completeness auto
termination by (relation "measure (\<lambda>(y, s). nat (s - y))") auto

declare sum_years.simps [simp del]

definition normalize :: "tm \<Rightarrow> (errno + tm) option" where
  "normalize arg =
     do { day0 \<leftarrow> ck32 (tm_mday arg - 1);
          year0 \<leftarrow> ck32 (tm_year arg + 1900);
          case carry 60 (tm_sec arg) (tm_min arg) of
            Inl e \<Rightarrow> Some (Inl e)
          | Inr (sec, min1) \<Rightarrow>
          case carry 60 min1 (tm_hour arg) of
            Inl e \<Rightarrow> Some (Inl e)
          | Inr (minute, hour1) \<Rightarrow>
          case carry 24 hour1 day0 of
            Inl e \<Rightarrow> Some (Inl e)
          | Inr (hour, day1) \<Rightarrow>
          case carry 12 (tm_mon arg) year0 of
            Inl e \<Rightarrow> Some (Inl e)
          | Inr (mon1, year1) \<Rightarrow>
          do { (day, mon, year) \<leftarrow> day_loop day1 mon1 year1;
               Some (Inr (arg\<lparr>tm_sec := sec, tm_min := minute, tm_hour := hour,
                              tm_mday := day + 1, tm_mon := mon, tm_year := year - 1900\<rparr>)) } }"

definition seconds_of :: "tm \<Rightarrow> (int \<times> tm) option" where
  "seconds_of arg =
     (let yday = tm_mday arg - 1 +
                 sum_months (get_days_per_month_table (tm_year arg + 1900)) (nat (tm_mon arg));
          days_since_epoch = yday + sum_years EPOCH_YEAR (tm_year arg + 1900)
      in do { h \<leftarrow> ck32 (tm_hour arg * (60 * 60)); n \<leftarrow> ck32 (tm_min arg * 60);
              Some (days_since_epoch * (60 * 60 * 24) + h + n + tm_sec arg,
                    arg\<lparr>tm_yday := yday, tm_wday := days_since_sunday days_since_epoch\<rparr>) })"

definition timegm :: "tm \<Rightarrow> (errno + int \<times> tm) option" where
  "timegm arg =
     do { r \<leftarrow> normalize arg;
          case r of Inl e \<Rightarrow> Some (Inl e)
          | Inr a \<Rightarrow>
              do { (time, a') \<leftarrow> seconds_of a;
                   Some (Inr (time, a'\<lparr>tm_isdst := 0, tm_gmtoff := 0, tm_zone := UTC\<rparr>)) } }"

definition mktime :: "(u32 \<Rightarrow> u32) \<Rightarrow> TzFile option \<Rightarrow> tm \<Rightarrow> (errno + int \<times> tm) option" where
  "mktime ne_from_be tz arg =
     do { r \<leftarrow> normalize arg;
          case r of Inl e \<Rightarrow> Some (Inl e)
          | Inr a \<Rightarrow>
              do { (time, a') \<leftarrow> seconds_of (a\<lparr>tm_isdst := (if tm_isdst a > 0 then 1 else tm_isdst a)\<rparr>);
                   case tz of
                     None \<Rightarrow>
                       Some (Inr (time, if tm_isdst a' < 0 then a'\<lparr>tm_isdst := - 1\<rparr> else a'))
                   | Some ptr \<Rightarrow>
                       do { info \<leftarrow> get_tz_data ne_from_be ptr time;
                            Some (Inr (time - gmt_offset info,
                              a'\<lparr>tm_isdst := (if tm_isdst a' < 0 then (if is_dst info then 1 else 0)
                                              else tm_isdst a'),
                                 tm_gmtoff := gmt_offset info, tm_zone := zone info\<rparr>)) } } }"

subsection \<open>Arithmetic of the tables\<close>

lemma days_per_year_bounds: "365 \<le> days_per_year y" "days_per_year y \<le> 366"
  by (simp_all add: days_per_year_def)

lemma sum_months_12: "sum_months (get_days_per_month_table y) 12 = days_per_year y"
  by (simp add: get_days_per_month_table_def days_per_year_def DAYS_IN_MONTHS_LEAP_def
      DAYS_IN_MONTHS_NOLEAP_def eval_nat_numeral)

lemma sum_months_step:
  "sum_months table (m + 1) = sum_months table m + table ! m"
  by simp

lemma sum_months_mono:
  "k \<le> m \<Longrightarrow> m \<le> 12 \<Longrightarrow>
   sum_months (get_days_per_month_table y) k \<le> sum_months (get_days_per_month_table y) m"
proof (induction m)
  case (Suc m)
  then show ?case using month_table_nth(1) [of m y] by (cases "k = Suc m") auto
qed simp

lemma sum_months_nonneg: "m \<le> 12 \<Longrightarrow> 0 \<le> sum_months (get_days_per_month_table y) m"
  using sum_months_mono [of 0 m y] by simp

lemma sum_years_same [simp]: "sum_years y y = 0"
  by (simp add: sum_years.simps)

lemma sum_years_first: "y < z \<Longrightarrow> sum_years y z = days_per_year y + sum_years (y + 1) z"
  by (subst sum_years.simps) simp

lemma sum_years_last: "y \<le> z \<Longrightarrow> sum_years y (z + 1) = sum_years y z + days_per_year z"
proof (induction y z rule: sum_years.induct)
  case (1 y z)
  show ?case
  proof (cases "y < z")
    case True
    with 1 show ?thesis by (simp add: sum_years_first)
  next
    case False
    with "1.prems" show ?thesis by (simp add: sum_years_first)
  qed
qed

lemma sum_years_nonneg: "0 \<le> sum_years y z"
proof (induction y z rule: sum_years.induct)
  case (1 y z)
  then show ?case using days_per_year_bounds(1) [of y] by (subst sum_years.simps) auto
qed

subsection \<open>The year and month searches\<close>

lemma year_loop_unique:
  "y \<le> z \<Longrightarrow> 0 \<le> r \<Longrightarrow> r < days_per_year z \<Longrightarrow> year_loop y (sum_years y z + r) = (z, r)"
proof (induction y z rule: sum_years.induct)
  case (1 y z)
  show ?case
  proof (cases "y < z")
    case True
    then have "year_loop (y + 1) (sum_years (y + 1) z + r) = (z, r)" using 1 by simp
    moreover have "days_per_year y \<le> days_per_year y + sum_years (y + 1) z + r"
      using sum_years_nonneg [of "y + 1" z] "1.prems" by simp
    ultimately show ?thesis using True
      by (subst year_loop.simps) (simp add: Let_def sum_years_first add.assoc)
  next
    case False
    with "1.prems" show ?thesis by (subst year_loop.simps) (simp add: Let_def)
  qed
qed

lemma year_loop_split:
  "0 \<le> d \<Longrightarrow> \<exists>z r. y \<le> z \<and> 0 \<le> r \<and> r < days_per_year z \<and> d = sum_years y z + r"
proof (induction y d rule: year_loop.induct)
  case (1 y d)
  show ?case
  proof (cases "days_per_year y \<le> d")
    case True
    then obtain z r where "y + 1 \<le> z" "0 \<le> r" "r < days_per_year z"
        "d - days_per_year y = sum_years (y + 1) z + r"
      using "1.IH" [OF refl True] by auto
    then have "y \<le> z \<and> 0 \<le> r \<and> r < days_per_year z \<and> d = sum_years y z + r"
      by (simp add: sum_years_first)
    then show ?thesis by blast
  next
    case False
    with "1.prems" have "y \<le> y \<and> 0 \<le> d \<and> d < days_per_year y \<and> d = sum_years y y + d" by simp
    then show ?thesis by blast
  qed
qed

lemma month_loop_unique:
  "k \<le> m \<Longrightarrow> m < 12 \<Longrightarrow> 0 \<le> r \<Longrightarrow> r < get_days_per_month_table y ! m \<Longrightarrow>
   month_loop (get_days_per_month_table y) k
     (sum_months (get_days_per_month_table y) m - sum_months (get_days_per_month_table y) k + r) =
   Some (m, r)"
proof (induction "m - k" arbitrary: k)
  case 0
  then show ?case by (subst month_loop.simps) (simp add: Let_def)
next
  case (Suc n)
  let ?s = "sum_months (get_days_per_month_table y)"
  have km: "k < m" and n: "n = m - (k + 1)" using Suc.hyps(2) by auto
  have "month_loop (get_days_per_month_table y) (k + 1) (?s m - ?s (k + 1) + r) = Some (m, r)"
    using Suc.hyps(1) [OF n] Suc.prems km by simp
  moreover have "?s (k + 1) \<le> ?s m" using sum_months_mono [of "k + 1" m y] km Suc.prems by simp
  ultimately show ?case
    using km Suc.prems by (subst month_loop.simps) (simp add: Let_def algebra_simps)
qed

lemma month_split:
  assumes "0 \<le> d" and "d < days_per_year y"
  shows "\<exists>m r. m < 12 \<and> 0 \<le> r \<and> r < get_days_per_month_table y ! m \<and>
    d = sum_months (get_days_per_month_table y) m + r"
proof -
  let ?s = "sum_months (get_days_per_month_table y)"
  define m where "m = (LEAST m. d < ?s (Suc m))"
  have "d < ?s (Suc 11)" using assms(2) sum_months_12 [of y] by (simp del: sum_months.simps)
  then have "d < ?s (Suc m)" and "m \<le> 11"
    unfolding m_def by (rule LeastI, rule Least_le)
  moreover have "?s m \<le> d"
  proof (cases m)
    case (Suc k)
    then have "\<not> d < ?s (Suc k)" using not_less_Least [of k "\<lambda>m. d < ?s (Suc m)"] by (simp add: m_def)
    then show ?thesis using Suc by simp
  qed (use assms(1) in simp)
  ultimately have "m < 12 \<and> 0 \<le> d - ?s m \<and> d - ?s m < get_days_per_month_table y ! m \<and> d = ?s m + (d - ?s m)"
    by simp
  then show ?thesis by blast
qed

subsection \<open>Well-formed broken-down times\<close>

definition valid_tm :: "tm \<Rightarrow> bool" where
  "valid_tm t \<longleftrightarrow>
     0 \<le> tm_sec t \<and> tm_sec t < 60 \<and> 0 \<le> tm_min t \<and> tm_min t < 60 \<and>
     0 \<le> tm_hour t \<and> tm_hour t < 24 \<and> 0 \<le> tm_mon t \<and> tm_mon t < 12 \<and>
     1 \<le> tm_mday t \<and> tm_mday t \<le> get_days_per_month_table (tm_year t + 1900) ! nat (tm_mon t) \<and>
     70 \<le> tm_year t"

definition civil_yday :: "tm \<Rightarrow> int" where
  "civil_yday t = sum_months (get_days_per_month_table (tm_year t + 1900)) (nat (tm_mon t)) + (tm_mday t - 1)"

definition civil_days :: "tm \<Rightarrow> int" where
  "civil_days t = sum_years EPOCH_YEAR (tm_year t + 1900) + civil_yday t"

definition civil_seconds :: "tm \<Rightarrow> int" where
  "civil_seconds t = civil_days t * 86400 + tm_hour t * 3600 + tm_min t * 60 + tm_sec t"

lemma civil_yday_bounds:
  assumes "valid_tm t"
  shows "0 \<le> civil_yday t" and "civil_yday t < days_per_year (tm_year t + 1900)"
proof -
  let ?tab = "get_days_per_month_table (tm_year t + 1900)"
  have m: "nat (tm_mon t) < 12" using assms by (auto simp: valid_tm_def)
  then show "0 \<le> civil_yday t"
    using assms sum_months_nonneg [of "nat (tm_mon t)" "tm_year t + 1900"]
    by (simp add: civil_yday_def valid_tm_def)
  have "sum_months ?tab (nat (tm_mon t) + 1) \<le> sum_months ?tab 12"
    using m by (intro sum_months_mono) auto
  then show "civil_yday t < days_per_year (tm_year t + 1900)"
    using assms by (simp add: civil_yday_def valid_tm_def sum_months_12)
qed

lemma civil_days_nonneg: "valid_tm t \<Longrightarrow> 0 \<le> civil_days t"
  using civil_yday_bounds(1) [of t] sum_years_nonneg by (simp add: civil_days_def)

lemma civil_seconds_nonneg: "valid_tm t \<Longrightarrow> 0 \<le> civil_seconds t"
  using civil_days_nonneg [of t] by (simp add: civil_seconds_def valid_tm_def)

text \<open>The clock fields of a number of seconds.\<close>

lemma clock_fields:
  fixes s :: int
  assumes "s = d * 86400 + h * 3600 + m * 60 + c" and "0 \<le> h" "h < 24" "0 \<le> m" "m < 60" "0 \<le> c" "c < 60"
  shows "s div 86400 = d" and "s mod 60 = c" and "s div 60 mod 60 = m" and "s div 60 div 60 mod 24 = h"
proof -
  show "s div 86400 = d"
    by (rule int_div_pos_eq [where r = "h * 3600 + m * 60 + c"]) (use assms in auto)
  have s60: "s = 60 * (d * 1440 + h * 60 + m) + c" using assms(1) by simp
  show "s mod 60 = c" by (rule int_mod_pos_eq [OF s60]) (use assms in auto)
  have q: "s div 60 = d * 1440 + h * 60 + m" by (rule int_div_pos_eq [OF s60]) (use assms in auto)
  show "s div 60 mod 60 = m"
    by (rule int_mod_pos_eq [where q = "d * 24 + h"]) (use q assms in auto)
  have "s div 60 div 60 = d * 24 + h"
    by (rule int_div_pos_eq [where r = m]) (use q assms in auto)
  then show "s div 60 div 60 mod 24 = h"
    by (intro int_mod_pos_eq [where q = d]) (use assms in auto)
qed

lemma broken_down_civil:
  assumes "valid_tm t"
  shows "broken_down (civil_seconds t) off dst zn =
    Some (t\<lparr>tm_wday := days_since_sunday (civil_days t), tm_yday := civil_yday t,
            tm_isdst := (if dst then 1 else 0), tm_gmtoff := off, tm_zone := zn\<rparr>)"
proof -
  let ?y = "tm_year t + 1900"
  have nn: "0 \<le> civil_seconds t" by (rule civil_seconds_nonneg [OF assms])
  have v: "0 \<le> tm_hour t" "tm_hour t < 24" "0 \<le> tm_min t" "tm_min t < 60" "0 \<le> tm_sec t" "tm_sec t < 60"
    using assms by (auto simp: valid_tm_def)
  note cf = clock_fields [OF civil_seconds_def v]
  have "year_loop EPOCH_YEAR (sum_years EPOCH_YEAR ?y + civil_yday t) = (?y, civil_yday t)"
    using assms civil_yday_bounds [OF assms] by (intro year_loop_unique) (auto simp: EPOCH_YEAR_def valid_tm_def)
  then have yl: "year_loop EPOCH_YEAR (civil_days t) = (?y, civil_yday t)"
    by (simp only: civil_days_def)
  have "month_loop (get_days_per_month_table ?y) 0
      (sum_months (get_days_per_month_table ?y) (nat (tm_mon t)) - sum_months (get_days_per_month_table ?y) 0
        + (tm_mday t - 1)) = Some (nat (tm_mon t), tm_mday t - 1)"
    using assms by (intro month_loop_unique) (auto simp: valid_tm_def)
  then have ml: "month_loop (get_days_per_month_table ?y) 0 (civil_yday t) = Some (nat (tm_mon t), tm_mday t - 1)"
    by (simp add: civil_yday_def)
  have f: "civil_seconds t sdiv (60 * 60 * 24) = civil_days t" "civil_seconds t smod 60 = tm_sec t"
      "civil_seconds t sdiv 60 smod 60 = tm_min t" "civil_seconds t sdiv 60 sdiv 60 smod 24 = tm_hour t"
    using nn cf by (simp_all add: pos_imp_zdiv_nonneg_iff)
  have "int (nat (tm_mon t)) = tm_mon t" using assms by (simp add: valid_tm_def)
  then show ?thesis
    unfolding broken_down_def f Let_def yl prod.case ml by simp
qed

lemma civil_exists:
  assumes "0 \<le> s"
  shows "\<exists>t. valid_tm t \<and> civil_seconds t = s"
proof -
  have "0 \<le> s div 86400" using assms by (simp add: pos_imp_zdiv_nonneg_iff)
  then obtain y d where y: "EPOCH_YEAR \<le> y" "0 \<le> d" "d < days_per_year y"
      "s div 86400 = sum_years EPOCH_YEAR y + d"
    using year_loop_split by blast
  then obtain m r where m: "m < 12" "0 \<le> r" "r < get_days_per_month_table y ! m"
      "d = sum_months (get_days_per_month_table y) m + r"
    using month_split by blast
  define k where "k = s mod 86400"
  have k: "0 \<le> k" "k < 86400" "s div 86400 * 86400 + k = s" by (simp_all add: k_def)
  define q c h n where "q = k div 60" and "c = k mod 60" and "h = q div 60" and "n = q mod 60"
  have q: "0 \<le> q" "q < 1440" using k by (simp_all add: q_def pos_imp_zdiv_nonneg_iff)
  then have h: "0 \<le> h" "h < 24" "0 \<le> n" "n < 60" "0 \<le> c" "c < 60"
    by (simp_all add: h_def n_def c_def pos_imp_zdiv_nonneg_iff)
  have "k = q * 60 + c" and "q = h * 60 + n" by (simp_all add: q_def c_def h_def n_def)
  then have kq: "h * 3600 + n * 60 + c = k" by simp
  define t where "t = \<lparr>tm_sec = c, tm_min = n, tm_hour = h, tm_mday = r + 1, tm_mon = int m,
      tm_year = y - 1900, tm_wday = 0, tm_yday = 0, tm_isdst = 0, tm_gmtoff = 0, tm_zone = []\<rparr>"
  have "valid_tm t"
    using h m y by (simp add: t_def valid_tm_def EPOCH_YEAR_def)
  moreover have "civil_seconds t = (s div 86400) * 86400 + (h * 3600 + n * 60 + c)"
    unfolding y(4) m(4) by (simp add: t_def civil_seconds_def civil_days_def civil_yday_def)
  then have "civil_seconds t = s" unfolding kq k(3) .
  ultimately have "valid_tm t \<and> civil_seconds t = s" by simp
  then show ?thesis by blast
qed

lemma sum_years_ge: "y \<le> z \<Longrightarrow> 365 * (z - y) \<le> sum_years y z"
proof (induction y z rule: sum_years.induct)
  case (1 y z)
  show ?case
  proof (cases "y < z")
    case True
    then have "365 * (z - (y + 1)) \<le> sum_years (y + 1) z" using "1.IH" by linarith
    then show ?thesis
      unfolding sum_years_first [OF True] using days_per_year_bounds(1) [of y] by (simp add: algebra_simps)
  next
    case False
    then show ?thesis using "1.prems" by simp
  qed
qed

lemma valid_year_bound:
  assumes "valid_tm t"
  shows "31536000 * (tm_year t - 70) \<le> civil_seconds t"
proof -
  have "365 * (tm_year t - 70) \<le> civil_days t"
    using sum_years_ge [of EPOCH_YEAR "tm_year t + 1900"] civil_yday_bounds(1) [OF assms] assms
    by (simp add: civil_days_def EPOCH_YEAR_def valid_tm_def)
  then have "365 * (tm_year t - 70) * 86400 \<le> civil_days t * 86400" by simp
  then show ?thesis using assms by (simp add: civil_seconds_def valid_tm_def)
qed

lemma days_since_sunday_eq: "days_since_sunday d = (d + 4) mod 7"
proof (cases "d \<ge> - 4")
  case True
  then show ?thesis by (simp add: days_since_sunday_def)
next
  case False
  have "(d + 5) smod 7 = - ((- d - 5) mod 7)"
    using minus_smod_eq [of "- d - 5" 7] False by (simp add: add.commute)
  moreover have "6 - (- d - 5) mod 7 = (d + 4) mod 7"
    by (rule int_mod_pos_eq [symmetric, where q = "- ((- d - 5) div 7) - 1"])
      (use div_mult_mod_eq [of "- d - 5" 7] in \<open>simp_all add: algebra_simps\<close>)
  ultimately show ?thesis using False by (simp add: days_since_sunday_def)
qed

subsection \<open>Normalisation\<close>

lemma carry_small: "low < radix \<Longrightarrow> carry radix low high = Inr (low, high)"
  by (subst carry.simps) simp

lemma carry_eq:
  "0 < radix \<Longrightarrow> 0 \<le> low \<Longrightarrow> high + low div radix \<le> INT_MAX \<Longrightarrow>
   carry radix low high = Inr (low mod radix, high + low div radix)"
proof (induction radix low high rule: carry.induct)
  case (1 radix low high)
  show ?case
  proof (cases "low < radix")
    case True
    then show ?thesis using "1.prems" by (simp add: carry_small)
  next
    case False
    define l where "l = low - radix"
    have l: "low = l + radix" "0 \<le> l" using False by (simp_all add: l_def)
    have r: "0 < radix" by (rule "1.prems"(1))
    have dm: "(l + radix) div radix = l div radix + 1" "(l + radix) mod radix = l mod radix"
      using div_add_self2 [of radix l] r by auto
    have bound: "high + (l div radix + 1) \<le> INT_MAX" using "1.prems"(3) unfolding l(1) dm .
    have "0 \<le> l div radix" using l(2) r by (simp add: pos_imp_zdiv_nonneg_iff)
    then have high: "high \<noteq> INT_MAX" using bound by linarith
    have step: "0 < radix \<and> radix \<le> low" using False r by simp
    have "high + 1 + l div radix \<le> INT_MAX" using bound by simp
    then have "carry radix l (high + 1) = Inr (l mod radix, high + 1 + l div radix)"
      using "1.IH" [OF step high r] l(2) unfolding l_def by blast
    moreover have "carry radix low high = carry radix l (high + 1)"
      using step high by (subst carry.simps) (simp add: l_def)
    ultimately show ?thesis unfolding l(1) dm by simp
  qed
qed

lemma day_loop_correct:
  "0 \<le> day \<Longrightarrow> 0 \<le> mon \<Longrightarrow> mon < 12 \<Longrightarrow> EPOCH_YEAR \<le> year \<Longrightarrow> year + day div 28 \<le> INT_MAX \<Longrightarrow>
   \<exists>d m y. day_loop day mon year = Some (d, m, y) \<and> 0 \<le> d \<and> 0 \<le> m \<and> m < 12 \<and> year \<le> y \<and>
     d < get_days_per_month_table y ! nat m \<and>
     sum_years EPOCH_YEAR y + sum_months (get_days_per_month_table y) (nat m) + d =
     sum_years EPOCH_YEAR year + sum_months (get_days_per_month_table year) (nat mon) + day"
proof (induction day mon year rule: day_loop.induct)
  case (1 day mon year)
  let ?days = "get_days_per_month_table year ! nat mon"
  have mon: "0 \<le> mon \<and> mon < 12" using "1.prems" by simp
  have days: "28 \<le> ?days" using month_table_int(1) [of mon year] mon by simp
  show ?case
  proof (cases "day < ?days")
    case True
    then show ?thesis using "1.prems" by (subst day_loop.simps) (simp add: Let_def)
  next
    case False
    have less: "(day - ?days) div 28 + 1 \<le> day div 28"
    proof -
      have "(day - ?days) div 28 + 1 = (day - ?days + 28) div 28" by simp
      also have "\<dots> \<le> day div 28" using days by (intro zdiv_mono1) auto
      finally show ?thesis .
    qed
    have nn: "0 \<le> (day - ?days) div 28" using False by (simp add: pos_imp_zdiv_nonneg_iff)
    show ?thesis
    proof (cases "mon + 1 = 12")
      case True
      have ok: "int32_ok (year + 1)"
        using less nn "1.prems" by (simp add: int32_ok_def EPOCH_YEAR_def)
      have "sum_years EPOCH_YEAR (year + 1) = sum_years EPOCH_YEAR year + sum_months (get_days_per_month_table year) 11 + ?days"
        using sum_years_last [OF "1.prems"(4)] sum_months_12 [of year] True
        by (simp add: eval_nat_numeral)
      moreover have "nat mon = 11" using True by simp
      ultimately show ?thesis
        using "1.IH"(1) [OF mon refl False True ok] "1.prems" less False True ok
        by (subst day_loop.simps) (auto simp: Let_def)
    next
      case mon1: False
      have "nat (mon + 1) = Suc (nat mon)" using mon by linarith
      then show ?thesis
        using "1.IH"(2) [OF mon refl False mon1] "1.prems" less False mon1
        by (subst day_loop.simps) (auto simp: Let_def)
    qed
  qed
qed

subsection \<open>The instant a broken-down time denotes\<close>

text \<open>
  Fields may lie outside their ranges: months carry into years, and every other excess counts in
  days, hours, minutes and seconds.  The bounds of an ordinary time such that no carry
  overflows.
\<close>

definition raw_seconds :: "tm \<Rightarrow> int" where
  "raw_seconds t =
     (let y = tm_year t + 1900 + tm_mon t div 12
      in (sum_years EPOCH_YEAR y + sum_months (get_days_per_month_table y) (nat (tm_mon t mod 12))
            + (tm_mday t - 1)) * 86400
         + tm_hour t * 3600 + tm_min t * 60 + tm_sec t)"

definition ordinary_tm :: "tm \<Rightarrow> bool" where
  "ordinary_tm t \<longleftrightarrow>
     0 \<le> tm_sec t \<and> tm_sec t \<le> 1000000000 \<and> 0 \<le> tm_min t \<and> tm_min t \<le> 1000000000 \<and>
     0 \<le> tm_hour t \<and> tm_hour t \<le> 1000000000 \<and> 1 \<le> tm_mday t \<and> tm_mday t \<le> 1000000000 \<and>
     0 \<le> tm_mon t \<and> tm_mon t \<le> 1000000000 \<and> 70 \<le> tm_year t \<and> tm_year t \<le> 1000000000"

lemma valid_ordinary:
  assumes "valid_tm t" and "tm_year t \<le> 1000000000"
  shows "ordinary_tm t" and "raw_seconds t = civil_seconds t"
proof -
  have "tm_mon t div 12 = 0" "tm_mon t mod 12 = tm_mon t"
    using assms(1) by (simp_all add: valid_tm_def)
  then show "raw_seconds t = civil_seconds t"
    by (simp add: raw_seconds_def civil_seconds_def civil_days_def civil_yday_def Let_def)
  have "get_days_per_month_table (tm_year t + 1900) ! nat (tm_mon t) \<le> 31"
    using assms(1) by (intro month_table_int(2)) (auto simp: valid_tm_def)
  then show "ordinary_tm t" using assms by (auto simp: ordinary_tm_def valid_tm_def)
qed

lemma carry_split:
  assumes "0 < radix \<and> 0 \<le> low \<and> low < radix * (c + 1) \<and> high + c \<le> INT_MAX"
  shows "\<exists>q r. carry radix low high = Inr (r, high + q) \<and> low = q * radix + r \<and>
    0 \<le> q \<and> q \<le> c \<and> 0 \<le> r \<and> r < radix"
proof -
  have "low div radix < c + 1" using assms by (intro int_div_less_mult) (auto simp: mult.commute)
  then have "low div radix \<le> c" by simp
  moreover have "carry radix low high = Inr (low mod radix, high + low div radix)"
    using assms \<open>low div radix \<le> c\<close> by (intro carry_eq) auto
  moreover have "low = low div radix * radix + low mod radix" by simp
  moreover have "0 \<le> low div radix" "0 \<le> low mod radix" "low mod radix < radix"
    using assms by (simp_all add: pos_imp_zdiv_nonneg_iff)
  ultimately show ?thesis by blast
qed

lemma normalize_correct:
  assumes "ordinary_tm t"
  shows "\<exists>n. normalize t = Some (Inr n) \<and> valid_tm n \<and> civil_seconds n = raw_seconds t \<and>
    tm_isdst n = tm_isdst t \<and> tm_gmtoff n = tm_gmtoff t \<and> tm_zone n = tm_zone t"
proof -
  have t: "0 \<le> tm_sec t" "tm_sec t \<le> 1000000000" "0 \<le> tm_min t" "tm_min t \<le> 1000000000"
      "0 \<le> tm_hour t" "tm_hour t \<le> 1000000000" "1 \<le> tm_mday t" "tm_mday t \<le> 1000000000"
      "0 \<le> tm_mon t" "tm_mon t \<le> 1000000000" "70 \<le> tm_year t" "tm_year t \<le> 1000000000"
    using assms by (auto simp: ordinary_tm_def)
  have "0 < (60 :: int) \<and> 0 \<le> tm_sec t \<and> tm_sec t < 60 * (16666666 + 1) \<and> tm_min t + 16666666 \<le> INT_MAX"
    using t by simp
  from carry_split [OF this] obtain q1 sec where s: "carry 60 (tm_sec t) (tm_min t) = Inr (sec, tm_min t + q1)"
      "tm_sec t = q1 * 60 + sec" "0 \<le> q1" "q1 \<le> 16666666" "0 \<le> sec" "sec < 60"
    by blast
  have "0 < (60 :: int) \<and> 0 \<le> tm_min t + q1 \<and> tm_min t + q1 < 60 * (20000000 + 1) \<and> tm_hour t + 20000000 \<le> INT_MAX"
    using t s(3,4) by simp
  from carry_split [OF this] obtain q2 mn where m: "carry 60 (tm_min t + q1) (tm_hour t) = Inr (mn, tm_hour t + q2)"
      "tm_min t + q1 = q2 * 60 + mn" "0 \<le> q2" "q2 \<le> 20000000" "0 \<le> mn" "mn < 60"
    by blast
  have "0 < (24 :: int) \<and> 0 \<le> tm_hour t + q2 \<and> tm_hour t + q2 < 24 * (50000000 + 1) \<and> (tm_mday t - 1) + 50000000 \<le> INT_MAX"
    using t m(3,4) by simp
  from carry_split [OF this] obtain q3 hr where h: "carry 24 (tm_hour t + q2) (tm_mday t - 1) = Inr (hr, tm_mday t - 1 + q3)"
      "tm_hour t + q2 = q3 * 24 + hr" "0 \<le> q3" "q3 \<le> 50000000" "0 \<le> hr" "hr < 24"
    by blast
  have "0 < (12 :: int) \<and> 0 \<le> tm_mon t \<and> tm_mon t < 12 * (83333333 + 1) \<and> (tm_year t + 1900) + 83333333 \<le> INT_MAX"
    using t by simp
  from carry_split [OF this] obtain q4 mo where o: "carry 12 (tm_mon t) (tm_year t + 1900) = Inr (mo, tm_year t + 1900 + q4)"
      "tm_mon t = q4 * 12 + mo" "0 \<le> q4" "q4 \<le> 83333333" "0 \<le> mo" "mo < 12"
    by blast
  have o': "tm_mon t div 12 = q4" "tm_mon t mod 12 = mo"
    using o(5,6) unfolding o(2) by simp_all
  define day y where "day = tm_mday t - 1 + q3" and "y = tm_year t + 1900 + q4"
  have "day div 28 \<le> 1050000000 div 28" using t h by (intro zdiv_mono1) (auto simp: day_def)
  then have "y + day div 28 \<le> INT_MAX" using t o by (simp add: y_def)
  then obtain d m' y' where l: "day_loop day mo y = Some (d, m', y')" "0 \<le> d" "0 \<le> m'" "m' < 12" "y \<le> y'"
      "d < get_days_per_month_table y' ! nat m'"
      "sum_years EPOCH_YEAR y' + sum_months (get_days_per_month_table y') (nat m') + d =
       sum_years EPOCH_YEAR y + sum_months (get_days_per_month_table y) (nat mo) + day"
    using day_loop_correct [of day mo y] t(7,11) o(3,5,6) h(3) by (auto simp: day_def y_def EPOCH_YEAR_def)
  define n where "n = t\<lparr>tm_sec := sec, tm_min := mn, tm_hour := hr, tm_mday := d + 1, tm_mon := m',
      tm_year := y' - 1900\<rparr>"
  have "normalize t = Some (Inr n)"
    using t s(1) m(1) h(1) o(1) l(1) by (simp add: normalize_def ck32_def int32_ok_def n_def day_def y_def)
  moreover have "valid_tm n"
    using t s m h l o(3) by (simp add: valid_tm_def n_def y_def)
  moreover have "raw_seconds t =
      (sum_years EPOCH_YEAR y' + sum_months (get_days_per_month_table y') (nat m') + d) * 86400
        + hr * 3600 + mn * 60 + sec"
    unfolding l(7) using s(2) m(2) h(2)
    by (simp add: raw_seconds_def Let_def y_def day_def o' algebra_simps)
  then have "civil_seconds n = raw_seconds t"
    by (simp add: n_def civil_seconds_def civil_days_def civil_yday_def)
  ultimately show ?thesis by (auto simp: n_def)
qed

lemma seconds_of_valid:
  assumes "valid_tm t"
  shows "seconds_of t =
    Some (civil_seconds t, t\<lparr>tm_yday := civil_yday t, tm_wday := days_since_sunday (civil_days t)\<rparr>)"
proof -
  have "int32_ok (tm_hour t * 3600)" and "int32_ok (tm_min t * 60)"
    using assms by (auto simp: valid_tm_def int32_ok_def)
  then show ?thesis
    by (simp add: seconds_of_def Let_def ck32_def civil_seconds_def civil_days_def civil_yday_def
        add.commute)
qed

lemma broken_down_valid:
  assumes "0 \<le> s" and "broken_down s off dst zn = Some b"
  shows "valid_tm b" and "civil_seconds b = s" and "tm_wday b = (s div 86400 + 4) mod 7"
    and "tm_yday b = civil_yday b" and "tm_isdst b = (if dst then 1 else 0)" and "tm_gmtoff b = off"
    and "tm_zone b = zn"
proof -
  obtain t where t: "valid_tm t" "civil_seconds t = s" using civil_exists [OF assms(1)] by blast
  have b: "b = t\<lparr>tm_wday := days_since_sunday (civil_days t), tm_yday := civil_yday t,
            tm_isdst := (if dst then 1 else 0), tm_gmtoff := off, tm_zone := zn\<rparr>"
    using broken_down_civil [OF t(1), of off dst zn] assms(2) by (simp add: t(2))
  have d: "civil_days t = s div 86400"
    using clock_fields(1) [OF civil_seconds_def [of t]] t by (simp add: valid_tm_def)
  show "valid_tm b" "civil_seconds b = s" using t b
    by (simp_all add: valid_tm_def civil_seconds_def civil_days_def civil_yday_def)
  show "tm_wday b = (s div 86400 + 4) mod 7" by (simp add: b d days_since_sunday_eq)
  show "tm_yday b = civil_yday b" by (simp add: b civil_yday_def)
  show "tm_isdst b = (if dst then 1 else 0)" "tm_gmtoff b = off" "tm_zone b = zn"
    by (simp_all add: b)
qed

lemma broken_down_total: "0 \<le> s \<Longrightarrow> \<exists>b. broken_down s off dst zn = Some b"
  using civil_exists [of s] broken_down_civil by blast

lemma timegm_eq:
  assumes "ordinary_tm t"
  shows "timegm t = map_option (\<lambda>b. Inr (raw_seconds t, b)) (broken_down (raw_seconds t) 0 False UTC)"
    and "0 \<le> raw_seconds t"
proof -
  obtain n where n: "normalize t = Some (Inr n)" "valid_tm n" "civil_seconds n = raw_seconds t"
    using normalize_correct [OF assms] by blast
  show "0 \<le> raw_seconds t" using civil_seconds_nonneg [OF n(2)] n(3) by simp
  show "timegm t = map_option (\<lambda>b. Inr (raw_seconds t, b)) (broken_down (raw_seconds t) 0 False UTC)"
    unfolding n(3) [symmetric] broken_down_civil [OF n(2)] timegm_def n(1)
    by (simp add: seconds_of_valid [OF n(2)])
qed

lemma broken_down_ordinary:
  assumes "0 \<le> s" and "s < 40000000000" and "broken_down s off dst zn = Some b"
  shows "ordinary_tm b" and "raw_seconds b = s"
proof -
  note v = broken_down_valid [OF assms(1,3)]
  have "tm_year b \<le> 1000000000" using valid_year_bound [OF v(1)] assms(2) v(2) by simp
  from valid_ordinary [OF v(1) this] show "ordinary_tm b" "raw_seconds b = s" by (simp_all add: v(2))
qed

text \<open>
  C4. For every time stamp from the epoch to the end of its supported range, \<open>gmtime_r\<close> succeeds,
  every field of its result is in range (the day within the length of its month), the fields denote
  exactly that many seconds since 1970, the weekday and the day of the year agree with them, and
  \<open>timegm\<close> maps the result back to the time stamp and leaves it unchanged.
\<close>

theorem gmtime_r_timegm_roundtrip:
  assumes "0 \<le> s" and "s < 32500915200"
  shows "\<exists>t. gmtime_r s = Some (Inr t) \<and> valid_tm t \<and> civil_seconds t = s \<and>
    tm_wday t = (s div 86400 + 4) mod 7 \<and> tm_yday t = civil_yday t \<and>
    timegm t = Some (Inr (s, t))"
proof -
  obtain t where t: "broken_down s 0 False UTC = Some t" using broken_down_total [OF assms(1)] by blast
  have o: "ordinary_tm t" "raw_seconds t = s" using broken_down_ordinary [OF assms(1) _ t] assms(2) by simp_all
  have "gmtime_r s = Some (Inr t)" using assms t by (simp add: gmtime_r_def)
  moreover have "timegm t = Some (Inr (s, t))" using timegm_eq(1) [OF o(1)] by (simp add: o(2) t)
  ultimately show ?thesis using broken_down_valid [OF assms(1) t] by blast
qed

theorem gmtime_r_timegm_roundtrip_witness:
  "\<exists>t. gmtime_r 951782400 = Some (Inr t) \<and> valid_tm t \<and> civil_seconds t = 951782400 \<and>
    tm_wday t = 2 \<and> tm_yday t = civil_yday t \<and> timegm t = Some (Inr (951782400, t))"
  using gmtime_r_timegm_roundtrip [of 951782400] by simp

text \<open>Well-formed dates of the years 1900 to 1969, which the sum over the years since 1970 does not reach.\<close>

definition early_tm :: "tm \<Rightarrow> bool" where
  "early_tm t \<longleftrightarrow>
     0 \<le> tm_sec t \<and> tm_sec t < 60 \<and> 0 \<le> tm_min t \<and> tm_min t < 60 \<and> 0 \<le> tm_hour t \<and> tm_hour t < 24 \<and>
     0 \<le> tm_mon t \<and> tm_mon t < 12 \<and> 1 \<le> tm_mday t \<and> tm_mday t \<le> get_days_per_month_table (tm_year t + 1900) ! nat (tm_mon t) \<and>
     0 \<le> tm_year t \<and> tm_year t < 70"

lemma timegm_early:
  assumes "early_tm t"
  shows "timegm t = Some (Inr (civil_yday t * 86400 + tm_hour t * 3600 + tm_min t * 60 + tm_sec t,
    t\<lparr>tm_yday := civil_yday t, tm_wday := days_since_sunday (civil_yday t), tm_isdst := 0, tm_gmtoff := 0, tm_zone := UTC\<rparr>))"
proof -
  have t: "0 \<le> tm_sec t" "tm_sec t < 60" "0 \<le> tm_min t" "tm_min t < 60" "0 \<le> tm_hour t" "tm_hour t < 24" "0 \<le> tm_mon t" "tm_mon t < 12"
      "0 \<le> tm_year t" "tm_year t < 70" "1 \<le> tm_mday t" "tm_mday t \<le> get_days_per_month_table (tm_year t + 1900) ! nat (tm_mon t)"
    using assms by (auto simp: early_tm_def)
  have "tm_mday t \<le> 31" using t(12) month_table_int(2) [OF t(7,8), of "tm_year t + 1900"] by linarith
  moreover have "day_loop (tm_mday t - 1) (tm_mon t) (tm_year t + 1900) = Some (tm_mday t - 1, tm_mon t, tm_year t + 1900)"
    using t by (subst day_loop.simps) simp
  ultimately have "normalize t = Some (Inr t)"
    using t by (simp add: normalize_def ck32_def int32_ok_def carry_small)
  moreover have "sum_years EPOCH_YEAR (tm_year t + 1900) = 0" using t(10) by (subst sum_years.simps) (simp add: EPOCH_YEAR_def)
  moreover have "int32_ok (tm_hour t * 3600)" "int32_ok (tm_min t * 60)" using t by (auto simp: int32_ok_def)
  ultimately show ?thesis by (simp add: timegm_def seconds_of_def Let_def ck32_def civil_yday_def add.commute)
qed

text \<open>
  C6. \<open>timegm\<close> accepts fields outside their ranges: when they are at most $10^9$, the day of the month at least 1, the
  year at least 1970 and the others at least 0, it returns the number of seconds they denote together with the
  unique well-formed broken-down time of that instant, which is what \<open>gmtime_r\<close> computes for it.  For a
  well-formed date of the years 1900 to 1969 it counts from the start of that year instead of 1970, so
  the result is not negative.
\<close>

theorem timegm_normalises:
  shows "(ordinary_tm t \<longrightarrow> (\<exists>b. timegm t = Some (Inr (raw_seconds t, b)) \<and> valid_tm b \<and> civil_seconds b = raw_seconds t \<and>
      (raw_seconds t < 32500915200 \<longrightarrow> gmtime_r (raw_seconds t) = Some (Inr b)))) \<and>
    (early_tm t \<longrightarrow> (\<exists>b. timegm t = Some (Inr (civil_yday t * 86400 + tm_hour t * 3600 + tm_min t * 60 + tm_sec t, b))))"
proof (intro conjI impI)
  assume t: "ordinary_tm t"
  obtain b where b: "broken_down (raw_seconds t) 0 False UTC = Some b"
    using broken_down_total [OF timegm_eq(2) [OF t]] by blast
  then show "\<exists>b. timegm t = Some (Inr (raw_seconds t, b)) \<and> valid_tm b \<and> civil_seconds b = raw_seconds t \<and>
      (raw_seconds t < 32500915200 \<longrightarrow> gmtime_r (raw_seconds t) = Some (Inr b))"
    using timegm_eq [OF t] broken_down_valid(1,2) [OF timegm_eq(2) [OF t] b] by (simp add: gmtime_r_def)
qed (simp add: timegm_early)

definition feb_30 :: tm where
  "feb_30 = \<lparr>tm_sec = 75, tm_min = 59, tm_hour = 47, tm_mday = 30, tm_mon = 13, tm_year = 70,
     tm_wday = 0, tm_yday = 0, tm_isdst = 0, tm_gmtoff = 0, tm_zone = []\<rparr>"

definition new_year_1960 :: tm where
  "new_year_1960 = \<lparr>tm_sec = 0, tm_min = 0, tm_hour = 0, tm_mday = 1, tm_mon = 0, tm_year = 60,
     tm_wday = 0, tm_yday = 0, tm_isdst = 0, tm_gmtoff = 0, tm_zone = []\<rparr>"

theorem timegm_normalises_witness:
  "ordinary_tm feb_30 \<and>
   (\<exists>b. timegm feb_30 = Some (Inr (raw_seconds feb_30, b)) \<and> valid_tm b \<and> civil_seconds b = raw_seconds feb_30) \<and>
   (\<exists>b. timegm new_year_1960 = Some (Inr (0, b)))"
proof -
  have "ordinary_tm feb_30" by (simp add: ordinary_tm_def feb_30_def)
  moreover have "early_tm new_year_1960" "civil_yday new_year_1960 * 86400 + tm_hour new_year_1960 * 3600 + tm_min new_year_1960 * 60 +
      tm_sec new_year_1960 = 0" by code_simp+
  ultimately show ?thesis using timegm_normalises [of feb_30] timegm_normalises [of new_year_1960] by auto
qed

subsection \<open>Time zones\<close>

lemma mktime_eq:
  assumes "ordinary_tm t" and "tm_isdst t = 0 \<or> tm_isdst t = 1"
  obtains b where "broken_down (raw_seconds t) (tm_gmtoff t) (tm_isdst t = 1) (tm_zone t) = Some b"
    and "mktime ne tz t = (case tz of None \<Rightarrow> Some (Inr (raw_seconds t, b))
      | Some ptr \<Rightarrow> map_option (\<lambda>info. Inr (raw_seconds t - gmt_offset info,
            b\<lparr>tm_gmtoff := gmt_offset info, tm_zone := zone info\<rparr>)) (get_tz_data ne ptr (raw_seconds t)))"
proof -
  obtain n where n: "normalize t = Some (Inr n)" "valid_tm n" "civil_seconds n = raw_seconds t"
      "tm_isdst n = tm_isdst t" "tm_gmtoff n = tm_gmtoff t" "tm_zone n = tm_zone t"
    using normalize_correct [OF assms(1)] by blast
  let ?b = "n\<lparr>tm_wday := days_since_sunday (civil_days n), tm_yday := civil_yday n\<rparr>"
  have d: "n\<lparr>tm_isdst := if tm_isdst n > 0 then 1 else tm_isdst n\<rparr> = n" and nn: "\<not> tm_isdst n < 0"
    using assms(2) n(4) by auto
  have 1: "broken_down (raw_seconds t) (tm_gmtoff t) (tm_isdst t = 1) (tm_zone t) = Some ?b"
    unfolding n(3) [symmetric] broken_down_civil [OF n(2)] using assms(2) n(4-6) by auto
  have 2: "seconds_of n = Some (raw_seconds t, ?b)"
    using seconds_of_valid [OF n(2)] n(3) by simp
  show thesis
  proof (rule that [OF 1])
    show "mktime ne tz t = (case tz of None \<Rightarrow> Some (Inr (raw_seconds t, ?b))
      | Some ptr \<Rightarrow> map_option (\<lambda>info. Inr (raw_seconds t - gmt_offset info,
            ?b\<lparr>tm_gmtoff := gmt_offset info, tm_zone := zone info\<rparr>)) (get_tz_data ne ptr (raw_seconds t)))"
      unfolding mktime_def n(1) using nn
      by (cases tz) (simp_all add: d 2 map_option_case split: option.split)
  qed
qed

definition tz_times :: "(u32 \<Rightarrow> u32) \<Rightarrow> TzFile \<Rightarrow> int list \<Rightarrow> bool" where
  "tz_times ne ptr ts \<longleftrightarrow> length ts = unat (tzh_timecnt ptr) \<and>
     list_all (\<lambda>i. map_option (\<lambda>w. sint (ne w)) (load32 (tz_body ptr) (4 * i)) = Some (ts ! i)) [0..<length ts]"

definition tz_type :: "(u32 \<Rightarrow> u32) \<Rightarrow> TzFile \<Rightarrow> nat \<Rightarrow> TzData option" where
  "tz_type ne ptr k =
     do { info \<leftarrow> read_TtInfo ne (tz_body ptr) (unat (tzh_timecnt ptr) * 5 + k * 6);
          Some \<lparr>gmt_offset = tt_utoff info, is_dst = (tt_isdst info \<noteq> 0),
             zone = takeWhile (\<lambda>c. c \<noteq> 0)
               (drop (unat (tzh_timecnt ptr) * 5 + unat (tzh_typecnt ptr) * 6 + unat (tt_desigidx info))
                 (tz_body ptr))\<rparr> }"

lemma tz_times_nth:
  assumes "tz_times ne ptr ts" and "i < unat (tzh_timecnt ptr)"
  shows "\<exists>w. load32 (tz_body ptr) (4 * i) = Some w \<and> sint (ne w) = ts ! i"
  using assms by (auto simp: tz_times_def list_all_iff)

lemma find_transition_skip:
  assumes "tz_times ne ptr ts" and "i \<le> k" and "k \<le> unat (tzh_timecnt ptr)"
    and "\<And>j. 0 < j \<Longrightarrow> j < k \<Longrightarrow> ts ! j \<le> time"
  shows "find_transition ne (tz_body ptr) (unat (tzh_timecnt ptr)) time i =
    find_transition ne (tz_body ptr) (unat (tzh_timecnt ptr)) time k"
  using assms(2-4)
proof (induction "k - i" arbitrary: i)
  case (Suc n)
  have i: "i < unat (tzh_timecnt ptr)" "i < k" using Suc.hyps(2) Suc.prems(2) by linarith+
  from tz_times_nth [OF assms(1) i(1)] obtain w
    where w: "load32 (tz_body ptr) (4 * i) = Some w" "sint (ne w) = ts ! i" by blast
  have "\<not> (i \<noteq> 0 \<and> ts ! i > time)" using Suc.prems(3) [of i] i(2) by (cases "i = 0") auto
  then have "find_transition ne (tz_body ptr) (unat (tzh_timecnt ptr)) time i =
      find_transition ne (tz_body ptr) (unat (tzh_timecnt ptr)) time (i + 1)"
    using i(1) by (subst find_transition.simps) (auto simp: w Let_def)
  moreover have "find_transition ne (tz_body ptr) (unat (tzh_timecnt ptr)) time (i + 1) =
      find_transition ne (tz_body ptr) (unat (tzh_timecnt ptr)) time k"
    using Suc.hyps i(2) Suc.prems by (intro Suc.hyps(1)) auto
  ultimately show ?case by (rule trans)
qed simp

lemma find_transition_end:
  "find_transition ne body n time n = Some (- 1)"
  by (subst find_transition.simps) simp

lemma find_transition_hit:
  assumes "tz_times ne ptr ts" and "Suc k < unat (tzh_timecnt ptr)" and "time < ts ! Suc k"
    and "k < 2 ^ 31"
  shows "find_transition ne (tz_body ptr) (unat (tzh_timecnt ptr)) time (Suc k) = Some (int k)"
proof -
  have "sint (word_of_nat k :: u32) = int k"
    using assms(4) by (simp add: signed_of_nat signed_take_bit_int_eq_self)
  then show ?thesis using tz_times_nth [OF assms(1,2)] assms(2,3)
    by (subst find_transition.simps) (auto simp: Let_def)
qed

lemma get_tz_data_type:
  assumes "unat (tzh_timecnt ptr) < 2 ^ 29" and "tzh_typecnt ptr \<noteq> 0"
    and "find_transition ne (tz_body ptr) (unat (tzh_timecnt ptr)) time 0 = Some (- 1)"
  shows "get_tz_data ne ptr time = tz_type ne ptr 0"
proof -
  have "unat (tzh_timecnt ptr * 5) = unat (tzh_timecnt ptr) * 5"
    using assms(1) by (simp add: unat_word_ariths)
  then show ?thesis using assms(2,3) by (simp add: get_tz_data_def tz_type_def Let_def)
qed

lemma get_tz_data_indexed:
  assumes "unat (tzh_timecnt ptr) < 2 ^ 29" and "tzh_typecnt ptr \<noteq> 0"
    and "find_transition ne (tz_body ptr) (unat (tzh_timecnt ptr)) time 0 = Some (int k)"
    and "k < unat (tzh_timecnt ptr)" and "unat (tzh_timecnt ptr) * 4 + k < length (tz_body ptr)"
  shows "get_tz_data ne ptr time = tz_type ne ptr (unat (tz_body ptr ! (unat (tzh_timecnt ptr) * 4 + k)))"
proof -
  let ?n = "unat (tzh_timecnt ptr)"
  have n5: "unat (tzh_timecnt ptr * 5) = ?n * 5"
    using assms(1) by (simp add: unat_word_ariths)
  have "unat (tzh_timecnt ptr * 4 + word_of_nat k) = ?n * 4 + k"
    using assms(1,4) by (simp add: unat_word_ariths unsigned_of_nat take_bit_nat_eq_self)
  then have "index (tz_body ptr) (uint (tzh_timecnt ptr * 4 + word_of_nat k)) = Some (tz_body ptr ! (?n * 4 + k))"
    using assms(5) by (simp only: uint_nat index_def nat_int of_nat_0_le_iff of_nat_less_iff simp_thms if_True)
  then show ?thesis
    using assms(2,3) n5 by (simp add: get_tz_data_def tz_type_def Let_def)
qed

text \<open>
  C19. The time zone lookup \<open>get_tz_data\<close> selects, for a time between two transitions of the zone
  file, the type of the last transition that is not after it.  For a time at or after the last
  transition it does not use that transition's type: it falls back to the first type of the file.
\<close>

theorem get_tz_data_selects_transition:
  assumes "tz_times ne ptr ts" and "tzh_typecnt ptr \<noteq> 0" and "unat (tzh_timecnt ptr) < 2 ^ 29"
    and "unat (tzh_timecnt ptr) * 5 \<le> length (tz_body ptr)" and "sorted ts"
  shows "(Suc k < length ts \<and> ts ! k \<le> time \<and> time < ts ! Suc k \<longrightarrow>
           get_tz_data ne ptr time = tz_type ne ptr (unat (tz_body ptr ! (length ts * 4 + k)))) \<and>
         (ts \<noteq> [] \<and> last ts \<le> time \<longrightarrow> get_tz_data ne ptr time = tz_type ne ptr 0)"
proof (intro conjI impI)
  have n: "length ts = unat (tzh_timecnt ptr)" using assms(1) by (simp add: tz_times_def)
  {
    assume k: "Suc k < length ts \<and> ts ! k \<le> time \<and> time < ts ! Suc k"
    have "ts ! j \<le> time" if "j < Suc k" for j
      using sorted_nth_mono [OF assms(5), of j k] k that by auto
    then have "find_transition ne (tz_body ptr) (unat (tzh_timecnt ptr)) time 0 = Some (int k)"
      using find_transition_skip [OF assms(1), of 0 "Suc k" time] find_transition_hit [OF assms(1), of k time]
        k n assms(3) by simp
    then show "get_tz_data ne ptr time = tz_type ne ptr (unat (tz_body ptr ! (length ts * 4 + k)))"
      using get_tz_data_indexed [OF assms(3,2)] k n assms(4) by simp
  }
  {
    assume l: "ts \<noteq> [] \<and> last ts \<le> time"
    have "ts ! j \<le> time" if "j < length ts" for j
    proof -
      have "ts ! j \<le> ts ! (length ts - 1)" using that by (intro sorted_nth_mono [OF assms(5)]) auto
      also have "ts ! (length ts - 1) = last ts" using l by (simp add: last_conv_nth)
      finally show ?thesis using l by simp
    qed
    then have "find_transition ne (tz_body ptr) (unat (tzh_timecnt ptr)) time 0 = Some (- 1)"
      using find_transition_skip [OF assms(1), of 0 "unat (tzh_timecnt ptr)" time] n
      by (simp add: find_transition_end)
    then show "get_tz_data ne ptr time = tz_type ne ptr 0" by (rule get_tz_data_type [OF assms(3,2)])
  }
qed

definition bswap32 :: "u32 \<Rightarrow> u32" where
  "bswap32 w = push_bit 24 w OR push_bit 8 (w AND 0xFF00) OR drop_bit 8 (w AND 0xFF0000) OR drop_bit 24 w"

text \<open>A zone with transitions at 0, 100000 and 200000, alternating between the offsets 3600 and 7200.\<close>

definition two_offsets :: TzFile where
  "two_offsets = \<lparr>magic = [0x54, 0x5A, 0x69, 0x66], version = 0, reserved = replicate 15 0,
     tzh_ttisutcnt = 0, tzh_ttisstdcnt = 0, tzh_leapcnt = 0, tzh_timecnt = 3, tzh_typecnt = 2,
     tzh_charcnt = 4,
     tz_body = [0, 0, 0, 0, 0, 1, 0x86, 0xA0, 0, 3, 0x0D, 0x40, 0, 1, 1,
                0, 0, 0x0E, 0x10, 0, 0, 0, 0, 0x1C, 0x20, 1, 0, 69, 69, 84, 0]\<rparr>"

lemma two_offsets_times: "tz_times bswap32 two_offsets [0, 100000, 200000]"
  by code_simp

theorem get_tz_data_selects_transition_witness:
  "get_tz_data bswap32 two_offsets 150000 = tz_type bswap32 two_offsets 1 \<and>
   get_tz_data bswap32 two_offsets 250000 = tz_type bswap32 two_offsets 0 \<and>
   tz_type bswap32 two_offsets 0 \<noteq> tz_type bswap32 two_offsets 1"
proof -
  have h: "tzh_typecnt two_offsets \<noteq> 0" "unat (tzh_timecnt two_offsets) < 2 ^ 29"
    "unat (tzh_timecnt two_offsets) * 5 \<le> length (tz_body two_offsets)"
    "sorted [0, 100000, 200000 :: int]"
    by (simp_all add: two_offsets_def)
  note sel = get_tz_data_selects_transition [OF two_offsets_times h]
  have "unat (tz_body two_offsets ! (length [0, 100000, 200000 :: int] * 4 + 1)) = 1" by code_simp
  then show ?thesis using sel [of 1 150000] sel [of 1 250000] by (simp, code_simp)
qed

lemma get_tz_data_offset:
  assumes "get_tz_data ne ptr time = Some info"
  shows "gmt_offset info < 2 ^ 31"
proof -
  have "sint w < 2 ^ 31" for w :: u32 using sint_lt [of w] by simp
  then show ?thesis using assms
    by (auto simp: get_tz_data_def read_TtInfo_def Let_def bind_eq_Some_conv split: if_splits)
qed

text \<open>
  C16. A local time maps back: \<open>mktime\<close> of the result of \<open>localtime_r\<close> is the original time
  stamp with the broken-down time unchanged, both without zone data and for a zone whose data
  gives the same answer for the time stamp and for the time stamp shifted by its offset.
\<close>

theorem mktime_localtime_r_roundtrip:
  assumes "0 \<le> s" and "s < 32500915200"
    and "tz = None \<or> tz = Some ptr \<and> get_tz_data ne ptr s = Some info \<and> 0 \<le> s + gmt_offset info \<and>
           get_tz_data ne ptr (s + gmt_offset info) = Some info"
  shows "\<exists>t. localtime_r ne tz s = Some (Inr t) \<and> valid_tm t \<and> mktime ne tz t = Some (Inr (s, t))"
proof -
  define off dst zn where "off = (case tz of None \<Rightarrow> 0 | Some _ \<Rightarrow> gmt_offset info)"
    and "dst = (case tz of None \<Rightarrow> False | Some _ \<Rightarrow> is_dst info)"
    and "zn = (case tz of None \<Rightarrow> UTC | Some _ \<Rightarrow> zone info)"
  have range: "0 \<le> s + off" "s + off < 40000000000"
    using assms get_tz_data_offset [of ne ptr s info] by (auto simp: off_def)
  obtain t where t: "broken_down (s + off) off dst zn = Some t"
    using broken_down_total [OF range(1)] by blast
  note v = broken_down_valid [OF range(1) t]
  note o = broken_down_ordinary [OF range t]
  have "tm_isdst t = 0 \<or> tm_isdst t = 1" by (simp add: v(5))
  then obtain b where b: "broken_down (raw_seconds t) (tm_gmtoff t) (tm_isdst t = 1) (tm_zone t) = Some b"
    "mktime ne tz t = (case tz of None \<Rightarrow> Some (Inr (raw_seconds t, b))
      | Some ptr \<Rightarrow> map_option (\<lambda>info. Inr (raw_seconds t - gmt_offset info,
            b\<lparr>tm_gmtoff := gmt_offset info, tm_zone := zone info\<rparr>)) (get_tz_data ne ptr (raw_seconds t)))"
    by (rule mktime_eq [OF o(1)])
  have bt: "b = t" using b(1) t v(5-7) by (simp add: o(2) split: if_splits)
  have "localtime_r ne tz s = Some (Inr t)"
    using assms t by (auto simp: localtime_r_def off_def dst_def zn_def)
  moreover have "mktime ne tz t = Some (Inr (s, t))"
    using assms(3) b(2) v(6,7) unfolding bt o(2) by (auto simp: off_def zn_def)
  ultimately show ?thesis using v(1) by blast
qed

theorem mktime_localtime_r_roundtrip_witness:
  "\<exists>t. localtime_r bswap32 (Some two_offsets) 150000 = Some (Inr t) \<and> valid_tm t \<and>
     mktime bswap32 (Some two_offsets) t = Some (Inr (150000, t))"
proof (rule mktime_localtime_r_roundtrip)
  show "Some two_offsets = None \<or> Some two_offsets = Some two_offsets \<and>
      get_tz_data bswap32 two_offsets 150000 = Some \<lparr>gmt_offset = 7200, is_dst = True, zone = [69, 69, 84]\<rparr> \<and>
      0 \<le> 150000 + gmt_offset \<lparr>gmt_offset = 7200, is_dst = True, zone = [69, 69, 84]\<rparr> \<and>
      get_tz_data bswap32 two_offsets (150000 + gmt_offset \<lparr>gmt_offset = 7200, is_dst = True, zone = [69, 69, 84]\<rparr>) =
        Some \<lparr>gmt_offset = 7200, is_dst = True, zone = [69, 69, 84]\<rparr>"
    by code_simp
qed simp_all

text \<open>
  Near a transition the round trip fails: \<open>mktime\<close> looks up the offset of the local time as if
  it were a time stamp.  Less than an hour before the change from the offset 3600 to the offset
  7200, the result of \<open>localtime_r\<close> is mapped to a time an hour earlier.
\<close>

theorem mktime_wrong_before_transition:
  "map_option (map_sum id (mktime bswap32 (Some two_offsets))) (localtime_r bswap32 (Some two_offsets) 97000) =
   Some (Inr (Some (Inr (93400, \<lparr>tm_sec = 40, tm_min = 56, tm_hour = 3, tm_mday = 2, tm_mon = 0, tm_year = 70,
     tm_wday = 5, tm_yday = 1, tm_isdst = 0, tm_gmtoff = 7200, tm_zone = [69, 69, 84]\<rparr>))))"
  by code_simp

text \<open>
  Before the epoch \<open>gmtime_r\<close> succeeds with fields outside their ranges: one second before
  1970 it reports second \<open>- 1\<close> of the first of January 1970, and one day before it
  reports day 0 of that month.
\<close>

theorem gmtime_r_before_epoch:
  "map_option (map_sum id (\<lambda>t. (tm_sec t, tm_mday t, tm_year t, valid_tm t))) (gmtime_r (- 1)) =
     Some (Inr (- 1, 1, 70, False)) \<and>
   map_option (map_sum id (\<lambda>t. (tm_sec t, tm_mday t, tm_year t, valid_tm t))) (gmtime_r (- 86400)) =
     Some (Inr (0, 0, 70, False))"
  by code_simp

end
