(* ===== verification/Cmem.thy ===== *)
theory Cmem
  imports Hz_Prelude
begin

text \<open>
  The memory the C functions work on: a partial map from addresses to cells.  The cells are
  bytes (\<open>u8\<close>) for the \<open>char\<close> functions and \<open>u32\<close> for the \<open>wchar_t\<close> functions,
  where an address counts \<open>wchar_t\<close> elements.  A read or write of an unmapped address is
  undefined behaviour, \<open>None\<close>.

  \<open>cells_at m a xs\<close> says that \<open>xs\<close> lies at \<open>a\<close>, \<open>zstr_at m a s\<close> that a
  zero-terminated string with contents \<open>s\<close> does, \<open>mapped m a n\<close> that \<open>n\<close> cells
  from \<open>a\<close> are accessible, and \<open>put m a xs\<close> is the memory after \<open>xs\<close> was written
  at \<open>a\<close>: the abstract effect of the copying functions.
\<close>

type_synonym 'a mem = "nat \<Rightarrow> 'a option"

definition store :: "'a mem \<Rightarrow> nat \<Rightarrow> 'a \<Rightarrow> 'a mem option" where
  "store m a v = (case m a of None \<Rightarrow> None | Some _ \<Rightarrow> Some (m(a \<mapsto> v)))"

primrec cells_at :: "'a mem \<Rightarrow> nat \<Rightarrow> 'a list \<Rightarrow> bool" where
  "cells_at m a [] = True"
| "cells_at m a (x # xs) = (m a = Some x \<and> cells_at m (Suc a) xs)"

definition zstr_at :: "('a::zero) mem \<Rightarrow> nat \<Rightarrow> 'a list \<Rightarrow> bool" where
  "zstr_at m a s \<longleftrightarrow> 0 \<notin> set s \<and> cells_at m a (s @ [0])"

definition mapped :: "'a mem \<Rightarrow> nat \<Rightarrow> nat \<Rightarrow> bool" where
  "mapped m a n \<longleftrightarrow> (\<forall>i<n. m (a + i) \<noteq> None)"

definition put :: "'a mem \<Rightarrow> nat \<Rightarrow> 'a list \<Rightarrow> 'a mem" where
  "put m a xs = (\<lambda>b. if a \<le> b \<and> b < a + length xs then Some (xs ! (b - a)) else m b)"

definition disjoint_ranges :: "nat \<Rightarrow> nat \<Rightarrow> nat \<Rightarrow> nat \<Rightarrow> bool" where
  "disjoint_ranges a n b k \<longleftrightarrow> a + n \<le> b \<or> b + k \<le> a"

text \<open>The memory that holds exactly a given list of cells.\<close>

definition mem_of :: "nat \<Rightarrow> 'a list \<Rightarrow> 'a mem" where
  "mem_of a xs = put Map.empty a xs"

subsection \<open>Stores\<close>

lemma store_mapped [simp]: "m a \<noteq> None \<Longrightarrow> store m a v = Some (m(a \<mapsto> v))"
  by (auto simp: store_def)

lemma store_Some_iff: "store m a v = Some m' \<longleftrightarrow> m a \<noteq> None \<and> m' = m(a \<mapsto> v)"
  by (auto simp: store_def split: option.splits)

lemma mapped_0 [simp]: "mapped m a 0"
  by (simp add: mapped_def)

lemma mapped_Suc: "mapped m a (Suc n) \<longleftrightarrow> m a \<noteq> None \<and> mapped m (Suc a) n"
  by (auto simp: mapped_def less_Suc_eq_0_disj)

lemma mapped_upd [intro]: "mapped m a n \<Longrightarrow> mapped (m(b \<mapsto> v)) a n"
  by (auto simp: mapped_def)

lemma mapped_mono: "mapped m a n \<Longrightarrow> k \<le> n \<Longrightarrow> mapped m a k"
  by (auto simp: mapped_def)

lemma mapped_shift: "mapped m a n \<Longrightarrow> i + k \<le> n \<Longrightarrow> mapped m (a + i) k"
  by (auto simp: mapped_def add.assoc)

subsection \<open>Ranges of cells\<close>

lemma cells_at_nth: "cells_at m a xs \<longleftrightarrow> (\<forall>i<length xs. m (a + i) = Some (xs ! i))"
  by (induction xs arbitrary: a) (auto simp: less_Suc_eq_0_disj nth_Cons')

lemma cells_at_append:
  "cells_at m a (xs @ ys) \<longleftrightarrow> cells_at m a xs \<and> cells_at m (a + length xs) ys"
  by (induction xs arbitrary: a) auto

lemma cells_at_mapped: "cells_at m a xs \<Longrightarrow> mapped m a (length xs)"
  by (auto simp: cells_at_nth mapped_def)

lemma cells_at_unique: "cells_at m a xs \<Longrightarrow> cells_at m a ys \<Longrightarrow> length xs = length ys \<Longrightarrow> xs = ys"
  by (auto simp: cells_at_nth list_eq_iff_nth_eq)

lemma mapped_cells_at: "mapped m a n \<Longrightarrow> \<exists>xs. length xs = n \<and> cells_at m a xs"
proof (induction n arbitrary: a)
  case (Suc n)
  then obtain x where "m a = Some x" by (auto simp: mapped_Suc)
  moreover from Suc obtain xs where "length xs = n" "cells_at m (Suc a) xs"
    by (auto simp: mapped_Suc)
  ultimately have "length (x # xs) = Suc n \<and> cells_at m a (x # xs)" by simp
  then show ?case by blast
qed simp

lemma cells_at_take: "cells_at m a xs \<Longrightarrow> cells_at m a (take n xs)"
  by (simp add: cells_at_nth)

lemma cells_at_upd_outside:
  "b < a \<or> a + length xs \<le> b \<Longrightarrow> cells_at (m(b \<mapsto> v)) a xs = cells_at m a xs"
  by (induction xs arbitrary: a) auto

subsection \<open>Writing a list of cells\<close>

lemma put_Nil [simp, c_mem]: "put m a [] = m"
  by (rule ext) (auto simp: put_def)

lemma put_Cons [c_mem]: "put m a (x # xs) = put (m(a \<mapsto> x)) (Suc a) xs"
proof
  fix b
  have "a < b \<Longrightarrow> b - a = Suc (b - Suc a)" by simp
  then show "put m a (x # xs) b = put (m(a \<mapsto> x)) (Suc a) xs b"
    by (cases b a rule: linorder_cases) (simp_all add: put_def)
qed

lemma put_append [c_mem]: "put m a (xs @ ys) = put (put m a xs) (a + length xs) ys"
  by (induction xs arbitrary: m a) (simp_all add: put_Cons)

lemma put_snoc: "put m a (xs @ [x]) = (put m a xs)(a + length xs \<mapsto> x)"
  by (simp add: put_append put_Cons)

lemma put_outside: "b < a \<or> a + length xs \<le> b \<Longrightarrow> put m a xs b = m b"
  by (auto simp: put_def)

lemma put_inside: "i < length xs \<Longrightarrow> put m a xs (a + i) = Some (xs ! i)"
  by (simp add: put_def)

lemma mapped_put [intro]: "mapped m b n \<Longrightarrow> mapped (put m a xs) b n"
  by (auto simp: mapped_def put_def)

lemma cells_at_put: "cells_at (put m a xs) a xs"
  by (simp add: cells_at_nth put_def)

lemma cells_at_put_disjoint:
  assumes "disjoint_ranges a (length xs) b (length ys)"
  shows "cells_at (put m a xs) b ys = cells_at m b ys"
proof -
  have "i < length ys \<Longrightarrow> put m a xs (b + i) = m (b + i)" for i
    using assms by (intro put_outside) (auto simp: disjoint_ranges_def)
  then show ?thesis by (simp add: cells_at_nth)
qed

lemma put_same: "cells_at m a xs \<Longrightarrow> put m a xs = m"
  by (induction xs arbitrary: a) (simp_all add: put_Cons fun_upd_idem)

lemma put_put_upd_first:
  "length xs = n \<Longrightarrow> put (m(a + n \<mapsto> x)) a xs = (put m a xs)(a + n \<mapsto> x)"
  by (rule ext) (simp add: put_def)

subsection \<open>Zero-terminated strings\<close>

lemma zstr_at_Nil [simp]: "zstr_at m a [] \<longleftrightarrow> m a = Some 0"
  by (simp add: zstr_at_def)

lemma zstr_at_Cons [simp]:
  "zstr_at m a (x # xs) \<longleftrightarrow> x \<noteq> 0 \<and> m a = Some x \<and> zstr_at m (Suc a) xs"
  by (auto simp: zstr_at_def)

lemma zstr_at_append:
  "zstr_at m a (xs @ ys) \<longleftrightarrow> 0 \<notin> set xs \<and> cells_at m a xs \<and> zstr_at m (a + length xs) ys"
  by (auto simp: zstr_at_def cells_at_append)

lemma zstr_at_unique: "zstr_at m a xs \<Longrightarrow> zstr_at m a ys \<Longrightarrow> xs = ys"
proof (induction xs arbitrary: a ys)
  case Nil
  then show ?case by (cases ys) auto
next
  case (Cons x xs)
  then show ?case by (cases ys) auto
qed

lemma zstr_at_drop: "zstr_at m a s \<Longrightarrow> n \<le> length s \<Longrightarrow> zstr_at m (a + n) (drop n s)"
  using zstr_at_append [of m a "take n s" "drop n s"] by (simp add: min_absorb2)

lemma zstr_at_mapped: "zstr_at m a s \<Longrightarrow> mapped m a (Suc (length s))"
  using cells_at_mapped [of m a "s @ [0]"] by (simp add: zstr_at_def)

lemma zstr_at_nonzero: "zstr_at m a s \<Longrightarrow> 0 \<notin> set s"
  by (simp add: zstr_at_def)

lemma zstr_at_cells: "zstr_at m a s \<Longrightarrow> cells_at m a (s @ [0])"
  by (simp add: zstr_at_def)

lemma zstr_at_nth:
  "zstr_at m a s \<Longrightarrow> i \<le> length s \<Longrightarrow> m (a + i) = Some ((s @ [0]) ! i)"
  by (auto simp: zstr_at_def cells_at_nth)

lemma zstr_at_put: "0 \<notin> set s \<Longrightarrow> zstr_at (put m a (s @ [0])) a s"
  using cells_at_put [of m a "s @ [0]"] by (simp add: zstr_at_def)

lemma cells_at_mem_of [simp]: "cells_at (mem_of a xs) a xs"
  by (simp add: mem_of_def cells_at_put)

lemma mem_of_simp: "mem_of a xs b = (if a \<le> b \<and> b < a + length xs then Some (xs ! (b - a)) else None)"
  by (simp add: mem_of_def put_def)

end
