(* ===== verification/Ctype.thy ===== *)
theory Ctype
  imports Hz_Prelude
begin

unbundle bit_operations_syntax

text \<open>
  The character classes: the tables of \<^verbatim>\<open>src/internal/ctype.cpp\<close> (entry by entry, 64
  entries to a definition), the class bits of \<^verbatim>\<open>include/ctype.h\<close>, the twelve \<open>is...\<close>
  functions and the two case mappings of \<^verbatim>\<open>src/ansi/ctype.cpp\<close>.  The tables start at
  index -128, so that a signed \<open>char\<close> can index them; an index outside -128..255 reads
  past the array and has no defined result.

  The lemmas compare every table entry with the ASCII classes of the C locale.  The
  locale \<open>ctype_classes\<close> is the interface the parsing and comparing functions of the
  library rely on.
\<close>

subsection \<open>Class bits\<close>

definition ISupper :: u16 where "ISupper = push_bit 8 1"
definition ISlower :: u16 where "ISlower = push_bit 9 1"
definition ISalpha :: u16 where "ISalpha = push_bit 10 1"
definition ISdigit :: u16 where "ISdigit = push_bit 11 1"
definition ISxdigit :: u16 where "ISxdigit = push_bit 12 1"
definition ISspace :: u16 where "ISspace = push_bit 13 1"
definition ISprint :: u16 where "ISprint = push_bit 14 1"
definition ISgraph :: u16 where "ISgraph = push_bit 15 1"
definition ISblank :: u16 where "ISblank = push_bit 0 1"
definition IScntrl :: u16 where "IScntrl = push_bit 1 1"
definition ISpunct :: u16 where "ISpunct = push_bit 2 1"
definition ISalnum :: u16 where "ISalnum = push_bit 3 1"

lemmas IS_defs =
  ISupper_def ISlower_def ISalpha_def ISdigit_def ISxdigit_def ISspace_def ISprint_def ISgraph_def ISblank_def IScntrl_def ISpunct_def ISalnum_def

subsection \<open>Tables\<close>

definition CTYPE_B_ARRAY_0 :: "u16 list" where
  "CTYPE_B_ARRAY_0 = [
    0, 0, 0, 0,
    0, 0, 0, 0,
    0, 0, 0, 0,
    0, 0, 0, 0,
    0, 0, 0, 0,
    0, 0, 0, 0,
    0, 0, 0, 0,
    0, 0, 0, 0,
    0, 0, 0, 0,
    0, 0, 0, 0,
    0, 0, 0, 0,
    0, 0, 0, 0,
    0, 0, 0, 0,
    0, 0, 0, 0,
    0, 0, 0, 0,
    0, 0, 0, 0]"

definition CTYPE_B_ARRAY_1 :: "u16 list" where
  "CTYPE_B_ARRAY_1 = [
    0, 0, 0, 0,
    0, 0, 0, 0,
    0, 0, 0, 0,
    0, 0, 0, 0,
    0, 0, 0, 0,
    0, 0, 0, 0,
    0, 0, 0, 0,
    0, 0, 0, 0,
    0, 0, 0, 0,
    0, 0, 0, 0,
    0, 0, 0, 0,
    0, 0, 0, 0,
    0, 0, 0, 0,
    0, 0, 0, 0,
    0, 0, 0, 0,
    0, 0, 0, 0]"

definition CTYPE_B_ARRAY_2 :: "u16 list" where
  "CTYPE_B_ARRAY_2 = [
    IScntrl, IScntrl, IScntrl, IScntrl,
    IScntrl, IScntrl, IScntrl, IScntrl,
    IScntrl, ISspace OR ISblank OR IScntrl, ISspace OR IScntrl, ISspace OR IScntrl,
    ISspace OR IScntrl, ISspace OR IScntrl, IScntrl, IScntrl,
    IScntrl, IScntrl, IScntrl, IScntrl,
    IScntrl, IScntrl, IScntrl, IScntrl,
    IScntrl, IScntrl, IScntrl, IScntrl,
    IScntrl, IScntrl, IScntrl, IScntrl,
    ISspace OR ISprint OR ISblank, ISprint OR ISgraph OR ISpunct, ISprint OR ISgraph OR ISpunct, ISprint OR ISgraph OR ISpunct,
    ISprint OR ISgraph OR ISpunct, ISprint OR ISgraph OR ISpunct, ISprint OR ISgraph OR ISpunct, ISprint OR ISgraph OR ISpunct,
    ISprint OR ISgraph OR ISpunct, ISprint OR ISgraph OR ISpunct, ISprint OR ISgraph OR ISpunct, ISprint OR ISgraph OR ISpunct,
    ISprint OR ISgraph OR ISpunct, ISprint OR ISgraph OR ISpunct, ISprint OR ISgraph OR ISpunct, ISprint OR ISgraph OR ISpunct,
    ISdigit OR ISxdigit OR ISprint OR ISgraph OR ISalnum, ISdigit OR ISxdigit OR ISprint OR ISgraph OR ISalnum, ISdigit OR ISxdigit OR ISprint OR ISgraph OR ISalnum, ISdigit OR ISxdigit OR ISprint OR ISgraph OR ISalnum,
    ISdigit OR ISxdigit OR ISprint OR ISgraph OR ISalnum, ISdigit OR ISxdigit OR ISprint OR ISgraph OR ISalnum, ISdigit OR ISxdigit OR ISprint OR ISgraph OR ISalnum, ISdigit OR ISxdigit OR ISprint OR ISgraph OR ISalnum,
    ISdigit OR ISxdigit OR ISprint OR ISgraph OR ISalnum, ISdigit OR ISxdigit OR ISprint OR ISgraph OR ISalnum, ISprint OR ISgraph OR ISpunct, ISprint OR ISgraph OR ISpunct,
    ISprint OR ISgraph OR ISpunct, ISprint OR ISgraph OR ISpunct, ISprint OR ISgraph OR ISpunct, ISprint OR ISgraph OR ISpunct]"

definition CTYPE_B_ARRAY_3 :: "u16 list" where
  "CTYPE_B_ARRAY_3 = [
    ISprint OR ISgraph OR ISpunct, ISupper OR ISalpha OR ISxdigit OR ISprint OR ISgraph OR ISalnum, ISupper OR ISalpha OR ISxdigit OR ISprint OR ISgraph OR ISalnum, ISupper OR ISalpha OR ISxdigit OR ISprint OR ISgraph OR ISalnum,
    ISupper OR ISalpha OR ISxdigit OR ISprint OR ISgraph OR ISalnum, ISupper OR ISalpha OR ISxdigit OR ISprint OR ISgraph OR ISalnum, ISupper OR ISalpha OR ISxdigit OR ISprint OR ISgraph OR ISalnum, ISupper OR ISalpha OR ISprint OR ISgraph OR ISalnum,
    ISupper OR ISalpha OR ISprint OR ISgraph OR ISalnum, ISupper OR ISalpha OR ISprint OR ISgraph OR ISalnum, ISupper OR ISalpha OR ISprint OR ISgraph OR ISalnum, ISupper OR ISalpha OR ISprint OR ISgraph OR ISalnum,
    ISupper OR ISalpha OR ISprint OR ISgraph OR ISalnum, ISupper OR ISalpha OR ISprint OR ISgraph OR ISalnum, ISupper OR ISalpha OR ISprint OR ISgraph OR ISalnum, ISupper OR ISalpha OR ISprint OR ISgraph OR ISalnum,
    ISupper OR ISalpha OR ISprint OR ISgraph OR ISalnum, ISupper OR ISalpha OR ISprint OR ISgraph OR ISalnum, ISupper OR ISalpha OR ISprint OR ISgraph OR ISalnum, ISupper OR ISalpha OR ISprint OR ISgraph OR ISalnum,
    ISupper OR ISalpha OR ISprint OR ISgraph OR ISalnum, ISupper OR ISalpha OR ISprint OR ISgraph OR ISalnum, ISupper OR ISalpha OR ISprint OR ISgraph OR ISalnum, ISupper OR ISalpha OR ISprint OR ISgraph OR ISalnum,
    ISupper OR ISalpha OR ISprint OR ISgraph OR ISalnum, ISupper OR ISalpha OR ISprint OR ISgraph OR ISalnum, ISupper OR ISalpha OR ISprint OR ISgraph OR ISalnum, ISprint OR ISgraph OR ISpunct,
    ISprint OR ISgraph OR ISpunct, ISprint OR ISgraph OR ISpunct, ISprint OR ISgraph OR ISpunct, ISprint OR ISgraph OR ISpunct,
    ISprint OR ISgraph OR ISpunct, ISlower OR ISalpha OR ISxdigit OR ISprint OR ISgraph OR ISalnum, ISlower OR ISalpha OR ISxdigit OR ISprint OR ISgraph OR ISalnum, ISlower OR ISalpha OR ISxdigit OR ISprint OR ISgraph OR ISalnum,
    ISlower OR ISalpha OR ISxdigit OR ISprint OR ISgraph OR ISalnum, ISlower OR ISalpha OR ISxdigit OR ISprint OR ISgraph OR ISalnum, ISlower OR ISalpha OR ISxdigit OR ISprint OR ISgraph OR ISalnum, ISlower OR ISalpha OR ISprint OR ISgraph OR ISalnum,
    ISlower OR ISalpha OR ISprint OR ISgraph OR ISalnum, ISlower OR ISalpha OR ISprint OR ISgraph OR ISalnum, ISlower OR ISalpha OR ISprint OR ISgraph OR ISalnum, ISlower OR ISalpha OR ISprint OR ISgraph OR ISalnum,
    ISlower OR ISalpha OR ISprint OR ISgraph OR ISalnum, ISlower OR ISalpha OR ISprint OR ISgraph OR ISalnum, ISlower OR ISalpha OR ISprint OR ISgraph OR ISalnum, ISlower OR ISalpha OR ISprint OR ISgraph OR ISalnum,
    ISlower OR ISalpha OR ISprint OR ISgraph OR ISalnum, ISlower OR ISalpha OR ISprint OR ISgraph OR ISalnum, ISlower OR ISalpha OR ISprint OR ISgraph OR ISalnum, ISlower OR ISalpha OR ISprint OR ISgraph OR ISalnum,
    ISlower OR ISalpha OR ISprint OR ISgraph OR ISalnum, ISlower OR ISalpha OR ISprint OR ISgraph OR ISalnum, ISlower OR ISalpha OR ISprint OR ISgraph OR ISalnum, ISlower OR ISalpha OR ISprint OR ISgraph OR ISalnum,
    ISlower OR ISalpha OR ISprint OR ISgraph OR ISalnum, ISlower OR ISalpha OR ISprint OR ISgraph OR ISalnum, ISlower OR ISalpha OR ISprint OR ISgraph OR ISalnum, ISprint OR ISgraph OR ISpunct,
    ISprint OR ISgraph OR ISpunct, ISprint OR ISgraph OR ISpunct, ISprint OR ISgraph OR ISpunct, IScntrl]"

definition CTYPE_B_ARRAY_4 :: "u16 list" where
  "CTYPE_B_ARRAY_4 = [
    0, 0, 0, 0,
    0, 0, 0, 0,
    0, 0, 0, 0,
    0, 0, 0, 0,
    0, 0, 0, 0,
    0, 0, 0, 0,
    0, 0, 0, 0,
    0, 0, 0, 0,
    0, 0, 0, 0,
    0, 0, 0, 0,
    0, 0, 0, 0,
    0, 0, 0, 0,
    0, 0, 0, 0,
    0, 0, 0, 0,
    0, 0, 0, 0,
    0, 0, 0, 0]"

definition CTYPE_B_ARRAY_5 :: "u16 list" where
  "CTYPE_B_ARRAY_5 = [
    0, 0, 0, 0,
    0, 0, 0, 0,
    0, 0, 0, 0,
    0, 0, 0, 0,
    0, 0, 0, 0,
    0, 0, 0, 0,
    0, 0, 0, 0,
    0, 0, 0, 0,
    0, 0, 0, 0,
    0, 0, 0, 0,
    0, 0, 0, 0,
    0, 0, 0, 0,
    0, 0, 0, 0,
    0, 0, 0, 0,
    0, 0, 0, 0,
    0, 0, 0, 0]"

definition CTYPE_B_ARRAY :: "u16 list" where
  "CTYPE_B_ARRAY = CTYPE_B_ARRAY_0 @ CTYPE_B_ARRAY_1 @ CTYPE_B_ARRAY_2 @ CTYPE_B_ARRAY_3 @ CTYPE_B_ARRAY_4 @ CTYPE_B_ARRAY_5"

lemmas CTYPE_B_ARRAY_defs = CTYPE_B_ARRAY_def CTYPE_B_ARRAY_0_def CTYPE_B_ARRAY_1_def CTYPE_B_ARRAY_2_def CTYPE_B_ARRAY_3_def CTYPE_B_ARRAY_4_def CTYPE_B_ARRAY_5_def

definition CTYPE_TOUPPER_ARRAY_0 :: "int list" where
  "CTYPE_TOUPPER_ARRAY_0 = [
    128, 129, 130, 131, 132, 133, 134, 135,
    136, 137, 138, 139, 140, 141, 142, 143,
    144, 145, 146, 147, 148, 149, 150, 151,
    152, 153, 154, 155, 156, 157, 158, 159,
    160, 161, 162, 163, 164, 165, 166, 167,
    168, 169, 170, 171, 172, 173, 174, 175,
    176, 177, 178, 179, 180, 181, 182, 183,
    184, 185, 186, 187, 188, 189, 190, 191]"

definition CTYPE_TOUPPER_ARRAY_1 :: "int list" where
  "CTYPE_TOUPPER_ARRAY_1 = [
    192, 193, 194, 195, 196, 197, 198, 199,
    200, 201, 202, 203, 204, 205, 206, 207,
    208, 209, 210, 211, 212, 213, 214, 215,
    216, 217, 218, 219, 220, 221, 222, 223,
    224, 225, 226, 227, 228, 229, 230, 231,
    232, 233, 234, 235, 236, 237, 238, 239,
    240, 241, 242, 243, 244, 245, 246, 247,
    248, 249, 250, 251, 252, 253, 254, -1]"

definition CTYPE_TOUPPER_ARRAY_2 :: "int list" where
  "CTYPE_TOUPPER_ARRAY_2 = [
    0, 1, 2, 3, 4, 5, 6, 7,
    8, 9, 10, 11, 12, 13, 14, 15,
    16, 17, 18, 19, 20, 21, 22, 23,
    24, 25, 26, 27, 28, 29, 30, 31,
    32, 33, 34, 35, 36, 37, 38, 39,
    40, 41, 42, 43, 44, 45, 46, 47,
    48, 49, 50, 51, 52, 53, 54, 55,
    56, 57, 58, 59, 60, 61, 62, 63]"

definition CTYPE_TOUPPER_ARRAY_3 :: "int list" where
  "CTYPE_TOUPPER_ARRAY_3 = [
    64, 65, 66, 67, 68, 69, 70, 71,
    72, 73, 74, 75, 76, 77, 78, 79,
    80, 81, 82, 83, 84, 85, 86, 87,
    88, 89, 90, 91, 92, 93, 94, 95,
    96, 65, 66, 67, 68, 69, 70, 71,
    72, 73, 74, 75, 76, 77, 78, 79,
    80, 81, 82, 83, 84, 85, 86, 87,
    88, 89, 90, 123, 124, 125, 126, 127]"

definition CTYPE_TOUPPER_ARRAY_4 :: "int list" where
  "CTYPE_TOUPPER_ARRAY_4 = [
    128, 129, 130, 131, 132, 133, 134, 135,
    136, 137, 138, 139, 140, 141, 142, 143,
    144, 145, 146, 147, 148, 149, 150, 151,
    152, 153, 154, 155, 156, 157, 158, 159,
    160, 161, 162, 163, 164, 165, 166, 167,
    168, 169, 170, 171, 172, 173, 174, 175,
    176, 177, 178, 179, 180, 181, 182, 183,
    184, 185, 186, 187, 188, 189, 190, 191]"

definition CTYPE_TOUPPER_ARRAY_5 :: "int list" where
  "CTYPE_TOUPPER_ARRAY_5 = [
    192, 193, 194, 195, 196, 197, 198, 199,
    200, 201, 202, 203, 204, 205, 206, 207,
    208, 209, 210, 211, 212, 213, 214, 215,
    216, 217, 218, 219, 220, 221, 222, 223,
    224, 225, 226, 227, 228, 229, 230, 231,
    232, 233, 234, 235, 236, 237, 238, 239,
    240, 241, 242, 243, 244, 245, 246, 247,
    248, 249, 250, 251, 252, 253, 254, 255]"

definition CTYPE_TOUPPER_ARRAY :: "int list" where
  "CTYPE_TOUPPER_ARRAY = CTYPE_TOUPPER_ARRAY_0 @ CTYPE_TOUPPER_ARRAY_1 @ CTYPE_TOUPPER_ARRAY_2 @ CTYPE_TOUPPER_ARRAY_3 @ CTYPE_TOUPPER_ARRAY_4 @ CTYPE_TOUPPER_ARRAY_5"

lemmas CTYPE_TOUPPER_ARRAY_defs = CTYPE_TOUPPER_ARRAY_def CTYPE_TOUPPER_ARRAY_0_def CTYPE_TOUPPER_ARRAY_1_def CTYPE_TOUPPER_ARRAY_2_def CTYPE_TOUPPER_ARRAY_3_def CTYPE_TOUPPER_ARRAY_4_def CTYPE_TOUPPER_ARRAY_5_def

definition CTYPE_TOLOWER_ARRAY_0 :: "int list" where
  "CTYPE_TOLOWER_ARRAY_0 = [
    128, 129, 130, 131, 132, 133, 134, 135,
    136, 137, 138, 139, 140, 141, 142, 143,
    144, 145, 146, 147, 148, 149, 150, 151,
    152, 153, 154, 155, 156, 157, 158, 159,
    160, 161, 162, 163, 164, 165, 166, 167,
    168, 169, 170, 171, 172, 173, 174, 175,
    176, 177, 178, 179, 180, 181, 182, 183,
    184, 185, 186, 187, 188, 189, 190, 191]"

definition CTYPE_TOLOWER_ARRAY_1 :: "int list" where
  "CTYPE_TOLOWER_ARRAY_1 = [
    192, 193, 194, 195, 196, 197, 198, 199,
    200, 201, 202, 203, 204, 205, 206, 207,
    208, 209, 210, 211, 212, 213, 214, 215,
    216, 217, 218, 219, 220, 221, 222, 223,
    224, 225, 226, 227, 228, 229, 230, 231,
    232, 233, 234, 235, 236, 237, 238, 239,
    240, 241, 242, 243, 244, 245, 246, 247,
    248, 249, 250, 251, 252, 253, 254, -1]"

definition CTYPE_TOLOWER_ARRAY_2 :: "int list" where
  "CTYPE_TOLOWER_ARRAY_2 = [
    0, 1, 2, 3, 4, 5, 6, 7,
    8, 9, 10, 11, 12, 13, 14, 15,
    16, 17, 18, 19, 20, 21, 22, 23,
    24, 25, 26, 27, 28, 29, 30, 31,
    32, 33, 34, 35, 36, 37, 38, 39,
    40, 41, 42, 43, 44, 45, 46, 47,
    48, 49, 50, 51, 52, 53, 54, 55,
    56, 57, 58, 59, 60, 61, 62, 63]"

definition CTYPE_TOLOWER_ARRAY_3 :: "int list" where
  "CTYPE_TOLOWER_ARRAY_3 = [
    64, 97, 98, 99, 100, 101, 102, 103,
    104, 105, 106, 107, 108, 109, 110, 111,
    112, 113, 114, 115, 116, 117, 118, 119,
    120, 121, 122, 91, 92, 93, 94, 95,
    96, 97, 98, 99, 100, 101, 102, 103,
    104, 105, 106, 107, 108, 109, 110, 111,
    112, 113, 114, 115, 116, 117, 118, 119,
    120, 121, 122, 123, 124, 125, 126, 127]"

definition CTYPE_TOLOWER_ARRAY_4 :: "int list" where
  "CTYPE_TOLOWER_ARRAY_4 = [
    128, 129, 130, 131, 132, 133, 134, 135,
    136, 137, 138, 139, 140, 141, 142, 143,
    144, 145, 146, 147, 148, 149, 150, 151,
    152, 153, 154, 155, 156, 157, 158, 159,
    160, 161, 162, 163, 164, 165, 166, 167,
    168, 169, 170, 171, 172, 173, 174, 175,
    176, 177, 178, 179, 180, 181, 182, 183,
    184, 185, 186, 187, 188, 189, 190, 191]"

definition CTYPE_TOLOWER_ARRAY_5 :: "int list" where
  "CTYPE_TOLOWER_ARRAY_5 = [
    192, 193, 194, 195, 196, 197, 198, 199,
    200, 201, 202, 203, 204, 205, 206, 207,
    208, 209, 210, 211, 212, 213, 214, 215,
    216, 217, 218, 219, 220, 221, 222, 223,
    224, 225, 226, 227, 228, 229, 230, 231,
    232, 233, 234, 235, 236, 237, 238, 239,
    240, 241, 242, 243, 244, 245, 246, 247,
    248, 249, 250, 251, 252, 253, 254, 255]"

definition CTYPE_TOLOWER_ARRAY :: "int list" where
  "CTYPE_TOLOWER_ARRAY = CTYPE_TOLOWER_ARRAY_0 @ CTYPE_TOLOWER_ARRAY_1 @ CTYPE_TOLOWER_ARRAY_2 @ CTYPE_TOLOWER_ARRAY_3 @ CTYPE_TOLOWER_ARRAY_4 @ CTYPE_TOLOWER_ARRAY_5"

lemmas CTYPE_TOLOWER_ARRAY_defs = CTYPE_TOLOWER_ARRAY_def CTYPE_TOLOWER_ARRAY_0_def CTYPE_TOLOWER_ARRAY_1_def CTYPE_TOLOWER_ARRAY_2_def CTYPE_TOLOWER_ARRAY_3_def CTYPE_TOLOWER_ARRAY_4_def CTYPE_TOLOWER_ARRAY_5_def

definition CTYPE_B_PTR :: "int \<Rightarrow> u16 option" where
  "CTYPE_B_PTR ch =
     (let i = ch + 128 in
      if 0 \<le> i \<and> i < int (length CTYPE_B_ARRAY) then Some (CTYPE_B_ARRAY ! nat i) else None)"

definition CTYPE_TOLOWER_PTR :: "int \<Rightarrow> int option" where
  "CTYPE_TOLOWER_PTR ch =
     (let i = ch + 128 in
      if 0 \<le> i \<and> i < int (length CTYPE_TOLOWER_ARRAY)
      then Some (CTYPE_TOLOWER_ARRAY ! nat i) else None)"

definition CTYPE_TOUPPER_PTR :: "int \<Rightarrow> int option" where
  "CTYPE_TOUPPER_PTR ch =
     (let i = ch + 128 in
      if 0 \<le> i \<and> i < int (length CTYPE_TOUPPER_ARRAY)
      then Some (CTYPE_TOUPPER_ARRAY ! nat i) else None)"

subsection \<open>Classification and case mapping\<close>

definition toupper :: "int \<Rightarrow> int option" where
  "toupper ch = CTYPE_TOUPPER_PTR ch"

definition tolower :: "int \<Rightarrow> int option" where
  "tolower ch = CTYPE_TOLOWER_PTR ch"

definition isupper :: "int \<Rightarrow> int option" where
  "isupper ch = map_option (\<lambda>b. uint (b AND ISupper)) (CTYPE_B_PTR ch)"

definition islower :: "int \<Rightarrow> int option" where
  "islower ch = map_option (\<lambda>b. uint (b AND ISlower)) (CTYPE_B_PTR ch)"

definition isalpha :: "int \<Rightarrow> int option" where
  "isalpha ch = map_option (\<lambda>b. uint (b AND ISalpha)) (CTYPE_B_PTR ch)"

definition isdigit :: "int \<Rightarrow> int option" where
  "isdigit ch = map_option (\<lambda>b. uint (b AND ISdigit)) (CTYPE_B_PTR ch)"

definition isxdigit :: "int \<Rightarrow> int option" where
  "isxdigit ch = map_option (\<lambda>b. uint (b AND ISxdigit)) (CTYPE_B_PTR ch)"

definition isspace :: "int \<Rightarrow> int option" where
  "isspace ch = map_option (\<lambda>b. uint (b AND ISspace)) (CTYPE_B_PTR ch)"

definition isprint :: "int \<Rightarrow> int option" where
  "isprint ch = map_option (\<lambda>b. uint (b AND ISprint)) (CTYPE_B_PTR ch)"

definition isgraph :: "int \<Rightarrow> int option" where
  "isgraph ch = map_option (\<lambda>b. uint (b AND ISgraph)) (CTYPE_B_PTR ch)"

definition isblank :: "int \<Rightarrow> int option" where
  "isblank ch = map_option (\<lambda>b. uint (b AND ISblank)) (CTYPE_B_PTR ch)"

definition iscntrl :: "int \<Rightarrow> int option" where
  "iscntrl ch = map_option (\<lambda>b. uint (b AND IScntrl)) (CTYPE_B_PTR ch)"

definition ispunct :: "int \<Rightarrow> int option" where
  "ispunct ch = map_option (\<lambda>b. uint (b AND ISpunct)) (CTYPE_B_PTR ch)"

definition isalnum :: "int \<Rightarrow> int option" where
  "isalnum ch = map_option (\<lambda>b. uint (b AND ISalnum)) (CTYPE_B_PTR ch)"

definition isascii :: "int \<Rightarrow> bool" where
  "isascii ch \<longleftrightarrow> 0 \<le> ch \<and> ch \<le> 0x7F"

subsection \<open>The tables entry by entry\<close>

lemma table_entry:
  assumes "map f xs = map g [lo..hi]" and "lo \<le> ch" and "ch \<le> hi"
  shows "length xs = nat (hi - lo + 1)" and "f (xs ! nat (ch - lo)) = g ch"
proof -
  have "length (map f xs) = length (map g [lo..hi])"
    using assms(1) by simp
  then show len: "length xs = nat (hi - lo + 1)" by simp
  have "map f xs ! nat (ch - lo) = map g [lo..hi] ! nat (ch - lo)"
    using assms(1) by simp
  then show "f (xs ! nat (ch - lo)) = g ch"
    using len assms(2,3) by (simp add: nth_upto)
qed

lemmas upto_steps = upto_rec1 [of "- 1"] upto_rec1 [of 0] upto_rec1 [of 1]

lemma B_class:
  assumes "map (\<lambda>b. b AND cls) CTYPE_B_ARRAY = map g [- 128..255]"
    and "- 128 \<le> ch" and "ch \<le> 255"
  shows "map_option (\<lambda>b. uint (b AND cls)) (CTYPE_B_PTR ch) = Some (uint (g ch))"
  using table_entry [OF assms] assms(2,3) by (simp add: CTYPE_B_PTR_def Let_def)

lemma table_upper:
  "map (\<lambda>b. b AND ISupper) CTYPE_B_ARRAY =
   map (\<lambda>c. if 65 \<le> c \<and> c \<le> 90 then 256 else 0) [- 128..255]"
  by (simp add: CTYPE_B_ARRAY_defs IS_defs upto_steps)

lemma table_lower:
  "map (\<lambda>b. b AND ISlower) CTYPE_B_ARRAY =
   map (\<lambda>c. if 97 \<le> c \<and> c \<le> 122 then 512 else 0) [- 128..255]"
  by (simp add: CTYPE_B_ARRAY_defs IS_defs upto_steps)

lemma table_alpha:
  "map (\<lambda>b. b AND ISalpha) CTYPE_B_ARRAY =
   map (\<lambda>c. if (65 \<le> c \<and> c \<le> 90) \<or> (97 \<le> c \<and> c \<le> 122) then 1024 else 0) [- 128..255]"
  by (simp add: CTYPE_B_ARRAY_defs IS_defs upto_steps)

lemma table_digit:
  "map (\<lambda>b. b AND ISdigit) CTYPE_B_ARRAY =
   map (\<lambda>c. if 48 \<le> c \<and> c \<le> 57 then 2048 else 0) [- 128..255]"
  by (simp add: CTYPE_B_ARRAY_defs IS_defs upto_steps)

lemma table_xdigit:
  "map (\<lambda>b. b AND ISxdigit) CTYPE_B_ARRAY =
   map (\<lambda>c. if (48 \<le> c \<and> c \<le> 57) \<or> (65 \<le> c \<and> c \<le> 70) \<or> (97 \<le> c \<and> c \<le> 102) then 4096 else 0) [- 128..255]"
  by (simp add: CTYPE_B_ARRAY_defs IS_defs upto_steps)

lemma table_space:
  "map (\<lambda>b. b AND ISspace) CTYPE_B_ARRAY =
   map (\<lambda>c. if c = 32 \<or> (9 \<le> c \<and> c \<le> 13) then 8192 else 0) [- 128..255]"
  by (simp add: CTYPE_B_ARRAY_defs IS_defs upto_steps)

lemma table_print:
  "map (\<lambda>b. b AND ISprint) CTYPE_B_ARRAY =
   map (\<lambda>c. if 32 \<le> c \<and> c \<le> 126 then 16384 else 0) [- 128..255]"
  by (simp add: CTYPE_B_ARRAY_defs IS_defs upto_steps)

lemma table_graph:
  "map (\<lambda>b. b AND ISgraph) CTYPE_B_ARRAY =
   map (\<lambda>c. if 33 \<le> c \<and> c \<le> 126 then 32768 else 0) [- 128..255]"
  by (simp add: CTYPE_B_ARRAY_defs IS_defs upto_steps)

lemma table_blank:
  "map (\<lambda>b. b AND ISblank) CTYPE_B_ARRAY =
   map (\<lambda>c. if c = 32 \<or> c = 9 then 1 else 0) [- 128..255]"
  by (simp add: CTYPE_B_ARRAY_defs IS_defs upto_steps)

lemma table_cntrl:
  "map (\<lambda>b. b AND IScntrl) CTYPE_B_ARRAY =
   map (\<lambda>c. if (0 \<le> c \<and> c \<le> 31) \<or> c = 127 then 2 else 0) [- 128..255]"
  by (simp add: CTYPE_B_ARRAY_defs IS_defs upto_steps)

lemma table_punct:
  "map (\<lambda>b. b AND ISpunct) CTYPE_B_ARRAY =
   map (\<lambda>c. if (33 \<le> c \<and> c \<le> 47) \<or> (58 \<le> c \<and> c \<le> 64) \<or> (91 \<le> c \<and> c \<le> 96) \<or> (123 \<le> c \<and> c \<le> 126) then 4 else 0) [- 128..255]"
  by (simp add: CTYPE_B_ARRAY_defs IS_defs upto_steps)

lemma table_alnum:
  "map (\<lambda>b. b AND ISalnum) CTYPE_B_ARRAY =
   map (\<lambda>c. if (48 \<le> c \<and> c \<le> 57) \<or> (65 \<le> c \<and> c \<le> 90) \<or> (97 \<le> c \<and> c \<le> 122) then 8 else 0) [- 128..255]"
  by (simp add: CTYPE_B_ARRAY_defs IS_defs upto_steps)

lemma table_toupper:
  "map (\<lambda>x. x) CTYPE_TOUPPER_ARRAY =
   map (\<lambda>c. if 97 \<le> c \<and> c \<le> 122 then c - 32 else if c < - 1 then c + 256 else c) [- 128..255]"
  by (simp add: CTYPE_TOUPPER_ARRAY_defs upto_steps)

lemma table_tolower:
  "map (\<lambda>x. x) CTYPE_TOLOWER_ARRAY =
   map (\<lambda>c. if 65 \<le> c \<and> c \<le> 90 then c + 32 else if c < - 1 then c + 256 else c) [- 128..255]"
  by (simp add: CTYPE_TOLOWER_ARRAY_defs upto_steps)

subsection \<open>What the functions return on every index of the tables\<close>

lemma isupper_eq:
  assumes "- 128 \<le> ch" and "ch \<le> 255"
  shows "isupper ch = Some (if 65 \<le> ch \<and> ch \<le> 90 then 256 else 0)"
  unfolding isupper_def by (subst B_class [OF table_upper assms]) simp

lemma islower_eq:
  assumes "- 128 \<le> ch" and "ch \<le> 255"
  shows "islower ch = Some (if 97 \<le> ch \<and> ch \<le> 122 then 512 else 0)"
  unfolding islower_def by (subst B_class [OF table_lower assms]) simp

lemma isalpha_eq:
  assumes "- 128 \<le> ch" and "ch \<le> 255"
  shows "isalpha ch = Some (if (65 \<le> ch \<and> ch \<le> 90) \<or> (97 \<le> ch \<and> ch \<le> 122) then 1024 else 0)"
  unfolding isalpha_def by (subst B_class [OF table_alpha assms]) simp

lemma isdigit_eq:
  assumes "- 128 \<le> ch" and "ch \<le> 255"
  shows "isdigit ch = Some (if 48 \<le> ch \<and> ch \<le> 57 then 2048 else 0)"
  unfolding isdigit_def by (subst B_class [OF table_digit assms]) simp

lemma isxdigit_eq:
  assumes "- 128 \<le> ch" and "ch \<le> 255"
  shows "isxdigit ch = Some (if (48 \<le> ch \<and> ch \<le> 57) \<or> (65 \<le> ch \<and> ch \<le> 70) \<or> (97 \<le> ch \<and> ch \<le> 102) then 4096 else 0)"
  unfolding isxdigit_def by (subst B_class [OF table_xdigit assms]) simp

lemma isspace_eq:
  assumes "- 128 \<le> ch" and "ch \<le> 255"
  shows "isspace ch = Some (if ch = 32 \<or> (9 \<le> ch \<and> ch \<le> 13) then 8192 else 0)"
  unfolding isspace_def by (subst B_class [OF table_space assms]) simp

lemma isprint_eq:
  assumes "- 128 \<le> ch" and "ch \<le> 255"
  shows "isprint ch = Some (if 32 \<le> ch \<and> ch \<le> 126 then 16384 else 0)"
  unfolding isprint_def by (subst B_class [OF table_print assms]) simp

lemma isgraph_eq:
  assumes "- 128 \<le> ch" and "ch \<le> 255"
  shows "isgraph ch = Some (if 33 \<le> ch \<and> ch \<le> 126 then 32768 else 0)"
  unfolding isgraph_def by (subst B_class [OF table_graph assms]) simp

lemma isblank_eq:
  assumes "- 128 \<le> ch" and "ch \<le> 255"
  shows "isblank ch = Some (if ch = 32 \<or> ch = 9 then 1 else 0)"
  unfolding isblank_def by (subst B_class [OF table_blank assms]) simp

lemma iscntrl_eq:
  assumes "- 128 \<le> ch" and "ch \<le> 255"
  shows "iscntrl ch = Some (if (0 \<le> ch \<and> ch \<le> 31) \<or> ch = 127 then 2 else 0)"
  unfolding iscntrl_def by (subst B_class [OF table_cntrl assms]) simp

lemma ispunct_eq:
  assumes "- 128 \<le> ch" and "ch \<le> 255"
  shows "ispunct ch = Some (if (33 \<le> ch \<and> ch \<le> 47) \<or> (58 \<le> ch \<and> ch \<le> 64) \<or> (91 \<le> ch \<and> ch \<le> 96) \<or> (123 \<le> ch \<and> ch \<le> 126) then 4 else 0)"
  unfolding ispunct_def by (subst B_class [OF table_punct assms]) simp

lemma isalnum_eq:
  assumes "- 128 \<le> ch" and "ch \<le> 255"
  shows "isalnum ch = Some (if (48 \<le> ch \<and> ch \<le> 57) \<or> (65 \<le> ch \<and> ch \<le> 90) \<or> (97 \<le> ch \<and> ch \<le> 122) then 8 else 0)"
  unfolding isalnum_def by (subst B_class [OF table_alnum assms]) simp

lemma toupper_eq:
  assumes "- 128 \<le> ch" and "ch \<le> 255"
  shows "toupper ch =
    Some (if 97 \<le> ch \<and> ch \<le> 122 then ch - 32 else if ch < - 1 then ch + 256 else ch)"
  using table_entry [OF table_toupper assms] assms
  by (simp add: toupper_def CTYPE_TOUPPER_PTR_def Let_def)

lemma tolower_eq:
  assumes "- 128 \<le> ch" and "ch \<le> 255"
  shows "tolower ch =
    Some (if 65 \<le> ch \<and> ch \<le> 90 then ch + 32 else if ch < - 1 then ch + 256 else ch)"
  using table_entry [OF table_tolower assms] assms
  by (simp add: tolower_def CTYPE_TOLOWER_PTR_def Let_def)

lemmas ctype_eqs =
  isupper_eq islower_eq isalpha_eq isdigit_eq isxdigit_eq isspace_eq isprint_eq isgraph_eq
  isblank_eq iscntrl_eq ispunct_eq isalnum_eq toupper_eq tolower_eq

subsection \<open>Properties\<close>

text \<open>
   On every index the tables have (all values of a signed \<open>char\<close>, of an
  \<open>unsigned char\<close>, and EOF) the twelve classification functions return their class bit
  exactly for the ASCII characters of the class in the C locale, and zero otherwise.
\<close>

theorem ctype_functions_are_ascii_classes:
  assumes "- 128 \<le> ch" and "ch \<le> 255"
  shows "
    isupper ch = Some (if 65 \<le> ch \<and> ch \<le> 90 then 256 else 0) \<and>
    islower ch = Some (if 97 \<le> ch \<and> ch \<le> 122 then 512 else 0) \<and>
    isalpha ch = Some (if (65 \<le> ch \<and> ch \<le> 90) \<or> (97 \<le> ch \<and> ch \<le> 122) then 1024 else 0) \<and>
    isdigit ch = Some (if 48 \<le> ch \<and> ch \<le> 57 then 2048 else 0) \<and>
    isxdigit ch = Some (if (48 \<le> ch \<and> ch \<le> 57) \<or> (65 \<le> ch \<and> ch \<le> 70)
            \<or> (97 \<le> ch \<and> ch \<le> 102) then 4096 else 0) \<and>
    isspace ch = Some (if ch = 32 \<or> (9 \<le> ch \<and> ch \<le> 13) then 8192 else 0) \<and>
    isprint ch = Some (if 32 \<le> ch \<and> ch \<le> 126 then 16384 else 0) \<and>
    isgraph ch = Some (if 33 \<le> ch \<and> ch \<le> 126 then 32768 else 0) \<and>
    isblank ch = Some (if ch = 32 \<or> ch = 9 then 1 else 0) \<and>
    iscntrl ch = Some (if (0 \<le> ch \<and> ch \<le> 31) \<or> ch = 127 then 2 else 0) \<and>
    ispunct ch = Some (if (33 \<le> ch \<and> ch \<le> 126) \<and> \<not> (48 \<le> ch \<and> ch \<le> 57)
            \<and> \<not> (65 \<le> ch \<and> ch \<le> 90) \<and> \<not> (97 \<le> ch \<and> ch \<le> 122) then 4 else 0) \<and>
    isalnum ch = Some (if (48 \<le> ch \<and> ch \<le> 57) \<or> (65 \<le> ch \<and> ch \<le> 90)
            \<or> (97 \<le> ch \<and> ch \<le> 122) then 8 else 0)"
  using assms by (auto simp: ctype_eqs)

theorem ctype_functions_are_ascii_classes_witness:
  "isxdigit 70 = Some 4096 \<and> isspace 70 = Some 0"
  using ctype_functions_are_ascii_classes [of 70] by simp

text \<open>
   On the unsigned characters and EOF the case mappings only move ASCII letters: the
  mappings are idempotent, each undoes the other up to its own image, and the class bits
  follow them.
\<close>

theorem case_mapping_laws:
  assumes "- 1 \<le> ch" and "ch \<le> 255"
  shows "tolower ch \<bind> tolower = tolower ch \<and>
    toupper ch \<bind> toupper = toupper ch \<and>
    toupper ch \<bind> tolower = tolower ch \<and>
    tolower ch \<bind> toupper = toupper ch \<and>
    (isupper ch \<noteq> Some 0 \<longleftrightarrow> tolower ch \<noteq> Some ch) \<and>
    (islower ch \<noteq> Some 0 \<longleftrightarrow> toupper ch \<noteq> Some ch)"
  using assms by (auto simp: ctype_eqs)

theorem case_mapping_laws_witness:
  "toupper 97 \<bind> tolower = tolower 97 \<and> islower 97 \<noteq> Some 0"
  using case_mapping_laws [of 97] by (simp add: ctype_eqs)

subsection \<open>The interface the parsers use\<close>

text \<open>
  What a text scanner relies on: the whitespace and digit tests and the lower-case mapping
  have a result for every \<open>char\<close>, the NUL byte is in no class, a digit is no space,
  and the mapping fixes digits and NUL.
\<close>

locale ctype_classes =
  fixes space digit lower :: "int \<Rightarrow> int option"
  assumes space_char: "- 128 \<le> c \<Longrightarrow> c \<le> 127 \<Longrightarrow>
      \<exists>v. space c = Some v \<and> (v \<noteq> 0 \<longleftrightarrow> c = 32 \<or> 9 \<le> c \<and> c \<le> 13)"
    and digit_char: "- 128 \<le> c \<Longrightarrow> c \<le> 127 \<Longrightarrow>
      \<exists>v. digit c = Some v \<and> (v \<noteq> 0 \<longleftrightarrow> 48 \<le> c \<and> c \<le> 57)"
    and lower_char: "- 128 \<le> c \<Longrightarrow> c \<le> 127 \<Longrightarrow>
      \<exists>v. lower c = Some v \<and> (0 \<le> c \<longrightarrow> v = (if 65 \<le> c \<and> c \<le> 90 then c + 32 else c))"
begin

lemma nul_no_class: "space 0 = Some 0" "digit 0 = Some 0"
  using space_char [of 0] digit_char [of 0] by auto

lemma digit_not_space: "digit c = Some v \<Longrightarrow> v \<noteq> 0 \<Longrightarrow> - 128 \<le> c \<Longrightarrow> c \<le> 127 \<Longrightarrow> space c = Some 0"
  using space_char [of c] digit_char [of c] by auto

lemma lower_digit: "48 \<le> c \<Longrightarrow> c \<le> 57 \<Longrightarrow> lower c = Some c"
  using lower_char [of c] by auto

end

interpretation ascii: ctype_classes isspace isdigit tolower
  by unfold_locales (auto simp: ctype_eqs)

end
