(* ===== verification/Cstring.thy ===== *)
theory Cstring
  imports Cmem Ctype
begin

text \<open>
  The byte-string functions: \<^verbatim>\<open>src/ansi/string.cpp\<close>, and from the POSIX and GNU layers
  \<^verbatim>\<open>src/posix/string.cpp\<close>, \<^verbatim>\<open>src/posix/strings.cpp\<close> and
  \<^verbatim>\<open>src/glibc/string.cpp\<close>.  A pointer is an address; a null pointer or a null result is
  \<open>None\<close> inside the outer \<open>Some\<close>.  Loops that run until a terminator are
  \<open>partial_function (option)\<close>: without a terminator in mapped memory they have no
  result.  Loops that count a \<open>size_t\<close> down recurse on that count.

  Functions that write return the new memory next to the C result.  On x86-64 \<open>memcpy\<close>
  and \<open>memset\<close> are one string instruction each, which copies upwards byte by byte like
  the portable loops modelled here.  Copying does not look at the cells, so \<open>memcpy\<close> and
  \<open>memmove\<close> are stated for cells of any type; the wide-string functions use them on wide characters.

  The contracts that several functions share (finding a terminator, copying up to it,
  comparing cell by cell) are the locales \<open>zero_scan\<close>, \<open>zero_copy\<close>,
  \<open>bounded_zero_copy\<close> and \<open>zero_compare\<close>, interpreted on the loops of the source.
\<close>

subsection \<open>Length, comparison, search (src/ansi/string.cpp)\<close>

partial_function (option) strlen_loop :: "u8 mem \<Rightarrow> nat \<Rightarrow> nat \<Rightarrow> nat option" where
  "strlen_loop m str len =
     do { c \<leftarrow> m str; if c \<noteq> 0 then strlen_loop m (Suc str) (Suc len) else Some len }"

definition strlen :: "u8 mem \<Rightarrow> nat \<Rightarrow> nat option" where
  "strlen m str = strlen_loop m str 0"

partial_function (option) strcmp :: "u8 mem \<Rightarrow> nat \<Rightarrow> nat \<Rightarrow> int option" where
  "strcmp m lhs rhs =
     do { l \<leftarrow> m lhs; r \<leftarrow> m rhs;
          let res = sint l - sint r in
          if res \<noteq> 0 \<or> l = 0 then Some res else strcmp m (Suc lhs) (Suc rhs) }"

fun strncmp :: "u8 mem \<Rightarrow> nat \<Rightarrow> nat \<Rightarrow> nat \<Rightarrow> int option" where
  "strncmp m lhs rhs 0 = Some 0"
| "strncmp m lhs rhs (Suc count) =
     do { l \<leftarrow> m lhs; r \<leftarrow> m rhs;
          let res = sint l - sint r in
          if res \<noteq> 0 \<or> l = 0 then Some res else strncmp m (Suc lhs) (Suc rhs) count }"

partial_function (option) strchr :: "u8 mem \<Rightarrow> nat \<Rightarrow> int \<Rightarrow> nat option option" where
  "strchr m str ch =
     do { c \<leftarrow> m str;
          if c \<noteq> 0 then (if sint c = ch then Some (Some str) else strchr m (Suc str) ch)
          else Some (if ch = 0 then Some str else None) }"

fun strrchr_loop :: "u8 mem \<Rightarrow> nat \<Rightarrow> int \<Rightarrow> nat \<Rightarrow> nat option option" where
  "strrchr_loop m str ch 0 = Some None"
| "strrchr_loop m str ch (Suc i) =
     do { c \<leftarrow> m (str + i);
          if sint c = ch then Some (Some (str + i)) else strrchr_loop m str ch i }"

definition strrchr :: "u8 mem \<Rightarrow> nat \<Rightarrow> int \<Rightarrow> nat option option" where
  "strrchr m str ch = do { len \<leftarrow> strlen m str; strrchr_loop m str ch (len + 1) }"

subsection \<open>Copying (src/ansi/string.cpp)\<close>

fun memcpy_loop :: "'a mem \<Rightarrow> nat \<Rightarrow> nat \<Rightarrow> nat \<Rightarrow> 'a mem option" where
  "memcpy_loop m dest src 0 = Some m"
| "memcpy_loop m dest src (Suc sz) =
     do { v \<leftarrow> m src; m' \<leftarrow> store m dest v; memcpy_loop m' (Suc dest) (Suc src) sz }"

definition memcpy :: "'a mem \<Rightarrow> nat \<Rightarrow> nat \<Rightarrow> nat \<Rightarrow> ('a mem \<times> nat) option" where
  "memcpy m dest src sz = do { m' \<leftarrow> memcpy_loop m dest src sz; Some (m', dest) }"

fun memset_loop :: "u8 mem \<Rightarrow> nat \<Rightarrow> u8 \<Rightarrow> nat \<Rightarrow> u8 mem option" where
  "memset_loop m ptr c 0 = Some m"
| "memset_loop m ptr c (Suc sz) = do { m' \<leftarrow> store m ptr c; memset_loop m' (Suc ptr) c sz }"

definition memset :: "u8 mem \<Rightarrow> nat \<Rightarrow> int \<Rightarrow> nat \<Rightarrow> (u8 mem \<times> nat) option" where
  "memset m dest ch sz = do { m' \<leftarrow> memset_loop m dest (word_of_int ch) sz; Some (m', dest) }"

fun memmove_down :: "'a mem \<Rightarrow> nat \<Rightarrow> nat \<Rightarrow> nat \<Rightarrow> 'a mem option" where
  "memmove_down m dest src 0 = Some m"
| "memmove_down m dest src (Suc i) =
     do { v \<leftarrow> m (src + i); m' \<leftarrow> store m (dest + i) v; memmove_down m' dest src i }"

definition memmove :: "'a mem \<Rightarrow> nat \<Rightarrow> nat \<Rightarrow> nat \<Rightarrow> ('a mem \<times> nat) option" where
  "memmove m dest src sz =
     (if dest < src \<or> src + sz \<le> dest then memcpy m dest src sz
      else if dest > src then do { m' \<leftarrow> memmove_down m dest src sz; Some (m', dest) }
      else Some (m, dest))"

partial_function (option) strcpy_loop :: "u8 mem \<Rightarrow> nat \<Rightarrow> nat \<Rightarrow> (u8 mem \<times> nat) option" where
  "strcpy_loop m dest src =
     do { c \<leftarrow> m src;
          if c \<noteq> 0 then do { m' \<leftarrow> store m dest c; strcpy_loop m' (Suc dest) (Suc src) }
          else Some (m, dest) }"

definition strcpy :: "u8 mem \<Rightarrow> nat \<Rightarrow> nat \<Rightarrow> (u8 mem \<times> nat) option" where
  "strcpy m dest src =
     do { (m', d) \<leftarrow> strcpy_loop m dest src; m'' \<leftarrow> store m' d 0; Some (m'', dest) }"

fun strncpy_copy :: "u8 mem \<Rightarrow> nat \<Rightarrow> nat \<Rightarrow> nat \<Rightarrow> (u8 mem \<times> nat \<times> nat) option" where
  "strncpy_copy m dest src 0 = Some (m, dest, 0)"
| "strncpy_copy m dest src (Suc count) =
     do { c \<leftarrow> m src;
          if c \<noteq> 0 then do { m' \<leftarrow> store m dest c; strncpy_copy m' (Suc dest) (Suc src) count }
          else Some (m, dest, Suc count) }"

definition strncpy :: "u8 mem \<Rightarrow> nat \<Rightarrow> nat \<Rightarrow> nat \<Rightarrow> (u8 mem \<times> nat) option" where
  "strncpy m dest src count =
     do { (m', d, n) \<leftarrow> strncpy_copy m dest src count; m'' \<leftarrow> memset_loop m' d 0 n; Some (m'', dest) }"

definition strcat :: "u8 mem \<Rightarrow> nat \<Rightarrow> nat \<Rightarrow> (u8 mem \<times> nat) option" where
  "strcat m dest src =
     do { len \<leftarrow> strlen m dest; src_len \<leftarrow> strlen m src;
          (m', _) \<leftarrow> memcpy m (dest + len) src (src_len + 1); Some (m', dest) }"

fun memccpy :: "u8 mem \<Rightarrow> nat \<Rightarrow> nat \<Rightarrow> int \<Rightarrow> nat \<Rightarrow> (u8 mem \<times> nat option) option" where
  "memccpy m dest src ch 0 = Some (m, None)"
| "memccpy m dest src ch (Suc sz) =
     do { v \<leftarrow> m src; m' \<leftarrow> store m dest v;
          if v = word_of_int ch then Some (m', Some (dest + 1))
          else memccpy m' (Suc dest) (Suc src) ch sz }"

definition strncat :: "u8 mem \<Rightarrow> nat \<Rightarrow> nat \<Rightarrow> nat \<Rightarrow> (u8 mem \<times> nat) option" where
  "strncat m dest src count =
     do { len \<leftarrow> strlen m dest;
          (m', ptr, _) \<leftarrow> strncpy_copy m (dest + len) src count;
          m'' \<leftarrow> store m' ptr 0; Some (m'', dest) }"

subsection \<open>Spans and memory search (src/ansi/string.cpp)\<close>

fun search_contains :: "u8 mem \<Rightarrow> u8 \<Rightarrow> nat \<Rightarrow> nat \<Rightarrow> bool option" where
  "search_contains m c search 0 = Some False"
| "search_contains m c search (Suc len) =
     do { d \<leftarrow> m search; if c = d then Some True else search_contains m c (Suc search) len }"

partial_function (option) strspn_loop :: "u8 mem \<Rightarrow> nat \<Rightarrow> nat \<Rightarrow> nat \<Rightarrow> nat \<Rightarrow> nat option" where
  "strspn_loop m str search len found =
     do { c \<leftarrow> m str;
          if c \<noteq> 0 then
            do { search_found \<leftarrow> search_contains m c search len;
                 if search_found then strspn_loop m (Suc str) search len (Suc found)
                 else Some found }
          else Some found }"

definition strspn :: "u8 mem \<Rightarrow> nat \<Rightarrow> nat \<Rightarrow> nat option" where
  "strspn m str search = do { len \<leftarrow> strlen m search; strspn_loop m str search len 0 }"

partial_function (option) strcspn_loop :: "u8 mem \<Rightarrow> nat \<Rightarrow> nat \<Rightarrow> nat \<Rightarrow> nat \<Rightarrow> nat option" where
  "strcspn_loop m str search len found =
     do { c \<leftarrow> m str;
          if c \<noteq> 0 then
            do { hit \<leftarrow> search_contains m c search len;
                 if hit then Some found else strcspn_loop m (Suc str) search len (Suc found) }
          else Some found }"

definition strcspn :: "u8 mem \<Rightarrow> nat \<Rightarrow> nat \<Rightarrow> nat option" where
  "strcspn m str search = do { len \<leftarrow> strlen m search; strcspn_loop m str search len 0 }"

definition strcoll :: "u8 mem \<Rightarrow> nat \<Rightarrow> nat \<Rightarrow> int option" where
  "strcoll m lhs rhs = strcmp m lhs rhs"

definition strxfrm :: "u8 mem \<Rightarrow> nat option \<Rightarrow> nat \<Rightarrow> nat \<Rightarrow> (u8 mem \<times> nat) option" where
  "strxfrm m dest src count =
     do { len \<leftarrow> strlen m src;
          case dest of
            Some d \<Rightarrow> (if count > len then do { (m', _) \<leftarrow> memcpy m d src (len + 1); Some (m', len) }
                       else Some (m, len))
          | None \<Rightarrow> Some (m, len) }"

fun memcmp :: "u8 mem \<Rightarrow> nat \<Rightarrow> nat \<Rightarrow> nat \<Rightarrow> int option" where
  "memcmp m lhs rhs 0 = Some 0"
| "memcmp m lhs rhs (Suc count) =
     do { l \<leftarrow> m lhs; r \<leftarrow> m rhs;
          let res = uint l - uint r in
          if res \<noteq> 0 then Some res else memcmp m (Suc lhs) (Suc rhs) count }"

fun memchr :: "u8 mem \<Rightarrow> nat \<Rightarrow> int \<Rightarrow> nat \<Rightarrow> nat option option" where
  "memchr m p ch 0 = Some None"
| "memchr m p ch (Suc count) =
     do { c \<leftarrow> m p;
          if c = word_of_int ch then Some (Some p) else memchr m (Suc p) ch count }"

subsection \<open>POSIX and GNU additions\<close>

fun strnlen_loop :: "u8 mem \<Rightarrow> nat \<Rightarrow> nat \<Rightarrow> nat \<Rightarrow> nat option" where
  "strnlen_loop m str 0 len = Some len"
| "strnlen_loop m str (Suc max_len) len =
     do { c \<leftarrow> m str;
          if c \<noteq> 0 then strnlen_loop m (Suc str) max_len (Suc len) else Some len }"

definition strnlen :: "u8 mem \<Rightarrow> nat \<Rightarrow> nat \<Rightarrow> nat option" where
  "strnlen m str max_len = strnlen_loop m str max_len 0"

partial_function (option) stpcpy :: "u8 mem \<Rightarrow> nat \<Rightarrow> nat \<Rightarrow> (u8 mem \<times> nat) option" where
  "stpcpy m dest src =
     do { c \<leftarrow> m src;
          if c \<noteq> 0 then do { m' \<leftarrow> store m dest c; stpcpy m' (Suc dest) (Suc src) }
          else do { m' \<leftarrow> store m dest 0; Some (m', dest) } }"

partial_function (option) strcasecmp :: "u8 mem \<Rightarrow> nat \<Rightarrow> nat \<Rightarrow> int option" where
  "strcasecmp m s1 s2 =
     do { a \<leftarrow> m s1; b \<leftarrow> m s2; la \<leftarrow> tolower (sint a); lb \<leftarrow> tolower (sint b);
          let res = la - lb in
          if res \<noteq> 0 \<or> a = 0 then Some res else strcasecmp m (Suc s1) (Suc s2) }"

fun strncasecmp :: "u8 mem \<Rightarrow> nat \<Rightarrow> nat \<Rightarrow> nat \<Rightarrow> int option" where
  "strncasecmp m s1 s2 0 = Some 0"
| "strncasecmp m s1 s2 (Suc count) =
     do { a \<leftarrow> m s1; b \<leftarrow> m s2; la \<leftarrow> tolower (sint a); lb \<leftarrow> tolower (sint b);
          let res = la - lb in
          if res \<noteq> 0 \<or> a = 0 then Some res else strncasecmp m (Suc s1) (Suc s2) count }"

definition bcmp :: "u8 mem \<Rightarrow> nat \<Rightarrow> nat \<Rightarrow> nat \<Rightarrow> int option" where
  "bcmp m s1 s2 sz = memcmp m s1 s2 sz"

definition bcopy :: "u8 mem \<Rightarrow> nat \<Rightarrow> nat \<Rightarrow> nat \<Rightarrow> u8 mem option" where
  "bcopy m src dest sz = map_option fst (memmove m dest src sz)"

definition bzero :: "u8 mem \<Rightarrow> nat \<Rightarrow> nat \<Rightarrow> u8 mem option" where
  "bzero m dest sz = map_option fst (memset m dest 0 sz)"

function ffs_loop :: "u32 \<Rightarrow> nat \<Rightarrow> nat" where
  "ffs_loop value i =
     (if i < 32 then (if value AND push_bit i 1 \<noteq> 0 then i + 1 else ffs_loop value (i + 1)) else 0)"
  by pat_completeness auto
termination by (relation "measure (\<lambda>(_, i). 32 - i)") auto

definition ffs :: "u32 \<Rightarrow> nat" where
  "ffs value = ffs_loop value 0"

definition rawmemchr :: "u8 mem \<Rightarrow> nat \<Rightarrow> int \<Rightarrow> nat option option" where
  "rawmemchr m p ch = memchr m p ch (2 ^ 64 - 1)"

definition mempcpy :: "u8 mem \<Rightarrow> nat \<Rightarrow> nat \<Rightarrow> nat \<Rightarrow> (u8 mem \<times> nat) option" where
  "mempcpy m dest src sz = do { (m', _) \<leftarrow> memcpy m dest src sz; Some (m', dest + sz) }"

fun memrchr :: "u8 mem \<Rightarrow> nat \<Rightarrow> int \<Rightarrow> nat \<Rightarrow> nat option option" where
  "memrchr m ptr ch 0 = Some None"
| "memrchr m ptr ch (Suc count) =
     do { c \<leftarrow> m (ptr + count);
          if c = word_of_int ch then Some (Some (ptr + count)) else memrchr m ptr ch count }"

partial_function (option) strcasestr_loop :: "u8 mem \<Rightarrow> nat \<Rightarrow> nat \<Rightarrow> nat \<Rightarrow> nat option option" where
  "strcasestr_loop m str substr len =
     do { c \<leftarrow> m str;
          if c \<noteq> 0 then
            do { r \<leftarrow> strncasecmp m str substr len;
                 if r = 0 then Some (Some str) else strcasestr_loop m (Suc str) substr len }
          else Some None }"

definition strcasestr :: "u8 mem \<Rightarrow> nat \<Rightarrow> nat \<Rightarrow> nat option option" where
  "strcasestr m str substr = do { len \<leftarrow> strlen m substr; strcasestr_loop m str substr len }"

partial_function (option) strchrnul :: "u8 mem \<Rightarrow> nat \<Rightarrow> int \<Rightarrow> nat option" where
  "strchrnul m str ch =
     do { c \<leftarrow> m str;
          if c \<noteq> 0 then (if sint c = ch then Some str else strchrnul m (Suc str) ch)
          else Some str }"

partial_function (option) strsep_scan :: "u8 mem \<Rightarrow> nat \<Rightarrow> nat \<Rightarrow> nat option" where
  "strsep_scan m ptr delim =
     do { c \<leftarrow> m ptr;
          if c \<noteq> 0 then
            do { r \<leftarrow> strchr m delim (sint c);
                 if r = None then strsep_scan m (Suc ptr) delim else Some ptr }
          else Some ptr }"

definition strsep :: "u8 mem \<Rightarrow> nat option \<Rightarrow> nat \<Rightarrow> (u8 mem \<times> nat option \<times> nat option) option" where
  "strsep m str delim =
     (case str of
        None \<Rightarrow> Some (m, None, None)
      | Some token \<Rightarrow>
          do { ptr \<leftarrow> strsep_scan m token delim;
               c \<leftarrow> m ptr;
               if c \<noteq> 0 then do { m' \<leftarrow> store m ptr 0; Some (m', Some (ptr + 1), Some token) }
               else Some (m, None, Some token) })"

partial_function (option) strverscmp_prefix ::
    "u8 mem \<Rightarrow> nat \<Rightarrow> nat \<Rightarrow> nat \<Rightarrow> nat \<Rightarrow> bool \<Rightarrow> (nat \<times> nat \<times> bool) option option" where
  "strverscmp_prefix m s1 s2 i seq_pos is_zero =
     do { a \<leftarrow> m (s1 + i); b \<leftarrow> m (s2 + i);
          if a = b then
            (if a = 0 then Some None
             else do { d \<leftarrow> isdigit (sint a);
                       if d = 0 then strverscmp_prefix m s1 s2 (Suc i) (Suc i) True
                       else strverscmp_prefix m s1 s2 (Suc i) seq_pos
                              (if sint a \<noteq> 48 then False else is_zero) })
          else Some (Some (i, seq_pos, is_zero)) }"

partial_function (option) strverscmp_digits :: "u8 mem \<Rightarrow> nat \<Rightarrow> nat \<Rightarrow> nat \<Rightarrow> int option option" where
  "strverscmp_digits m s1 s2 j =
     do { a \<leftarrow> m (s1 + j); d1 \<leftarrow> isdigit (sint a);
          b \<leftarrow> m (s2 + j); d2 \<leftarrow> isdigit (sint b);
          if d1 \<noteq> 0 then (if d2 = 0 then Some (Some 1) else strverscmp_digits m s1 s2 (Suc j))
          else if d2 \<noteq> 0 then Some (Some (- 1)) else Some None }"

definition strverscmp :: "u8 mem \<Rightarrow> nat \<Rightarrow> nat \<Rightarrow> int option" where
  "strverscmp m s1 s2 =
     do { r \<leftarrow> strverscmp_prefix m s1 s2 0 0 True;
          case r of
            None \<Rightarrow> Some 0
          | Some (i, seq_pos, is_zero) \<Rightarrow>
              do { a \<leftarrow> m (s1 + i); b \<leftarrow> m (s2 + i);
                   p \<leftarrow> m (s1 + seq_pos); q \<leftarrow> m (s2 + seq_pos);
                   d1 \<leftarrow> isdigit (sint a); d2 \<leftarrow> isdigit (sint b);
                   if sint p \<noteq> 48 \<and> sint q \<noteq> 48 then
                     do { k \<leftarrow> strverscmp_digits m s1 s2 i;
                          case k of Some v \<Rightarrow> Some v | None \<Rightarrow> Some (sint a - sint b) }
                   else if is_zero \<and> seq_pos < i \<and> (d1 \<noteq> 0 \<or> d2 \<noteq> 0)
                     then Some ((sint a - 48) - (sint b - 48))
                   else Some (sint a - sint b) } }"

subsection \<open>Shared contracts\<close>

text \<open>A loop that walks to the terminator and counts.\<close>

locale zero_scan =
  fixes len_loop :: "('a::zero) mem \<Rightarrow> nat \<Rightarrow> nat \<Rightarrow> nat option"
  assumes len_step: "len_loop m p n =
    do { c \<leftarrow> m p; if c \<noteq> 0 then len_loop m (Suc p) (Suc n) else Some n }"
begin

lemma len_loop_zstr: "zstr_at m p s \<Longrightarrow> len_loop m p n = Some (n + length s)"
proof (induction s arbitrary: p n)
  case Nil
  then show ?case by (subst len_step) simp
next
  case (Cons x s)
  then show ?case by (subst len_step) simp
qed

end

text \<open>A loop that copies up to the terminator and then finishes with \<open>fin\<close>.\<close>

locale zero_copy =
  fixes copy_loop :: "('a::zero) mem \<Rightarrow> nat \<Rightarrow> nat \<Rightarrow> ('a mem \<times> nat) option"
    and fin :: "'a mem \<Rightarrow> nat \<Rightarrow> ('a mem \<times> nat) option"
  assumes copy_step: "copy_loop m d p =
    do { c \<leftarrow> m p;
         if c \<noteq> 0 then do { m' \<leftarrow> store m d c; copy_loop m' (Suc d) (Suc p) } else fin m d }"
begin

lemma copy_loop_zstr:
  "zstr_at m p s \<Longrightarrow> mapped m d (length s) \<Longrightarrow> disjoint_ranges d (length s) p (Suc (length s)) \<Longrightarrow>
   copy_loop m d p = fin (put m d s) (d + length s)"
proof (induction s arbitrary: m p d)
  case Nil
  then show ?case by (subst copy_step) simp
next
  case (Cons x s)
  let ?m = "m(d \<mapsto> x)"
  have out: "d < Suc p \<or> Suc p + length (s @ [0]) \<le> d"
    using Cons.prems(3) by (auto simp: disjoint_ranges_def)
  have "zstr_at ?m (Suc p) s"
    using Cons.prems(1) cells_at_upd_outside [OF out, of m x] by (simp add: zstr_at_def)
  moreover have "mapped ?m (Suc d) (length s)"
    using Cons.prems(2) by (auto simp: mapped_Suc)
  moreover have "disjoint_ranges (Suc d) (length s) (Suc p) (Suc (length s))"
    using Cons.prems(3) by (auto simp: disjoint_ranges_def)
  ultimately have "copy_loop ?m (Suc d) (Suc p) = fin (put ?m (Suc d) s) (Suc d + length s)"
    by (rule Cons.IH)
  moreover have "m d \<noteq> None" using Cons.prems(2) by (simp add: mapped_Suc)
  ultimately show ?case
    using Cons.prems(1) by (subst copy_step) (simp add: put_Cons)
qed

end

text \<open>A copy bounded by a count that stops before the terminator and returns the count left.\<close>

locale bounded_zero_copy =
  fixes ncopy :: "('a::zero) mem \<Rightarrow> nat \<Rightarrow> nat \<Rightarrow> nat \<Rightarrow> ('a mem \<times> nat \<times> nat) option"
  assumes ncopy_0: "ncopy m dest src 0 = Some (m, dest, 0)"
    and ncopy_Suc: "ncopy m dest src (Suc n) =
      do { c \<leftarrow> m src;
           if c \<noteq> 0 then do { m' \<leftarrow> store m dest c; ncopy m' (Suc dest) (Suc src) n }
           else Some (m, dest, Suc n) }"
begin

lemma bounded_zstr:
  "zstr_at m src s \<Longrightarrow> mapped m dest (min n (length s)) \<Longrightarrow>
   disjoint_ranges dest (min n (length s)) src (Suc (length s)) \<Longrightarrow>
   ncopy m dest src n =
     Some (put m dest (take n s), dest + min n (length s), n - length s)"
proof (induction n arbitrary: m dest src s)
  case (Suc n)
  show ?case
  proof (cases s)
    case Nil
    with Suc.prems show ?thesis by (simp add: ncopy_Suc)
  next
    case (Cons x xs)
    let ?m = "m(dest \<mapsto> x)"
    have "dest < Suc src \<or> Suc src + length (xs @ [0]) \<le> dest"
      using Suc.prems(3) Cons by (auto simp: disjoint_ranges_def)
    then have "zstr_at ?m (Suc src) xs"
      using Suc.prems(1) Cons cells_at_upd_outside [of dest "Suc src" "xs @ [0]" m x]
      by (simp add: zstr_at_def)
    moreover have "mapped ?m (Suc dest) (min n (length xs))"
      using Suc.prems(2) Cons by (auto simp: mapped_Suc)
    moreover have "disjoint_ranges (Suc dest) (min n (length xs)) (Suc src) (Suc (length xs))"
      using Suc.prems(3) Cons by (auto simp: disjoint_ranges_def)
    ultimately have "ncopy ?m (Suc dest) (Suc src) n =
        Some (put ?m (Suc dest) (take n xs), Suc dest + min n (length xs), n - length xs)"
      by (rule Suc.IH)
    then show ?thesis
      using Suc.prems(1,2) Cons by (simp add: ncopy_Suc put_Cons mapped_Suc)
  qed
qed (simp add: ncopy_0)

end

text \<open>The difference at the first position where two lists differ.\<close>

fun first_diff :: "('a \<Rightarrow> 'a \<Rightarrow> int) \<Rightarrow> 'a list \<Rightarrow> 'a list \<Rightarrow> int" where
  "first_diff diff (x # xs) (y # ys) = (if diff x y \<noteq> 0 then diff x y else first_diff diff xs ys)"
| "first_diff diff _ _ = 0"

lemma first_diff_antisym:
  assumes anti: "\<And>a b. diff b a = - diff a b"
  shows "first_diff diff ys xs = - first_diff diff xs ys"
proof (induction xs arbitrary: ys)
  case Nil
  then show ?case by (cases ys) simp_all
next
  case (Cons x xs)
  then show ?case using anti [of x] by (cases ys) simp_all
qed

lemma first_diff_lexord:
  assumes "\<And>a b. diff a b = f a - f b" and "length xs = length ys"
  shows "first_diff diff xs ys < 0 \<longleftrightarrow> (map f xs, map f ys) \<in> lexord {(a, b). a < (b::int)}"
  using assms(2) by (induction xs ys rule: list_induct2) (auto simp: assms(1))

lemma first_diff_zstr_lexord:
  fixes f :: "('a::zero) \<Rightarrow> int"
  assumes "\<And>a b. diff a b = f a - f b" and "\<And>a. f a = f 0 \<longleftrightarrow> a = 0"
  shows "0 \<notin> set s \<Longrightarrow> 0 \<notin> set t \<Longrightarrow> first_diff diff (s @ [0]) (t @ [0]) < 0 \<longleftrightarrow>
    (map f (s @ [0]), map f (t @ [0])) \<in> lexord {(a, b). a < b}"
proof (induction s arbitrary: t)
  case Nil
  then show ?case using assms(2) [of "hd t"] by (cases t) (auto simp: assms(1))
next
  case (Cons x s)
  then show ?case using assms(2) [of x] by (cases t) (auto simp: assms(1))
qed

text \<open>
  A loop that compares two strings cell by cell, where the terminator differs from every
  other cell.
\<close>

locale zero_compare =
  fixes cmp :: "('a::zero) mem \<Rightarrow> nat \<Rightarrow> nat \<Rightarrow> int option"
    and diff :: "'a \<Rightarrow> 'a \<Rightarrow> int"
  assumes cmp_step: "cmp m p q =
      do { a \<leftarrow> m p; b \<leftarrow> m q;
           if diff a b \<noteq> 0 \<or> a = 0 then Some (diff a b) else cmp m (Suc p) (Suc q) }"
    and diff_zero: "diff 0 b = 0 \<longleftrightarrow> b = 0"
    and diff_antisym: "diff b a = - diff a b"
begin

lemma cmp_zstr:
  "zstr_at m p s \<Longrightarrow> zstr_at m q t \<Longrightarrow> cmp m p q = Some (first_diff diff (s @ [0]) (t @ [0]))"
proof (induction s arbitrary: p q t)
  case Nil
  then show ?case by (subst cmp_step) (cases t; auto simp: diff_zero)
next
  case (Cons x s)
  have x: "diff x 0 \<noteq> 0" using Cons.prems(1) diff_zero [of x] diff_antisym [of x 0] by auto
  show ?case
  proof (cases t)
    case Nil
    with Cons.prems x show ?thesis by (subst cmp_step) auto
  next
    case (Cons y t')
    with Cons.prems Cons.IH [of "Suc p" "Suc q" t'] show ?thesis by (subst cmp_step) auto
  qed
qed

lemma cmp_eq_0_iff:
  "0 \<notin> set s \<Longrightarrow> 0 \<notin> set t \<Longrightarrow>
   first_diff diff (s @ [0]) (t @ [0]) = 0 \<longleftrightarrow> list_all2 (\<lambda>a b. diff a b = 0) s t"
proof (induction s arbitrary: t)
  case Nil
  then show ?case by (cases t) (auto simp: diff_zero)
next
  case (Cons x s)
  have "diff x 0 \<noteq> 0" using Cons.prems(1) diff_zero [of x] diff_antisym [of x 0] by auto
  with Cons show ?case by (cases t) auto
qed

lemma cmp_swap:
  assumes "zstr_at m p s" "zstr_at m q t" "cmp m p q = Some r"
  shows "cmp m q p = Some (- r)"
proof -
  have "first_diff diff (t @ [0]) (s @ [0]) = - first_diff diff (s @ [0]) (t @ [0])"
    by (rule first_diff_antisym) (rule diff_antisym)
  then show ?thesis using assms(3) cmp_zstr [OF assms(1,2)] cmp_zstr [OF assms(2,1)] by simp
qed

end

subsection \<open>Interpretations on the loops of the source\<close>

interpretation str_scan: zero_scan strlen_loop
  by unfold_locales (subst strlen_loop.simps, simp)

interpretation str_copy: zero_copy strcpy_loop "\<lambda>m d. Some (m, d)"
  by unfold_locales (subst strcpy_loop.simps, simp)

interpretation stp_copy: zero_copy stpcpy "\<lambda>m d. do { m' \<leftarrow> store m d 0; Some (m', d) }"
  by unfold_locales (subst stpcpy.simps, simp)

interpretation strn_copy: bounded_zero_copy strncpy_copy
  by unfold_locales simp_all

interpretation str_compare: zero_compare strcmp "\<lambda>a b. sint a - sint b"
  by unfold_locales (subst strcmp.simps, simp_all add: Let_def)

definition fold_char :: "u8 \<Rightarrow> int" where
  "fold_char c = (let v = sint c in
     if 65 \<le> v \<and> v \<le> 90 then v + 32 else if v < - 1 then v + 256 else v)"

lemma tolower_char: "tolower (sint (c :: u8)) = Some (fold_char c)"
  using sint_u8_range [of c] by (simp add: tolower_eq fold_char_def Let_def)

lemma fold_char_eq_0 [simp]: "fold_char c = 0 \<longleftrightarrow> c = 0"
  using sint_u8_range [of c] sint_u8_eq_0_iff [of c]
  by (auto simp: fold_char_def Let_def simp del: sint_u8_eq_0_iff)

lemma fold_char_0 [simp]: "fold_char 0 = 0"
  by simp

lemma zero_eq_fold_char [simp]: "0 = fold_char c \<longleftrightarrow> c = 0"
  using fold_char_eq_0 [of c] by (metis (no_types))

interpretation case_compare: zero_compare strcasecmp "\<lambda>a b. fold_char a - fold_char b"
  by unfold_locales (subst strcasecmp.simps, simp_all add: Let_def tolower_char)

lemmas strlen_zstr = str_scan.len_loop_zstr [where n = 0, folded strlen_def, simplified]

lemma strcpy_zstr:
  assumes "zstr_at m src s" and "mapped m dest (Suc (length s))"
    and "disjoint_ranges dest (length s) src (Suc (length s))"
  shows "strcpy m dest src = Some (put m dest (s @ [0]), dest)"
proof -
  have "strcpy_loop m dest src = Some (put m dest s, dest + length s)"
    using str_copy.copy_loop_zstr [OF assms(1) _ assms(3)] mapped_mono [OF assms(2)] by simp
  moreover have "mapped (put m dest s) dest (Suc (length s))"
    using assms(2) by blast
  then have "put m dest s (dest + length s) \<noteq> None" by (simp add: mapped_def)
  ultimately show ?thesis by (simp add: strcpy_def put_snoc)
qed

subsection \<open>Copying loops\<close>

lemma memcpy_loop_cells:
  "cells_at m src xs \<Longrightarrow> mapped m dest (length xs) \<Longrightarrow> dest \<le> src \<or> src + length xs \<le> dest \<Longrightarrow>
   memcpy_loop m dest src (length xs) = Some (put m dest xs)"
proof (induction xs arbitrary: m dest src)
  case (Cons x xs)
  have "dest < Suc src \<or> Suc src + length xs \<le> dest" using Cons.prems(3) by auto
  then have "cells_at (m(dest \<mapsto> x)) (Suc src) xs"
    using Cons.prems(1) by (simp add: cells_at_upd_outside)
  moreover have "mapped (m(dest \<mapsto> x)) (Suc dest) (length xs)"
    using Cons.prems(2) by (auto simp: mapped_Suc)
  moreover have "Suc dest \<le> Suc src \<or> Suc src + length xs \<le> Suc dest" using Cons.prems(3) by auto
  ultimately have "memcpy_loop (m(dest \<mapsto> x)) (Suc dest) (Suc src) (length xs) =
      Some (put (m(dest \<mapsto> x)) (Suc dest) xs)"
    by (rule Cons.IH)
  then show ?case using Cons.prems(1,2) by (simp add: put_Cons mapped_Suc)
qed simp

lemma memcpy_cells:
  "cells_at m src xs \<Longrightarrow> mapped m dest (length xs) \<Longrightarrow> dest \<le> src \<or> src + length xs \<le> dest \<Longrightarrow>
   memcpy m dest src (length xs) = Some (put m dest xs, dest)"
  by (simp add: memcpy_def memcpy_loop_cells)

lemma memmove_down_cells:
  "cells_at m src xs \<Longrightarrow> mapped m dest (length xs) \<Longrightarrow> src < dest \<Longrightarrow>
   memmove_down m dest src (length xs) = Some (put m dest xs)"
proof (induction xs arbitrary: m rule: rev_induct)
  case (snoc x xs)
  let ?m = "m(dest + length xs \<mapsto> x)"
  have x: "m (src + length xs) = Some x" and xs: "cells_at m src xs"
    using snoc.prems(1) by (auto simp: cells_at_append)
  have "cells_at ?m src xs"
    using xs snoc.prems(3) by (simp add: cells_at_upd_outside)
  moreover have "mapped ?m dest (length xs)"
    using snoc.prems(2) by (auto simp: mapped_def)
  ultimately have "memmove_down ?m dest src (length xs) = Some (put ?m dest xs)"
    using snoc.prems(3) by (rule snoc.IH)
  moreover have "m (dest + length xs) \<noteq> None" using snoc.prems(2) by (simp add: mapped_def)
  moreover have "put ?m dest xs = put m dest (xs @ [x])"
    by (simp only: put_snoc put_put_upd_first [OF refl])
  ultimately show ?case using x by simp
qed simp

lemma memset_loop_mapped:
  "mapped m p n \<Longrightarrow> memset_loop m p c n = Some (put m p (replicate n c))"
  by (induction n arbitrary: m p) (auto simp: mapped_Suc put_Cons)

lemmas strncpy_copy_zstr = strn_copy.bounded_zstr

subsection \<open>Searching loops\<close>

lemma search_contains_cells:
  "cells_at m p xs \<Longrightarrow> search_contains m c p (length xs) = Some (c \<in> set xs)"
  by (induction xs arbitrary: p) auto

lemma strspn_loop_zstr:
  "zstr_at m p s \<Longrightarrow> cells_at m q t \<Longrightarrow>
   strspn_loop m p q (length t) n = Some (n + length (takeWhile (\<lambda>c. c \<in> set t) s))"
proof (induction s arbitrary: p n)
  case Nil
  then show ?case by (subst strspn_loop.simps) simp
next
  case (Cons x s)
  then show ?case by (subst strspn_loop.simps) (simp add: search_contains_cells)
qed

lemma strcspn_loop_zstr:
  "zstr_at m p s \<Longrightarrow> cells_at m q t \<Longrightarrow>
   strcspn_loop m p q (length t) n = Some (n + length (takeWhile (\<lambda>c. c \<notin> set t) s))"
proof (induction s arbitrary: p n)
  case Nil
  then show ?case by (subst strcspn_loop.simps) simp
next
  case (Cons x s)
  then show ?case by (subst strcspn_loop.simps) (simp add: search_contains_cells)
qed

lemma zstr_at_prefix_cells: "zstr_at m a s \<Longrightarrow> cells_at m a s"
  by (simp add: zstr_at_def cells_at_append)

lemma strchr_zstr:
  "zstr_at m p s \<Longrightarrow> strchr m p (sint c) =
     Some (if c \<in> set (s @ [0]) then Some (p + length (takeWhile (\<lambda>x. x \<noteq> c) s)) else None)"
proof (induction s arbitrary: p)
  case Nil
  then show ?case by (subst strchr.simps) auto
next
  case (Cons x s)
  then show ?case by (subst strchr.simps) (auto simp: sint_u8_eq_iff)
qed

lemma strchr_beyond_char: "zstr_at m p s \<Longrightarrow> 127 < ch \<Longrightarrow> strchr m p ch = Some None"
proof (induction s arbitrary: p)
  case Nil
  then show ?case by (subst strchr.simps) auto
next
  case (Cons x s)
  then have "sint x \<noteq> ch" using sint_u8_range [of x] by auto
  with Cons show ?case by (subst strchr.simps) auto
qed

lemma strsep_scan_zstr:
  "zstr_at m p s \<Longrightarrow> zstr_at m q d \<Longrightarrow>
   strsep_scan m p q = Some (p + length (takeWhile (\<lambda>c. c \<notin> set d) s))"
proof (induction s arbitrary: p)
  case Nil
  then show ?case by (subst strsep_scan.simps) simp
next
  case (Cons x s)
  then show ?case by (subst strsep_scan.simps) (auto simp: strchr_zstr)
qed
lemma strrchr_loop_cells:
  "cells_at m p xs \<Longrightarrow> strrchr_loop m p (sint c) (length xs) =
     Some (if c \<in> set xs then Some (p + (length xs - 1 - length (takeWhile (\<lambda>x. x \<noteq> c) (rev xs))))
           else None)"
  by (induction xs rule: rev_induct) (auto simp: cells_at_append sint_u8_eq_iff)

lemma memcmp_cells:
  "cells_at m p xs \<Longrightarrow> cells_at m q ys \<Longrightarrow> length xs = length ys \<Longrightarrow>
   memcmp m p q (length xs) = Some (first_diff (\<lambda>a b. uint a - uint b) xs ys)"
proof (induction xs arbitrary: p q ys)
  case (Cons x xs)
  then show ?case by (cases ys) (auto simp: Let_def)
qed simp

lemma sint_eq_list_all2: "list_all2 (\<lambda>a b. sint (a :: u8) - sint b = 0) s t \<longleftrightarrow> s = t"
  by (simp add: sint_u8_eq_iff list_all2_eq)

subsection \<open>Properties\<close>

text \<open>
  C5.  \<open>memmove\<close> is correct for every placement of the two regions, overlapping ones
  included: the destination afterwards holds the bytes the source held before the call,
  nothing else changes, and the destination pointer is returned.
\<close>

theorem memmove_correct:
  assumes "cells_at m src bs" and "mapped m dest (length bs)"
  shows "memmove m dest src (length bs) = Some (put m dest bs, dest)"
proof (cases dest src rule: linorder_cases)
  case less
  then show ?thesis using assms by (simp add: memmove_def memcpy_cells)
next
  case equal
  then show ?thesis using assms by (auto simp: memmove_def memcpy_def put_same)
next
  case greater
  then show ?thesis using assms by (auto simp: memmove_def memcpy_cells memmove_down_cells)
qed

theorem memmove_correct_witness:
  "memmove (mem_of 0 [1, 2, 3, 4, 5, 6 :: u8]) 2 0 (length [1, 2, 3, 4 :: u8]) =
     Some (put (mem_of 0 [1, 2, 3, 4, 5, 6 :: u8]) 2 [1, 2, 3, 4], 2)"
proof -
  have "cells_at (mem_of 0 [1, 2, 3, 4, 5, 6 :: u8]) 0 [1, 2, 3, 4 :: u8]"
    by (simp add: mem_of_simp)
  moreover have "mapped (mem_of 0 [1, 2, 3, 4, 5, 6 :: u8]) 2 (length [1, 2, 3, 4 :: u8])"
    by (simp add: mapped_def mem_of_simp)
  ultimately show ?thesis by (rule memmove_correct)
qed

text \<open>
   On two terminated strings \<open>strcmp\<close> returns, zero exactly when they are equal; its
  sign is the lexicographic order of the signed \<open>char\<close> values including the terminator,
  and swapping the arguments negates it.
\<close>

theorem strcmp_orders_signed_chars:
  assumes "zstr_at m p s" and "zstr_at m q t"
  shows "\<exists>r. strcmp m p q = Some r \<and> strcmp m q p = Some (- r) \<and> (r = 0 \<longleftrightarrow> s = t) \<and>
    (r < 0 \<longleftrightarrow> (map sint (s @ [0]), map sint (t @ [0])) \<in> lexord {(a, b). a < b})"
proof -
  let ?r = "first_diff (\<lambda>a b. sint a - sint b) (s @ [0]) (t @ [0])"
  have r: "strcmp m p q = Some ?r" by (rule str_compare.cmp_zstr [OF assms])
  moreover have "strcmp m q p = Some (- ?r)"
    by (rule str_compare.cmp_swap [OF assms r])
  moreover have "?r = 0 \<longleftrightarrow> s = t"
    using str_compare.cmp_eq_0_iff [of s t] assms [THEN zstr_at_nonzero]
    by (simp only: sint_eq_list_all2 simp_thms)
  moreover have "?r < 0 \<longleftrightarrow> (map sint (s @ [0]), map sint (t @ [0])) \<in> lexord {(a, b). a < b}"
    by (rule first_diff_zstr_lexord) (use assms in \<open>auto dest: zstr_at_nonzero\<close>)
  ultimately show ?thesis by blast
qed

theorem strcmp_orders_signed_chars_witness:
  "\<exists>r. strcmp (mem_of 0 [97, 98, 0, 97, 0]) 0 3 = Some r \<and>
       strcmp (mem_of 0 [97, 98, 0, 97, 0]) 3 0 = Some (- r) \<and>
       (r = 0 \<longleftrightarrow> [97, 98] = [97 :: u8]) \<and>
       (r < 0 \<longleftrightarrow> (map sint ([97, 98] @ [0 :: u8]), map sint ([97] @ [0 :: u8])) \<in> lexord {(a, b). a < b})"
  by (rule strcmp_orders_signed_chars) (simp_all add: mem_of_simp)

text \<open>
   The standard orders strings by \<open>unsigned char\<close>.  \<open>strcmp\<close> does not: a string that
  starts with a byte above 127 sorts before one that starts with an ASCII byte, while
  \<open>memcmp\<close> on the same first byte says the opposite.
\<close>

theorem strcmp_disagrees_with_unsigned_order:
  assumes "zstr_at m p (x # s)" and "zstr_at m q (y # t)" and "128 \<le> uint x" and "uint y < 128"
  shows "\<exists>r u. strcmp m p q = Some r \<and> r < 0 \<and> memcmp m p q 1 = Some u \<and> 0 < u"
proof -
  have "sint x = uint x - 256" "sint y = uint y"
    using assms(3,4) by (simp_all add: sint_u8_eq)
  then have neg: "sint x - sint y < 0" and pos: "0 < uint x - uint y"
    using assms(3,4) uint_u8_range [of x] uint_u8_range [of y] by linarith+
  have "strcmp m p q = Some (sint x - sint y)"
    using str_compare.cmp_zstr [OF assms(1,2)] neg by simp
  moreover have "memcmp m p q 1 = Some (uint x - uint y)"
    using memcmp_cells [of m p "[x]" q "[y]"] assms(1,2) pos by simp
  ultimately show ?thesis using neg pos by blast
qed

theorem strcmp_disagrees_with_unsigned_order_witness:
  "\<exists>r u. strcmp (mem_of 0 [0x80, 0, 97, 0]) 0 2 = Some r \<and> r < 0 \<and>
         memcmp (mem_of 0 [0x80, 0, 97, 0]) 0 2 1 = Some u \<and> 0 < u"
  by (rule strcmp_disagrees_with_unsigned_order [where x = "0x80" and s = "[]" and y = 97 and t = "[]"])
     (simp_all add: mem_of_simp)

text \<open>
   \<open>strcat\<close> appends: with room after the destination string and a source outside it,
  the destination afterwards holds the concatenation, the source is unchanged, and only the
  bytes after the old terminator position were written.
\<close>

theorem strcat_appends:
  assumes "zstr_at m dest a" and "zstr_at m src b"
    and "mapped m dest (length a + length b + 1)"
    and "disjoint_ranges dest (length a + length b + 1) src (length b + 1)"
  shows "strcat m dest src = Some (put m (dest + length a) (b @ [0]), dest) \<and>
    zstr_at (put m (dest + length a) (b @ [0])) dest (a @ b) \<and>
    zstr_at (put m (dest + length a) (b @ [0])) src b"
proof -
  let ?m = "put m (dest + length a) (b @ [0])"
  have mp: "mapped m (dest + length a) (length (b @ [0]))"
    using mapped_shift [OF assms(3), of "length a" "length b + 1"] by simp
  have "disjoint_ranges (dest + length a) (length (b @ [0])) src (length (b @ [0]))"
    and dis: "dest + length a \<le> src \<or> src + length (b @ [0]) \<le> dest + length a"
    using assms(4) by (auto simp: disjoint_ranges_def)
  then have "cells_at ?m src (b @ [0])"
    using cells_at_put_disjoint zstr_at_cells [OF assms(2)] by blast
  then have "zstr_at ?m src b" using zstr_at_nonzero [OF assms(2)] by (simp add: zstr_at_def)
  moreover have "cells_at ?m dest a"
    using zstr_at_prefix_cells [OF assms(1)]
    by (subst cells_at_put_disjoint) (simp_all add: disjoint_ranges_def)
  then have "zstr_at ?m dest (a @ b)"
    using zstr_at_nonzero [OF assms(1)] zstr_at_put [of b m "dest + length a"] zstr_at_nonzero [OF assms(2)]
    by (simp add: zstr_at_append)
  moreover have "strcat m dest src = Some (?m, dest)"
    using memcpy_cells [OF zstr_at_cells [OF assms(2)] mp dis] assms(1,2)
    by (simp add: strcat_def strlen_zstr)
  ultimately show ?thesis by blast
qed

theorem strcat_appends_witness:
  "let m = mem_of 0 [97, 0, 7, 7, 98, 99, 0 :: u8] in
   strcat m 0 4 = Some (put m 1 [98, 99, 0], 0) \<and>
   zstr_at (put m 1 [98, 99, 0]) 0 [97, 98, 99] \<and> zstr_at (put m 1 [98, 99, 0]) 4 [98, 99]"
  using strcat_appends [of "mem_of 0 [97, 0, 7, 7, 98, 99, 0]" 0 "[97]" 4 "[98, 99]"]
  by (simp add: mem_of_simp mapped_def disjoint_ranges_def)

text \<open>
   \<open>strncpy\<close> writes exactly \<open>n\<close> bytes: the first \<open>n\<close> characters of the source, then
  NUL bytes up to \<open>n\<close>; no terminator when the source is longer.
\<close>

theorem strncpy_writes_exactly_n:
  assumes "zstr_at m src s" and "mapped m dest n" and "disjoint_ranges dest n src (length s + 1)"
  shows "strncpy m dest src n = Some (put m dest (take n s @ replicate (n - length s) 0), dest)"
proof -
  have "strncpy_copy m dest src n =
      Some (put m dest (take n s), dest + min n (length s), n - length s)"
    using assms mapped_mono [OF assms(2)]
    by (intro strncpy_copy_zstr) (auto simp: disjoint_ranges_def)
  moreover have "mapped (put m dest (take n s)) (dest + min n (length s)) (n - length s)"
    by (intro mapped_put mapped_shift [OF assms(2)]) auto
  ultimately show ?thesis
    by (simp add: strncpy_def memset_loop_mapped put_append min.commute)
qed

theorem strncpy_writes_exactly_n_witness:
  "strncpy (mem_of 0 [97, 0, 7, 7, 7, 7]) 2 0 3 =
     Some (put (mem_of 0 [97, 0, 7, 7, 7, 7]) 2 (take 3 [97] @ replicate (3 - length [97 :: u8]) 0), 2)"
  by (rule strncpy_writes_exactly_n) (simp_all add: mem_of_simp mapped_def disjoint_ranges_def)

text \<open>
   \<open>strspn\<close> and \<open>strcspn\<close> return the length of the longest prefix made of characters
  inside, respectively outside, the given set.
\<close>

theorem spans_are_longest_prefixes:
  assumes "zstr_at m p s" and "zstr_at m q t"
  shows "strspn m p q = Some (length (takeWhile (\<lambda>c. c \<in> set t) s)) \<and>
    strcspn m p q = Some (length (takeWhile (\<lambda>c. c \<notin> set t) s))"
  using assms strspn_loop_zstr [OF assms(1) zstr_at_prefix_cells [OF assms(2)]]
    strcspn_loop_zstr [OF assms(1) zstr_at_prefix_cells [OF assms(2)]]
  by (simp add: strspn_def strcspn_def strlen_zstr)

theorem spans_are_longest_prefixes_witness:
  "strspn (mem_of 0 [97, 98, 99, 0, 98, 97, 0]) 0 4 =
     Some (length (takeWhile (\<lambda>c. c \<in> set [98, 97]) [97, 98, 99 :: u8])) \<and>
   strcspn (mem_of 0 [97, 98, 99, 0, 98, 97, 0]) 0 4 =
     Some (length (takeWhile (\<lambda>c. c \<notin> set [98, 97]) [97, 98, 99 :: u8]))"
  by (rule spans_are_longest_prefixes) (simp_all add: mem_of_simp)

text \<open>
   For a value of type \<open>char\<close>, \<open>strchr\<close> returns the first and \<open>strrchr\<close> the last
  position of the character (the terminator counts), and null when it does not occur.
\<close>

theorem strchr_first_strrchr_last:
  assumes "zstr_at m p s"
  shows "strchr m p (sint c) =
      Some (if c \<in> set (s @ [0]) then Some (p + length (takeWhile (\<lambda>x. x \<noteq> c) s)) else None) \<and>
    strrchr m p (sint c) =
      Some (if c \<in> set (s @ [0]) then
              Some (p + (length s - length (takeWhile (\<lambda>x. x \<noteq> c) (rev (s @ [0]))))) else None)"
  using strchr_zstr [OF assms] strrchr_loop_cells [OF zstr_at_cells [OF assms], of c] assms
  by (simp add: strrchr_def strlen_zstr)

theorem strchr_first_strrchr_last_witness:
  "strchr (mem_of 0 [47, 97, 47, 98, 0]) 0 (sint (47 :: u8)) = Some (Some 0) \<and>
   strrchr (mem_of 0 [47, 97, 47, 98, 0]) 0 (sint (47 :: u8)) = Some (Some 2)"
  using strchr_first_strrchr_last [of "mem_of 0 [47, 97, 47, 98, 0]" 0 "[47, 97, 47, 98]" 47]
  by (simp add: mem_of_simp)

text \<open>
   \<open>strsep\<close> cuts at the first delimiter: the returned token is the longest prefix
  without delimiters, terminated in place, and the saved pointer is the text after the
  delimiter; without a delimiter the whole string is the token and the saved pointer
  becomes null.
\<close>

theorem strsep_splits_at_first_delimiter:
  assumes "zstr_at m p s" and "zstr_at m q d"
  shows "let t = takeWhile (\<lambda>c. c \<notin> set d) s in
    (t = s \<longrightarrow> strsep m (Some p) q = Some (m, None, Some p)) \<and>
    (t \<noteq> s \<longrightarrow>
      (\<exists>m'. strsep m (Some p) q = Some (m', Some (p + length t + 1), Some p) \<and>
         zstr_at m' p t \<and> zstr_at m' (p + length t + 1) (drop (length t + 1) s)))"
proof -
  define t where "t = takeWhile (\<lambda>c. c \<notin> set d) s"
  define u where "u = dropWhile (\<lambda>c. c \<notin> set d) s"
  have s: "s = t @ u" by (simp add: t_def u_def)
  have scan: "strsep_scan m p q = Some (p + length t)"
    using strsep_scan_zstr [OF assms] by (simp add: t_def)
  have at: "zstr_at m (p + length t) u" "cells_at m p t" "0 \<notin> set t"
    using assms(1) by (auto simp: s zstr_at_append)
  show ?thesis
  proof (cases u)
    case Nil
    then have "t = s" using s by simp
    then show ?thesis unfolding t_def [symmetric] Let_def using at(1) scan Nil by (simp add: strsep_def)
  next
    case (Cons c u')
    let ?m = "m(p + length t \<mapsto> 0)"
    have "zstr_at ?m p t"
      using at cells_at_upd_outside [of "p + length t" p t m 0] by (simp add: zstr_at_def cells_at_append)
    moreover have "zstr_at ?m (p + length t + 1) u'"
      using at(1) Cons cells_at_upd_outside [of "p + length t" "p + length t + 1" "u' @ [0]" m 0]
      by (simp add: zstr_at_def)
    moreover have "strsep m (Some p) q = Some (?m, Some (p + length t + 1), Some p)"
      using at(1) Cons scan by (simp add: strsep_def)
    moreover have "t \<noteq> s" "drop (length t + 1) s = u'" using Cons s by auto
    ultimately show ?thesis unfolding t_def [symmetric] Let_def by blast
  qed
qed

theorem strsep_splits_at_first_delimiter_witness:
  "\<exists>m'. strsep (mem_of 0 [97, 44, 98, 0, 44, 0]) (Some 0) 4 = Some (m', Some (Suc 1), Some 0) \<and>
     zstr_at m' 0 [97] \<and> zstr_at m' (Suc 1) [98]"
  using strsep_splits_at_first_delimiter
    [of "mem_of 0 [97, 44, 98, 0, 44, 0]" 0 "[97, 44, 98]" 4 "[44]"]
  by (simp add: mem_of_simp)

end
