(* ===== verification/Wctype.thy ===== *)
theory Wctype
  imports Ctype
begin

text \<open>
  The wide character classes and case mappings of \<^verbatim>\<open>src/ansi/wctype.cpp\<close>.  A \<open>wint_t\<close> is an
  unsigned 32-bit word.  The functions know the ASCII characters only: for every other one they
  log a message, which is not modelled, and return zero.

  The comparison of string views is code of the \<^verbatim>\<open>hz\<close> library and a parameter of \<open>wctype\<close>.
\<close>

definition iswupper :: "u32 \<Rightarrow> int option" where
  "iswupper ch = (if ch > 0x7F then Some 0 else map_option (\<lambda>b. uint (b AND ISupper)) (CTYPE_B_PTR (uint ch)))"

definition iswlower :: "u32 \<Rightarrow> int option" where
  "iswlower ch = (if ch > 0x7F then Some 0 else map_option (\<lambda>b. uint (b AND ISlower)) (CTYPE_B_PTR (uint ch)))"

definition iswalpha :: "u32 \<Rightarrow> int option" where
  "iswalpha ch = (if ch > 0x7F then Some 0 else map_option (\<lambda>b. uint (b AND ISalpha)) (CTYPE_B_PTR (uint ch)))"

definition iswdigit :: "u32 \<Rightarrow> int option" where
  "iswdigit ch = (if ch > 0x7F then Some 0 else map_option (\<lambda>b. uint (b AND ISdigit)) (CTYPE_B_PTR (uint ch)))"

definition iswxdigit :: "u32 \<Rightarrow> int option" where
  "iswxdigit ch = (if ch > 0x7F then Some 0 else map_option (\<lambda>b. uint (b AND ISxdigit)) (CTYPE_B_PTR (uint ch)))"

definition iswspace :: "u32 \<Rightarrow> int option" where
  "iswspace ch = (if ch > 0x7F then Some 0 else map_option (\<lambda>b. uint (b AND ISspace)) (CTYPE_B_PTR (uint ch)))"

definition iswprint :: "u32 \<Rightarrow> int option" where
  "iswprint ch = (if ch > 0x7F then Some 0 else map_option (\<lambda>b. uint (b AND ISprint)) (CTYPE_B_PTR (uint ch)))"

definition iswgraph :: "u32 \<Rightarrow> int option" where
  "iswgraph ch = (if ch > 0x7F then Some 0 else map_option (\<lambda>b. uint (b AND ISgraph)) (CTYPE_B_PTR (uint ch)))"

definition iswblank :: "u32 \<Rightarrow> int option" where
  "iswblank ch = (if ch > 0x7F then Some 0 else map_option (\<lambda>b. uint (b AND ISblank)) (CTYPE_B_PTR (uint ch)))"

definition iswcntrl :: "u32 \<Rightarrow> int option" where
  "iswcntrl ch = (if ch > 0x7F then Some 0 else map_option (\<lambda>b. uint (b AND IScntrl)) (CTYPE_B_PTR (uint ch)))"

definition iswpunct :: "u32 \<Rightarrow> int option" where
  "iswpunct ch = (if ch > 0x7F then Some 0 else map_option (\<lambda>b. uint (b AND ISpunct)) (CTYPE_B_PTR (uint ch)))"

definition iswalnum :: "u32 \<Rightarrow> int option" where
  "iswalnum ch = (if ch > 0x7F then Some 0 else map_option (\<lambda>b. uint (b AND ISalnum)) (CTYPE_B_PTR (uint ch)))"

definition towupper :: "u32 \<Rightarrow> u32 option" where
  "towupper ch = (if ch > 0x7F then Some 0 else map_option word_of_int (toupper (uint ch)))"

definition towlower :: "u32 \<Rightarrow> u32 option" where
  "towlower ch = (if ch > 0x7F then Some 0 else map_option word_of_int (tolower (uint ch)))"

definition wctype :: "(u8 list \<Rightarrow> u8 list \<Rightarrow> bool) \<Rightarrow> u8 list \<Rightarrow> u64" where
  "wctype sv_eq property =
     (if sv_eq property [97, 108, 110, 117, 109] then ucast ISalnum
      else if sv_eq property [97, 108, 112, 104, 97] then ucast ISalpha
      else if sv_eq property [98, 108, 97, 110, 107] then ucast ISblank
      else if sv_eq property [99, 110, 116, 114, 108] then ucast IScntrl
      else if sv_eq property [100, 105, 103, 105, 116] then ucast ISdigit
      else if sv_eq property [103, 114, 97, 112, 104] then ucast ISgraph
      else if sv_eq property [108, 111, 119, 101, 114] then ucast ISlower
      else if sv_eq property [112, 114, 105, 110, 116] then ucast ISprint
      else if sv_eq property [115, 112, 97, 99, 101] then ucast ISspace
      else if sv_eq property [117, 112, 112, 101, 114] then ucast ISupper
      else if sv_eq property [120, 100, 105, 103, 105, 116] then ucast ISxdigit
      else 0)"

definition iswctype :: "u32 \<Rightarrow> u64 \<Rightarrow> int option" where
  "iswctype wc desc =
     (if wc > 0x7F then Some 0
      else map_option (\<lambda>b. if ucast b AND desc \<noteq> 0 then 1 else 0) (CTYPE_B_PTR (uint wc)))"

subsection \<open>Agreement with the byte functions\<close>

lemma ascii_range:
  assumes "\<not> ch > (0x7F :: u32)"
  shows "0 \<le> uint ch" and "uint ch \<le> 127"
  using assms by (simp_all add: word_less_alt not_less)

lemmas isw_defs =
  iswupper_def isupper_def iswlower_def islower_def iswalpha_def isalpha_def iswdigit_def isdigit_def iswxdigit_def isxdigit_def iswspace_def isspace_def iswprint_def isprint_def iswgraph_def isgraph_def iswblank_def isblank_def iswcntrl_def iscntrl_def iswpunct_def ispunct_def iswalnum_def isalnum_def

lemma wide_classes_ascii:
  assumes "ch \<le> 0x7F"
  shows "iswupper ch = isupper (uint ch)" and "iswlower ch = islower (uint ch)" and "iswalpha ch = isalpha (uint ch)" and "iswdigit ch = isdigit (uint ch)" and "iswxdigit ch = isxdigit (uint ch)" and "iswspace ch = isspace (uint ch)" and "iswprint ch = isprint (uint ch)" and "iswgraph ch = isgraph (uint ch)" and "iswblank ch = isblank (uint ch)" and "iswcntrl ch = iscntrl (uint ch)" and "iswpunct ch = ispunct (uint ch)" and "iswalnum ch = isalnum (uint ch)"
  using assms by (simp_all add: isw_defs not_less [symmetric])

lemma word_of_int_ascii:
  assumes "- 0x80000000 \<le> c" and "c \<le> 0x7FFFFFFF"
  shows "(word_of_int c :: u32) > 0x7F \<longleftrightarrow> c < 0 \<or> c > 127"
    and "0 \<le> c \<Longrightarrow> uint (word_of_int c :: u32) = c"
proof -
  have u: "uint (word_of_int c :: u32) = (if 0 \<le> c then c else c + 0x100000000)"
    using assms mod_pos_pos_trivial [of "c + 0x100000000" "0x100000000"]
    by (simp add: uint_word_of_int)
  then show "0 \<le> c \<Longrightarrow> uint (word_of_int c :: u32) = c" by simp
  show "(word_of_int c :: u32) > 0x7F \<longleftrightarrow> c < 0 \<or> c > 127"
    using u assms by (simp add: word_less_def)
qed

lemma iswspace_int:
  assumes "- 0x80000000 \<le> c" and "c \<le> 0x7FFFFFFF"
  shows "iswspace (word_of_int c) = Some (if c = 32 \<or> 9 \<le> c \<and> c \<le> 13 then 8192 else 0)"
proof (cases "c < 0 \<or> c > 127")
  case False
  then have "iswspace (word_of_int c) = isspace c"
    using word_of_int_ascii [OF assms] by (simp add: iswspace_def isspace_def)
  then show ?thesis using False by (simp add: isspace_eq)
qed (use word_of_int_ascii(1) [OF assms] in \<open>auto simp: iswspace_def\<close>)

lemma towlower_int:
  assumes "- 0x80000000 \<le> c" and "c \<le> 0x7FFFFFFF"
  shows "towlower (word_of_int c) =
    Some (if c < 0 \<or> c > 127 then 0 else word_of_int (if 65 \<le> c \<and> c \<le> 90 then c + 32 else c))"
  using word_of_int_ascii [OF assms] by (auto simp: towlower_def tolower_eq)

text \<open>
  The wide classes agree with the byte classes on ASCII, and \<open>towupper\<close> and \<open>towlower\<close> return zero
  for every other character instead of the character itself.
\<close>

theorem wide_classes_are_ascii_only:
  "(ch \<le> 0x7F \<longrightarrow> iswupper ch = isupper (uint ch) \<and> iswlower ch = islower (uint ch) \<and>
      iswalpha ch = isalpha (uint ch) \<and> iswdigit ch = isdigit (uint ch) \<and> iswxdigit ch = isxdigit (uint ch) \<and>
      iswspace ch = isspace (uint ch) \<and> iswprint ch = isprint (uint ch) \<and> iswgraph ch = isgraph (uint ch) \<and>
      iswblank ch = isblank (uint ch) \<and> iswcntrl ch = iscntrl (uint ch) \<and> iswpunct ch = ispunct (uint ch) \<and>
      iswalnum ch = isalnum (uint ch)) \<and>
   (ch > 0x7F \<longrightarrow> iswupper ch = Some 0 \<and> iswalpha ch = Some 0 \<and> iswspace ch = Some 0 \<and> iswprint ch = Some 0 \<and>
      towupper ch = Some 0 \<and> towlower ch = Some 0)"
proof (cases "ch > 0x7F")
  case True
  then have "\<not> ch \<le> 0x7F" by (simp add: not_le)
  with True show ?thesis
    by (simp add: iswupper_def iswalpha_def iswspace_def iswprint_def towupper_def towlower_def)
next
  case False
  then show ?thesis using wide_classes_ascii [of ch] by simp
qed

theorem wide_classes_are_ascii_only_witness:
  "iswupper 0x41 = isupper (uint (0x41 :: u32)) \<and> towlower 0xE9 = Some 0"
  using wide_classes_are_ascii_only [of "0x41"] wide_classes_are_ascii_only [of "0xE9"] by simp

end
