(* ===== verification/Wstring.thy ===== *)
theory Wstring
  imports Cstring Wctype
begin

text \<open>
  The wide-string functions of \<^verbatim>\<open>src/ansi/wchar.cpp\<close> and \<^verbatim>\<open>src/posix/wchar.cpp\<close>, over a memory whose cells
  are wide characters.  \<open>wchar_t\<close> is a signed 32-bit type, so the difference of two characters may
  overflow, which is undefined (\<open>None\<close>).  A block of \<open>n\<close> characters is copied as \<open>n * 4\<close> bytes of a
  64-bit size.  The functions over \<open>hz::wstring_view\<close> are not modelled.

  The loops interpret the contracts of the byte strings.
\<close>

subsection \<open>Length and copying\<close>

partial_function (option) wcslen_loop :: "u32 mem \<Rightarrow> nat \<Rightarrow> nat \<Rightarrow> nat option" where
  "wcslen_loop m str len =
     do { c \<leftarrow> m str; if c \<noteq> 0 then wcslen_loop m (Suc str) (Suc len) else Some len }"

definition wcslen :: "u32 mem \<Rightarrow> nat \<Rightarrow> nat option" where
  "wcslen m str = wcslen_loop m str 0"

definition wide_cells :: "nat \<Rightarrow> nat" where
  "wide_cells n = (n * 4) mod 2 ^ 64 div 4"

definition wcscat :: "u32 mem \<Rightarrow> nat \<Rightarrow> nat \<Rightarrow> (u32 mem \<times> nat) option" where
  "wcscat m dest src =
     do { len \<leftarrow> wcslen m dest; src_len \<leftarrow> wcslen m src;
          (m', _) \<leftarrow> memcpy m (dest + len) src (wide_cells (src_len + 1)); Some (m', dest) }"

partial_function (option) wcscpy_loop :: "u32 mem \<Rightarrow> nat \<Rightarrow> nat \<Rightarrow> (u32 mem \<times> nat) option" where
  "wcscpy_loop m dest src =
     do { c \<leftarrow> m src;
          if c \<noteq> 0 then do { m' \<leftarrow> store m dest c; wcscpy_loop m' (Suc dest) (Suc src) }
          else Some (m, dest) }"

definition wcscpy :: "u32 mem \<Rightarrow> nat \<Rightarrow> nat \<Rightarrow> (u32 mem \<times> nat) option" where
  "wcscpy m dest src =
     do { (m', d) \<leftarrow> wcscpy_loop m dest src; m'' \<leftarrow> store m' d 0; Some (m'', dest) }"

fun wcsncpy_copy :: "u32 mem \<Rightarrow> nat \<Rightarrow> nat \<Rightarrow> nat \<Rightarrow> (u32 mem \<times> nat \<times> nat) option" where
  "wcsncpy_copy m dest src 0 = Some (m, dest, 0)"
| "wcsncpy_copy m dest src (Suc count) =
     do { c \<leftarrow> m src;
          if c \<noteq> 0 then do { m' \<leftarrow> store m dest c; wcsncpy_copy m' (Suc dest) (Suc src) count }
          else Some (m, dest, Suc count) }"

definition wcsncpy :: "u32 mem \<Rightarrow> nat \<Rightarrow> nat \<Rightarrow> nat \<Rightarrow> (u32 mem \<times> nat) option" where
  "wcsncpy m dest src count =
     do { (m', d, n) \<leftarrow> wcsncpy_copy m dest src count;
          if n \<noteq> 0 then do { m'' \<leftarrow> store m' d 0; Some (m'', dest) } else Some (m', dest) }"

subsection \<open>Comparison\<close>

partial_function (option) wcscmp :: "u32 mem \<Rightarrow> nat \<Rightarrow> nat \<Rightarrow> int option" where
  "wcscmp m lhs rhs =
     do { l \<leftarrow> m lhs; r \<leftarrow> m rhs; res \<leftarrow> ck32 (sint l - sint r);
          if res \<noteq> 0 \<or> l = 0 then Some res else wcscmp m (Suc lhs) (Suc rhs) }"

fun wcsncmp :: "u32 mem \<Rightarrow> nat \<Rightarrow> nat \<Rightarrow> nat \<Rightarrow> int option" where
  "wcsncmp m lhs rhs 0 = Some 0"
| "wcsncmp m lhs rhs (Suc count) =
     do { l \<leftarrow> m lhs; r \<leftarrow> m rhs; res \<leftarrow> ck32 (sint l - sint r);
          if res \<noteq> 0 \<or> l = 0 then Some res else wcsncmp m (Suc lhs) (Suc rhs) count }"

fun wmemcmp :: "u32 mem \<Rightarrow> nat \<Rightarrow> nat \<Rightarrow> nat \<Rightarrow> int option" where
  "wmemcmp m lhs rhs 0 = Some 0"
| "wmemcmp m lhs rhs (Suc count) =
     do { l \<leftarrow> m lhs; r \<leftarrow> m rhs; res \<leftarrow> ck32 (sint l - sint r);
          if res \<noteq> 0 then Some res else wmemcmp m (Suc lhs) (Suc rhs) count }"

definition wcscoll :: "u32 mem \<Rightarrow> nat \<Rightarrow> nat \<Rightarrow> int option" where
  "wcscoll m lhs rhs = wcscmp m lhs rhs"

partial_function (option) wcscasecmp :: "u32 mem \<Rightarrow> nat \<Rightarrow> nat \<Rightarrow> int option" where
  "wcscasecmp m s1 s2 =
     do { a \<leftarrow> m s1; b \<leftarrow> m s2; la \<leftarrow> towlower a; lb \<leftarrow> towlower b;
          let res = la - lb in
          if res \<noteq> 0 \<or> a = 0 then Some (sint res) else wcscasecmp m (Suc s1) (Suc s2) }"

subsection \<open>Search and blocks\<close>

fun wcsrchr_loop :: "u32 mem \<Rightarrow> nat \<Rightarrow> u32 \<Rightarrow> nat \<Rightarrow> nat option option" where
  "wcsrchr_loop m str ch 0 = Some None"
| "wcsrchr_loop m str ch (Suc i) =
     do { c \<leftarrow> m (str + i); if c = ch then Some (Some (str + i)) else wcsrchr_loop m str ch i }"

definition wcsrchr :: "u32 mem \<Rightarrow> nat \<Rightarrow> u32 \<Rightarrow> nat option option" where
  "wcsrchr m str ch = do { len \<leftarrow> wcslen m str; wcsrchr_loop m str ch (len + 1) }"

fun wmemchr :: "u32 mem \<Rightarrow> nat \<Rightarrow> u32 \<Rightarrow> nat \<Rightarrow> nat option option" where
  "wmemchr m p ch 0 = Some None"
| "wmemchr m p ch (Suc count) =
     do { c \<leftarrow> m p; if c = ch then Some (Some p) else wmemchr m (Suc p) ch count }"

partial_function (option) wcschr :: "u32 mem \<Rightarrow> nat \<Rightarrow> u32 \<Rightarrow> nat option option" where
  "wcschr m str ch =
     do { c \<leftarrow> m str;
          if c \<noteq> 0 then (if c = ch then Some (Some str) else wcschr m (Suc str) ch)
          else Some (if ch = 0 then Some str else None) }"

definition wmemcpy :: "u32 mem \<Rightarrow> nat \<Rightarrow> nat \<Rightarrow> nat \<Rightarrow> (u32 mem \<times> nat) option" where
  "wmemcpy m dest src count = memcpy m dest src (wide_cells count)"

definition wmemmove :: "u32 mem \<Rightarrow> nat \<Rightarrow> nat \<Rightarrow> nat \<Rightarrow> (u32 mem \<times> nat) option" where
  "wmemmove m dest src count = memmove m dest src (wide_cells count)"

fun wmemset_loop :: "u32 mem \<Rightarrow> nat \<Rightarrow> u32 \<Rightarrow> nat \<Rightarrow> u32 mem option" where
  "wmemset_loop m dest ch 0 = Some m"
| "wmemset_loop m dest ch (Suc n) = do { m' \<leftarrow> store m dest ch; wmemset_loop m' (Suc dest) ch n }"

definition wmemset :: "u32 mem \<Rightarrow> nat \<Rightarrow> u32 \<Rightarrow> nat \<Rightarrow> (u32 mem \<times> nat) option" where
  "wmemset m dest ch count = do { m' \<leftarrow> wmemset_loop m dest ch count; Some (m', dest) }"

definition wcsxfrm :: "u32 mem \<Rightarrow> nat option \<Rightarrow> nat \<Rightarrow> nat \<Rightarrow> (u32 mem \<times> nat) option" where
  "wcsxfrm m dest src count =
     do { len \<leftarrow> wcslen m src;
          case dest of
            Some d \<Rightarrow>
              (if count \<noteq> 0 then
                 (if len + 1 < count then do { (m', _) \<leftarrow> memcpy m d src (wide_cells (len + 1)); Some (m', len) }
                  else do { (m', _) \<leftarrow> memcpy m d src (wide_cells (count - 1));
                            m'' \<leftarrow> store m' (d + (count - 1)) 0; Some (m'', len) })
               else Some (m, len))
          | None \<Rightarrow> Some (m, len) }"

fun wcsnlen_loop :: "u32 mem \<Rightarrow> nat \<Rightarrow> nat \<Rightarrow> nat \<Rightarrow> nat option" where
  "wcsnlen_loop m str 0 len = Some len"
| "wcsnlen_loop m str (Suc max_len) len =
     do { c \<leftarrow> m str; if c \<noteq> 0 then wcsnlen_loop m (Suc str) max_len (Suc len) else Some len }"

definition wcsnlen :: "u32 mem \<Rightarrow> nat \<Rightarrow> nat \<Rightarrow> nat option" where
  "wcsnlen m str max_len = wcsnlen_loop m str max_len 0"

subsection \<open>Interpretations\<close>

interpretation wcs_scan: zero_scan wcslen_loop
  by unfold_locales (subst wcslen_loop.simps, simp)

interpretation wcs_copy: zero_copy wcscpy_loop "\<lambda>m d. Some (m, d)"
  by unfold_locales (subst wcscpy_loop.simps, simp)

lemmas wcslen_zstr = wcs_scan.len_loop_zstr [where n = 0, folded wcslen_def, simplified]

interpretation wcsn_copy: bounded_zero_copy wcsncpy_copy
  by unfold_locales simp_all

subsection \<open>Lemmas\<close>

lemma wide_cells_small: "n < 2 ^ 62 \<Longrightarrow> wide_cells n = n"
  by (simp add: wide_cells_def)

lemma wcscpy_zstr:
  assumes "zstr_at m src s" "mapped m dest (Suc (length s))" "disjoint_ranges dest (length s) src (Suc (length s))"
  shows "wcscpy m dest src = Some (put m dest (s @ [0]), dest)"
proof -
  have "wcscpy_loop m dest src = Some (put m dest s, dest + length s)"
    using wcs_copy.copy_loop_zstr [OF assms(1) _ assms(3)] mapped_mono [OF assms(2)] by simp
  moreover have "mapped (put m dest s) dest (Suc (length s))" using assms(2) by blast
  then have "put m dest s (dest + length s) \<noteq> None" by (simp add: mapped_def)
  ultimately show ?thesis by (simp add: wcscpy_def put_snoc)
qed

text \<open>Within 31 bits the difference of two characters does not overflow, and \<open>wcscmp\<close> is the difference at the first place.\<close>

lemma wcscmp_zstr:
  assumes "zstr_at m p s" "zstr_at m q t" "\<forall>c \<in> set s \<union> set t. 0 \<le> sint c"
  shows "wcscmp m p q = Some (first_diff (\<lambda>a b. sint a - sint b) (s @ [0]) (t @ [0]))"
  using assms
proof (induction s arbitrary: p q t)
  case Nil
  have "0 \<le> sint r \<Longrightarrow> ck32 (sint (0::u32) - sint r) = Some (- sint r)" for r :: u32
    using sint_less [of r] by (simp add: ck32_def int32_ok_def)
  with Nil show ?case by (subst wcscmp.simps) (cases t; auto simp: int32_ok_def)
next
  case (Cons x s)
  have ok: "0 \<le> sint a \<Longrightarrow> 0 \<le> sint b \<Longrightarrow> ck32 (sint a - sint b) = Some (sint a - sint b)" for a b :: u32
    using sint_less [of a] sint_less [of b] by (simp add: ck32_def int32_ok_def)
  show ?case
  proof (cases t)
    case Nil
    with Cons.prems ok [of x 0] show ?thesis by (subst wcscmp.simps) (auto simp: ck32_def signed_eq_0_iff split: if_splits)
  next
    case (Cons y t')
    with Cons.prems Cons.IH [of "Suc p" "Suc q" t'] ok [of x y] show ?thesis by (subst wcscmp.simps) (auto simp: ck32_def signed_eq_0_iff split: if_splits)
  qed
qed

lemma wcscmp_overflow: "wcscmp (mem_of 0 [0x7FFFFFFF, 0, 0xFFFFFFFF, 0]) 0 2 = None"
  by (subst wcscmp.simps) (simp add: mem_of_simp ck32_def int32_ok_def sint_u32_eq)

lemma wcsncpy_leaves_the_rest:
  assumes "zstr_at m src s" "mapped m dest n" "disjoint_ranges dest n src (length s + 1)"
  shows "wcsncpy m dest src n = Some (put m dest (take n (s @ [0])), dest)"
proof -
  have copy: "wcsncpy_copy m dest src n = Some (put m dest (take n s), dest + min n (length s), n - length s)"
    using assms mapped_mono [OF assms(2)] by (intro wcsn_copy.bounded_zstr) (auto simp: disjoint_ranges_def)
  show ?thesis
  proof (cases "length s < n")
    case True
    have "mapped (put m dest s) dest n" using assms(2) by blast
    then have "put m dest s (dest + length s) \<noteq> None" using True by (simp add: mapped_def)
    then show ?thesis using copy True by (simp add: wcsncpy_def put_snoc take_Cons')
  qed (use copy in \<open>simp add: wcsncpy_def\<close>)
qed

subsection \<open>Properties\<close>

text \<open>
  \<open>wcscat\<close> leaves the concatenation of the two wide strings with its terminator at the destination,
  writes nothing else, and \<open>wcslen\<close> of the result is the sum of the lengths.\<close>

theorem wcscat_appends:
  assumes "zstr_at m dest s" "zstr_at m src t" "mapped m (dest + length s) (Suc (length t))"
    "disjoint_ranges (dest + length s) (Suc (length t)) src (Suc (length t))" "length t < 2 ^ 62 - 1"
  shows "\<exists>m'. wcscat m dest src = Some (m', dest) \<and> zstr_at m' dest (s @ t)
    \<and> wcslen m' dest = Some (length s + length t)
    \<and> (\<forall>a. a < dest + length s \<or> dest + length s + length t < a \<longrightarrow> m' a = m a)"
proof -
  let ?m = "put m (dest + length s) (t @ [0])"
  have "memcpy m (dest + length s) src (length (t @ [0])) = Some (?m, dest + length s)"
    by (rule memcpy_cells)
      (use assms zstr_at_cells [OF assms(2)] in \<open>auto simp: disjoint_ranges_def\<close>)
  then have "wcscat m dest src = Some (?m, dest)"
    using assms by (simp add: wcscat_def wcslen_zstr wide_cells_small)
  moreover have "zstr_at ?m dest (s @ t)"
  proof -
    have "cells_at m dest s" using zstr_at_cells [OF assms(1)] by (simp add: cells_at_append)
    then have "cells_at ?m dest s" by (subst cells_at_put_disjoint) (auto simp: disjoint_ranges_def)
    then show ?thesis using zstr_at_put [of t m "dest + length s"] zstr_at_nonzero [OF assms(1)] zstr_at_nonzero [OF assms(2)]
      by (simp add: zstr_at_append)
  qed
  ultimately show ?thesis by (auto simp: wcslen_zstr put_outside)
qed

theorem wcscat_appends_witness:
  "\<exists>m'. wcscat (mem_of 0 [97, 0, 7, 7, 98, 99, 0]) 0 4 = Some (m', 0) \<and> zstr_at m' 0 ([97] @ [98, 99])"
  using wcscat_appends [of "mem_of 0 [97, 0, 7, 7, 98, 99, 0]" 0 "[97]" 4 "[98, 99]"]
  by (auto simp: mem_of_simp mapped_def disjoint_ranges_def)

end
