(* ===== verification/Utf8.thy ===== *)
theory Utf8
  imports Cmem
begin

text \<open>
  Conversion between multibyte (UTF-8) and wide characters: \<open>mbrtoc32\<close> of
  \<^verbatim>\<open>src/ansi/uchar.cpp\<close>, \<open>wcrtomb\<close>, \<open>mbrtowc\<close>, \<open>mbrlen\<close>, \<open>wctob\<close>, \<open>btowc\<close> and
  \<open>wcsrtombs\<close> of \<^verbatim>\<open>src/ansi/wchar.cpp\<close>, \<open>mblen\<close>, \<open>mbtowc\<close>, \<open>wctomb\<close>, \<open>wcstombs\<close> and \<open>mbstowcs\<close> of
  \<^verbatim>\<open>src/ansi/stdlib.cpp\<close>, \<open>mbsnrtowcs\<close> of \<^verbatim>\<open>src/internal/string.cpp\<close> and \<open>wcsnrtombs\<close> of
  \<^verbatim>\<open>src/posix/wchar.cpp\<close>.

  Byte strings and wide strings live in memories of their own.  \<open>size_t\<close> results are 64-bit words, so
  \<open>- 1\<close> and \<open>- 2\<close> are the special values.  \<open>wchar_t\<close> is a 32-bit word that \<open>wcrtomb\<close>
  compares as a signed number, as on x86.  A conversion from bytes yields the result, the character
  it stores if any, and the error; \<open>None\<close> is a read or write of an unmapped address.
\<close>

subsection \<open>One character\<close>

definition is_cont :: "u8 \<Rightarrow> bool" where
  "is_cont b \<longleftrightarrow> b AND 0xC0 = 0x80"

definition ILSEQ :: "u64 \<times> u32 option \<times> errno option" where
  "ILSEQ = (- 1, None, Some EILSEQ)"

definition INCOMPLETE :: "u64 \<times> u32 option \<times> errno option" where
  "INCOMPLETE = (- 2, None, None)"

definition mbrtoc32 :: "u8 mem \<Rightarrow> nat option \<Rightarrow> u64 \<Rightarrow> (u64 \<times> u32 option \<times> errno option) option" where
  "mbrtoc32 m src n =
     (case src of
        None \<Rightarrow> Some (0, None, None)
      | Some str \<Rightarrow>
          if n = 0 then Some INCOMPLETE
          else do { first \<leftarrow> m str;
            if first AND push_bit 7 1 = 0 then
              Some (if first = 0 then 0 else 1, Some (ucast first), None)
            else if first AND 0xE0 = 0xC0 then
              (if n = 1 then Some INCOMPLETE
               else do { second \<leftarrow> m (str + 1);
                 if \<not> is_cont second then Some ILSEQ
                 else Some (2, Some (ucast (second AND 0x3F) OR push_bit 6 (ucast (first AND 0x1F))), None) })
            else if first AND 0xF0 = 0xE0 then
              (if n = 1 then Some INCOMPLETE
               else do { second \<leftarrow> m (str + 1);
                 if \<not> is_cont second then Some ILSEQ
                 else if n = 2 then Some INCOMPLETE
                 else do { third \<leftarrow> m (str + 2);
                   if \<not> is_cont third then Some ILSEQ
                   else Some (3, Some (ucast (third AND 0x3F) OR push_bit 6 (ucast (second AND 0x3F))
                                       OR push_bit 12 (ucast (first AND 0xF))), None) } })
            else if first AND 0xF8 = 0xF0 then
              (if n = 1 then Some INCOMPLETE
               else do { second \<leftarrow> m (str + 1);
                 if \<not> is_cont second then Some ILSEQ
                 else if n = 2 then Some INCOMPLETE
                 else do { third \<leftarrow> m (str + 2);
                   if \<not> is_cont third then Some ILSEQ
                   else if n = 3 then Some INCOMPLETE
                   else do { fourth \<leftarrow> m (str + 3);
                     if \<not> is_cont fourth then Some ILSEQ
                     else Some (4, Some (ucast (fourth AND 0x3F) OR push_bit 6 (ucast (third AND 0x3F))
                                         OR push_bit 12 (ucast (second AND 0x3F))
                                         OR push_bit 18 (ucast (first AND 0x7))), None) } } })
            else Some ILSEQ })"

definition mbrtowc :: "u8 mem \<Rightarrow> nat option \<Rightarrow> u64 \<Rightarrow> (u64 \<times> u32 option \<times> errno option) option" where
  "mbrtowc m str len = mbrtoc32 m str len"

text \<open>The bytes \<open>wcrtomb\<close> stores.\<close>

definition wcrtomb_bytes :: "u32 \<Rightarrow> errno + u8 list" where
  "wcrtomb_bytes wc =
     (if sint wc \<le> 0x7F then Inr [ucast wc]
      else if sint wc \<le> 0x7FF then
        Inr [ucast (0xC0 OR drop_bit 6 wc), ucast (0x80 OR (wc AND 0x3F))]
      else if sint wc \<le> 0xFFFF then
        Inr [ucast (0xE0 OR drop_bit 12 wc), ucast (0x80 OR (drop_bit 6 wc AND 0x3F)), ucast (0x80 OR (wc AND 0x3F))]
      else if sint wc \<le> 0x10FFFF then
        Inr [ucast (0xF0 OR drop_bit 18 wc), ucast (0x80 OR (drop_bit 12 wc AND 0x3F)),
             ucast (0x80 OR (drop_bit 6 wc AND 0x3F)), ucast (0x80 OR (wc AND 0x3F))]
      else Inl EILSEQ)"

fun store_list :: "'a mem \<Rightarrow> nat \<Rightarrow> 'a list \<Rightarrow> 'a mem option" where
  "store_list m a [] = Some m"
| "store_list m a (x # xs) = do { m' \<leftarrow> store m a x; store_list m' (a + 1) xs }"

definition wcrtomb :: "u8 mem \<Rightarrow> nat option \<Rightarrow> u32 \<Rightarrow> (u8 mem \<times> u64 \<times> errno option) option" where
  "wcrtomb m str wc =
     (case wcrtomb_bytes wc of
        Inl e \<Rightarrow> Some (m, - 1, Some e)
      | Inr bs \<Rightarrow>
          (case str of
             None \<Rightarrow> Some (m, word_of_nat (length bs), None)
           | Some p \<Rightarrow> map_option (\<lambda>m'. (m', word_of_nat (length bs), None)) (store_list m p bs)))"

definition mbrlen :: "u8 mem \<Rightarrow> nat option \<Rightarrow> u64 \<Rightarrow> (u64 \<times> errno option) option" where
  "mbrlen m str len =
     (case str of
        None \<Rightarrow> Some (0, None)
      | Some p \<Rightarrow>
          do { (sz, _, e) \<leftarrow> mbrtowc m str len;
               if sz = - 1 \<or> sz = - 2 then Some (- 1, e)
               else do { c \<leftarrow> m p; Some (if c = 0 then 0 else scast (ucast sz :: u32), e) } })"

definition mblen :: "u8 mem \<Rightarrow> nat option \<Rightarrow> u64 \<Rightarrow> (int \<times> errno option) option" where
  "mblen m str len =
     (case str of
        None \<Rightarrow> Some (0, None)
      | Some p \<Rightarrow>
          do { (sz, _, e) \<leftarrow> mbrtowc m str len;
               if sz = - 1 \<or> sz = - 2 then Some (- 1, e)
               else do { c \<leftarrow> m p; Some (if c = 0 then 0 else sint (ucast sz :: u32), e) } })"

definition mbtowc :: "u8 mem \<Rightarrow> nat option \<Rightarrow> u64 \<Rightarrow> (int \<times> u32 option \<times> errno option) option" where
  "mbtowc m str len =
     do { (sz, wc, e) \<leftarrow> mbrtowc m str len;
          Some (if sz = - 1 \<or> sz = - 2 then - 1 else sint (ucast sz :: u32), wc, e) }"

definition wctomb :: "u8 mem \<Rightarrow> nat option \<Rightarrow> u32 \<Rightarrow> (u8 mem \<times> int \<times> errno option) option" where
  "wctomb m str wc =
     do { (m', sz, e) \<leftarrow> wcrtomb m str wc;
          Some (m', if sz = - 1 then - 1 else sint (ucast sz :: u32), e) }"

definition wctob :: "u32 \<Rightarrow> int" where
  "wctob ch = (if ch \<le> 0x7F then uint ch else - 1)"

definition btowc :: "int \<Rightarrow> u32" where
  "btowc ch = (if ch < 0 then 0xFFFFFFFF else word_of_int ch)"

subsection \<open>Strings\<close>

text \<open>
  \<open>wcsrtombs\<close> and \<open>wcstombs\<close>: the state is the byte memory, the destination, the room left and the
  bytes written.  The result is the memory, the return value and the source pointer, null at the end.
\<close>

partial_function (option) wcsrtombs_loop ::
    "u32 mem \<Rightarrow> u8 mem \<Rightarrow> nat option \<Rightarrow> nat \<Rightarrow> u64 \<Rightarrow> u64 \<Rightarrow> (u8 mem \<times> u64 \<times> nat option \<times> errno option) option" where
  "wcsrtombs_loop w m dest ptr len sz =
     do { wc \<leftarrow> w ptr;
          case wcrtomb_bytes wc of
            Inl e \<Rightarrow> Some (m, - 1, Some ptr, Some e)
          | Inr bs \<Rightarrow>
              let ret = word_of_nat (length bs) in
              if ret > len then Some (m, sz, Some ptr, None)
              else do {
                m' \<leftarrow> (case dest of None \<Rightarrow> Some m | Some d \<Rightarrow> store_list m d bs);
                if wc = 0 then Some (m', sz + ret - 1, None, None)
                else wcsrtombs_loop w m' (map_option (\<lambda>d. d + length bs) dest) (ptr + 1) (len - ret) (sz + ret) } }"

definition wcsrtombs ::
    "u32 mem \<Rightarrow> u8 mem \<Rightarrow> nat option \<Rightarrow> nat \<Rightarrow> u64 \<Rightarrow> (u8 mem \<times> u64 \<times> nat option \<times> errno option) option" where
  "wcsrtombs w m dest src len = wcsrtombs_loop w m dest src (if dest = None then - 1 else len) 0"

definition wcstombs :: "u32 mem \<Rightarrow> u8 mem \<Rightarrow> nat option \<Rightarrow> nat \<Rightarrow> u64 \<Rightarrow> (u8 mem \<times> u64 \<times> errno option) option" where
  "wcstombs w m dest src len =
     do { (m', r, _, e) \<leftarrow> wcsrtombs_loop w m dest src (if dest = None then - 1 else len) 0; Some (m', r, e) }"

text \<open>\<open>mbsnrtowcs\<close>: \<open>i\<close> counts the bytes read, \<open>written\<close> the characters; the destination is wide.
  A null source makes \<open>mbrtowc\<close> return without storing \<open>buf\<close>, which the loop then reads, so the source is an
  address here.\<close>

partial_function (option) mbsnrtowcs_loop ::
    "u8 mem \<Rightarrow> u32 mem \<Rightarrow> nat option \<Rightarrow> nat \<Rightarrow> u64 \<Rightarrow> u64 \<Rightarrow> u64 \<Rightarrow> u64 \<Rightarrow> (u32 mem \<times> u64 \<times> nat option \<times> errno option) option" where
  "mbsnrtowcs_loop m w dest src num_chars len i written =
     (if i < num_chars then
        do { (used, wc, e) \<leftarrow> mbrtowc m (Some src) (num_chars - i);
             if used = - 1 then Some (w, - 1, Some src, e)
             else if used = - 2 then Some (w, written, Some src, None)
             else do { buf \<leftarrow> wc;
               case dest of
                 None \<Rightarrow>
                   (if buf = 0 then Some (w, written, None, None)
                    else mbsnrtowcs_loop m w None (src + unat used) num_chars len (i + used) (written + 1))
               | Some d \<Rightarrow>
                   (if written + 1 > len then Some (w, written, Some src, None)
                    else do { w' \<leftarrow> store w d buf;
                      if buf = 0 then Some (w', written, None, None)
                      else mbsnrtowcs_loop m w' (Some (d + 1)) (src + unat used) num_chars len (i + used) (written + 1) }) } }
      else Some (w, written, Some src, None))"

definition mbsnrtowcs ::
    "u8 mem \<Rightarrow> u32 mem \<Rightarrow> nat option \<Rightarrow> nat \<Rightarrow> u64 \<Rightarrow> u64 \<Rightarrow> (u32 mem \<times> u64 \<times> nat option \<times> errno option) option" where
  "mbsnrtowcs m w dest src num_chars len = mbsnrtowcs_loop m w dest src num_chars len 0 0"

definition mbsrtowcs ::
    "u8 mem \<Rightarrow> u32 mem \<Rightarrow> nat option \<Rightarrow> nat \<Rightarrow> u64 \<Rightarrow> (u32 mem \<times> u64 \<times> nat option \<times> errno option) option" where
  "mbsrtowcs m w dest src len = mbsnrtowcs m w dest src (- 1) len"

definition mbstowcs :: "u8 mem \<Rightarrow> u32 mem \<Rightarrow> nat option \<Rightarrow> nat \<Rightarrow> u64 \<Rightarrow> (u32 mem \<times> u64 \<times> errno option) option" where
  "mbstowcs m w dest src len = do { (w', r, _, e) \<leftarrow> mbsrtowcs m w dest src len; Some (w', r, e) }"

text \<open>\<open>wcsnrtombs\<close>; \<open>n\<close> wide characters may still be read.\<close>

fun wcsnrtombs_loop ::
    "nat \<Rightarrow> u32 mem \<Rightarrow> u8 mem \<Rightarrow> nat option \<Rightarrow> nat \<Rightarrow> u64 \<Rightarrow> u64 \<Rightarrow> (u8 mem \<times> u64 \<times> nat option \<times> errno option) option" where
  "wcsnrtombs_loop 0 w m dest src len written = Some (m, written, Some src, None)"
| "wcsnrtombs_loop (Suc n) w m dest src len written =
     do { wc \<leftarrow> w src;
          case wcrtomb_bytes wc of
            Inl e \<Rightarrow> Some (m, - 1, Some src, Some e)
          | Inr bs \<Rightarrow>
              let bytes = word_of_nat (length bs) in
              (case dest of
                 None \<Rightarrow>
                   (if wc = 0 then Some (m, written + bytes, None, None)
                    else wcsnrtombs_loop n w m None (src + 1) len (written + bytes))
               | Some d \<Rightarrow>
                   if written + bytes > len then Some (m, written, Some src, None)
                   else do { m' \<leftarrow> store_list m d bs;
                     if wc = 0 then Some (m', written + bytes, None, None)
                     else wcsnrtombs_loop n w m' (Some (d + length bs)) (src + 1) len (written + bytes) }) }"

definition wcsnrtombs ::
    "u32 mem \<Rightarrow> u8 mem \<Rightarrow> nat option \<Rightarrow> nat \<Rightarrow> u64 \<Rightarrow> u64 \<Rightarrow> (u8 mem \<times> u64 \<times> nat option \<times> errno option) option" where
  "wcsnrtombs w m dest src num_wc len = wcsnrtombs_loop (unat num_wc) w m dest src len 0"


lemma add_3_Suc: "(p :: nat) + 3 = Suc (Suc (Suc p))"
  by simp

subsection \<open>Bits\<close>

lemma u8_eq_iff: "(a :: u8) = b \<longleftrightarrow> (\<forall>n < 8. bit a n = bit b n)"
  by (auto intro: bit_word_eqI)

lemma cont_is_cont: "is_cont (ucast (0x80 OR ((w::u32) AND 0x3F)))"
  by (simp add: is_cont_def u8_eq_iff all_less_8 bit_simps)

lemma all_less_32: "(\<forall>n < (32::nat). P n) \<longleftrightarrow> P 0 \<and> P 1 \<and> P 2 \<and> P 3 \<and> P 4 \<and> P 5 \<and> P 6 \<and> P 7
    \<and> P 8 \<and> P 9 \<and> P 10 \<and> P 11 \<and> P 12 \<and> P 13 \<and> P 14 \<and> P 15 \<and> P 16 \<and> P 17 \<and> P 18 \<and> P 19 \<and> P 20
    \<and> P 21 \<and> P 22 \<and> P 23 \<and> P 24 \<and> P 25 \<and> P 26 \<and> P 27 \<and> P 28 \<and> P 29 \<and> P 30 \<and> P 31"
  by (simp add: numeral_eq_Suc All_less_Suc) blast

lemma u32_eq_iff: "(a :: u32) = b \<longleftrightarrow> (\<forall>n < 32. bit a n = bit b n)"
  by (auto intro: bit_word_eqI)


lemma lead2:
  fixes wc :: u32
  assumes "uint wc < 2 ^ 11"
  defines "b \<equiv> ucast (0xC0 OR drop_bit 6 wc) :: u8"
  shows "b AND 0x80 \<noteq> 0" "b AND 0xE0 = 0xC0"
  unfolding b_def u8_eq_iff all_less_8 by (simp_all add: bit_simps high_bits_zero [OF assms(1)])

lemma lead3:
  fixes wc :: u32
  assumes "uint wc < 2 ^ 16"
  defines "b \<equiv> ucast (0xE0 OR drop_bit 12 wc) :: u8"
  shows "b AND 0x80 \<noteq> 0" "b AND 0xE0 \<noteq> 0xC0" "b AND 0xF0 = 0xE0"
  unfolding b_def u8_eq_iff all_less_8 by (simp_all add: bit_simps high_bits_zero [OF assms(1)])

lemma lead4:
  fixes wc :: u32
  assumes "uint wc < 2 ^ 21"
  defines "b \<equiv> ucast (0xF0 OR drop_bit 18 wc) :: u8"
  shows "b AND 0x80 \<noteq> 0" "b AND 0xE0 \<noteq> 0xC0" "b AND 0xF0 \<noteq> 0xE0" "b AND 0xF8 = 0xF0"
  unfolding b_def u8_eq_iff all_less_8 by (simp_all add: bit_simps high_bits_zero [OF assms(1)])

lemma join2:
  fixes wc :: u32
  assumes "uint wc < 2 ^ 11"
  shows "ucast ((ucast (0x80 OR (wc AND 0x3F)) :: u8) AND 0x3F)
           OR push_bit 6 (ucast ((ucast (0xC0 OR drop_bit 6 wc) :: u8) AND 0x1F)) = wc"
  unfolding u32_eq_iff all_less_32 by (simp add: bit_simps high_bits_zero [OF assms])

lemma join3:
  fixes wc :: u32
  assumes "uint wc < 2 ^ 16"
  shows "ucast ((ucast (0x80 OR (wc AND 0x3F)) :: u8) AND 0x3F)
           OR push_bit 6 (ucast ((ucast (0x80 OR (drop_bit 6 wc AND 0x3F)) :: u8) AND 0x3F))
           OR push_bit 12 (ucast ((ucast (0xE0 OR drop_bit 12 wc) :: u8) AND 0xF)) = wc"
  unfolding u32_eq_iff all_less_32 by (simp add: bit_simps high_bits_zero [OF assms])

lemma join4:
  fixes wc :: u32
  assumes "uint wc < 2 ^ 21"
  shows "ucast ((ucast (0x80 OR (wc AND 0x3F)) :: u8) AND 0x3F)
           OR push_bit 6 (ucast ((ucast (0x80 OR (drop_bit 6 wc AND 0x3F)) :: u8) AND 0x3F))
           OR push_bit 12 (ucast ((ucast (0x80 OR (drop_bit 12 wc AND 0x3F)) :: u8) AND 0x3F))
           OR push_bit 18 (ucast ((ucast (0xF0 OR drop_bit 18 wc) :: u8) AND 0x7)) = wc"
  unfolding u32_eq_iff all_less_32 by (simp add: bit_simps high_bits_zero [OF assms])

lemma ascii_byte:
  fixes wc :: u32
  assumes "uint wc < 2 ^ 7"
  shows "(ucast wc :: u8) AND 0x80 = 0" "ucast (ucast wc :: u8) = wc" "(ucast wc :: u8) = 0 \<longleftrightarrow> wc = 0"
proof -
  show "(ucast wc :: u8) AND 0x80 = 0"
    unfolding u8_eq_iff all_less_8 by (simp add: bit_simps high_bits_zero [OF assms])
  show eq: "ucast (ucast wc :: u8) = wc"
    unfolding u32_eq_iff all_less_32 by (simp add: bit_simps high_bits_zero [OF assms])
  show "(ucast wc :: u8) = 0 \<longleftrightarrow> wc = 0" using eq by auto
qed

lemmas mb_defs = mbrtoc32_def INCOMPLETE_def ILSEQ_def

lemma u64_ge_cases: "(n :: u64) = 0 \<or> n = 1 \<or> n = 2 \<or> n = 3 \<or> 4 \<le> n"
  by unat_arith

lemma sint_codepoint: "uint (wc :: u32) \<le> 0x10FFFF \<Longrightarrow> sint wc = uint wc"
  by (simp add: sint_u32_eq)

lemma decode_encoded:
  assumes wc: "uint wc \<le> 0x10FFFF" and bs: "wcrtomb_bytes wc = Inr bs" and at: "cells_at m p bs"
  shows "mbrtoc32 m (Some p) n =
           Some (if unat n < length bs then INCOMPLETE
                 else (if wc = 0 then 0 else word_of_nat (length bs), Some wc, None))"
proof -
  note [simp] = sint_codepoint [OF wc]
  consider "uint wc \<le> 0x7F" | "0x7F < uint wc" "uint wc \<le> 0x7FF" | "0x7FF < uint wc" "uint wc \<le> 0xFFFF"
    | "0xFFFF < uint wc" using wc by linarith
  then show ?thesis
  proof cases
    case 1
    have u: "uint wc < 2 ^ 7" using 1 by simp
    show ?thesis using bs at 1 by (auto simp: wcrtomb_bytes_def mb_defs ascii_byte [OF u] unat_eq_zero)
  next
    case 2
    have u: "uint wc < 2 ^ 11" using 2 by simp
    have "wc \<noteq> 0" using 2 by auto
    then show ?thesis using bs at 2 u64_ge_cases [of n]
      by (auto simp: wcrtomb_bytes_def mb_defs lead2 [OF u] join2 [OF u] cont_is_cont word_le_nat_alt)
  next
    case 3
    have u: "uint wc < 2 ^ 16" using 3 by simp
    have "wc \<noteq> 0" using 3 by auto
    then show ?thesis using bs at 3 u64_ge_cases [of n]
      by (auto simp: wcrtomb_bytes_def mb_defs lead3 [OF u] join3 [OF u] cont_is_cont word_le_nat_alt)
  next
    case 4
    have u: "uint wc < 2 ^ 21" using wc by simp
    have "wc \<noteq> 0" using 4 by auto
    then show ?thesis using bs at 4 wc u64_ge_cases [of n]
      by (auto simp: wcrtomb_bytes_def mb_defs lead4 [OF u] join4 [OF u] cont_is_cont word_le_nat_alt add_3_Suc)
  qed
qed

subsection \<open>Whole strings\<close>

text \<open>The characters \<open>wcrtomb\<close> and \<open>mbrtoc32\<close> agree on, and the encoding of a string.\<close>

definition codepoint :: "u32 \<Rightarrow> bool" where
  "codepoint wc \<longleftrightarrow> uint wc \<le> 0x10FFFF"

definition utf8 :: "u32 \<Rightarrow> u8 list" where
  "utf8 wc = (case wcrtomb_bytes wc of Inr bs \<Rightarrow> bs | Inl _ \<Rightarrow> [])"

definition utf8s :: "u32 list \<Rightarrow> u8 list" where
  "utf8s ws = concat (map utf8 ws)"

lemma utf8s_simps [simp]: "utf8s [] = []" "utf8s (w # ws) = utf8 w @ utf8s ws"
  by (simp_all add: utf8s_def)

lemma wcrtomb_codepoint: "codepoint wc \<Longrightarrow> wcrtomb_bytes wc = Inr (utf8 wc)"
  by (auto simp: codepoint_def utf8_def wcrtomb_bytes_def sint_codepoint)

lemma utf8_length: "codepoint wc \<Longrightarrow> 1 \<le> length (utf8 wc) \<and> length (utf8 wc) \<le> 4"
  by (auto simp: codepoint_def utf8_def wcrtomb_bytes_def sint_codepoint)

lemma codepoint_0 [simp]: "codepoint 0" "utf8 0 = [0]" "wcrtomb_bytes 0 = Inr [0]"
  by (auto simp: codepoint_def utf8_def wcrtomb_bytes_def)

lemma decode_utf8:
  "codepoint wc \<Longrightarrow> cells_at m p (utf8 wc) \<Longrightarrow> length (utf8 wc) \<le> unat n \<Longrightarrow>
   mbrtowc m (Some p) n = Some (if wc = 0 then 0 else word_of_nat (length (utf8 wc)), Some wc, None)"
  using decode_encoded [OF _ wcrtomb_codepoint, of wc m p n] by (simp add: mbrtowc_def codepoint_def)

lemma store_list_put: "mapped m a (length xs) \<Longrightarrow> store_list m a xs = Some (put m a xs)"
proof (induction xs arbitrary: m a)
  case (Cons x xs)
  then have "mapped (m(a \<mapsto> x)) (Suc a) (length xs)" by (auto simp: mapped_Suc)
  with Cons show ?case by (simp add: put_Cons mapped_Suc)
qed simp

lemma wcsrtombs_loop_utf8:
  assumes "zstr_at w ptr ws" "list_all codepoint ws" "mapped m d (length (utf8s ws) + 1)"
    "length (utf8s ws) < unat len"
  shows "wcsrtombs_loop w m (Some d) ptr len sz =
           Some (put m d (utf8s ws @ [0]), sz + word_of_nat (length (utf8s ws)), None, None)"
  using assms
proof (induction ws arbitrary: m d ptr len sz)
  case Nil
  then have "\<not> len < 1" by (simp add: word_less_nat_alt)
  then show ?case using Nil
    by (subst wcsrtombs_loop.simps) (simp add: Let_def put_Cons mapped_Suc)
next
  case (Cons x ws)
  define k where "k = length (utf8 x)"
  have k: "1 \<le> k" "k \<le> 4" using Cons.prems utf8_length k_def by auto
  have len: "k + length (utf8s ws) < unat len" using Cons.prems k_def by simp
  have uk: "unat (word_of_nat k :: u64) = k" using k by (simp add: unat_u64_of_nat)
  have nlt: "\<not> len < word_of_nat k" using len uk by (simp add: word_less_nat_alt)
  then have sub: "unat (len - word_of_nat k) = unat len - k" using uk len by (simp add: unat_u64_sub)
  have mem: "mapped m d k" "mapped (put m d (utf8 x)) (d + k) (length (utf8s ws) + 1)"
    using Cons.prems(3) mapped_mono [of m d _ k] mapped_shift [of m d _ k "length (utf8s ws) + 1"]
    by (auto simp: k_def)
  have "wcsrtombs_loop w m (Some d) ptr len sz =
          wcsrtombs_loop w (put m d (utf8 x)) (Some (d + k)) (ptr + 1) (len - word_of_nat k) (sz + word_of_nat k)"
    using Cons.prems(1,2) nlt store_list_put [of m d "utf8 x"] mem(1)
    by (subst wcsrtombs_loop.simps) (simp add: Let_def wcrtomb_codepoint k_def)
  also have "\<dots> = Some (put (put m d (utf8 x)) (d + k) (utf8s ws @ [0]),
                          sz + word_of_nat k + word_of_nat (length (utf8s ws)), None, None)"
    by (rule Cons.IH) (use Cons.prems(1,2) mem(2) sub len in auto)
  finally show ?case by (simp add: put_append k_def add.assoc)
qed

lemma mbsnrtowcs_loop_utf8:
  assumes "cells_at m src (utf8s ws @ [0])" "0 \<notin> set ws" "list_all codepoint ws" "mapped w d (length ws + 1)"
    "unat i + length (utf8s ws) < unat num" "unat written + length ws < unat len"
  shows "mbsnrtowcs_loop m w (Some d) src num len i written =
           Some (put w d (ws @ [0]), written + word_of_nat (length ws), None, None)"
  using assms
proof (induction ws arbitrary: w d src i written)
  case Nil
  have lt: "i < num" using Nil by (simp add: word_less_nat_alt)
  have "mbrtowc m (Some src) (num - i) = Some (0, Some 0, None)"
    using Nil decode_utf8 [of 0 m src "num - i"] by (simp add: unat_u64_sub)
  moreover have "\<not> len < written + 1"
    using Nil unat_u64_less [of len] by (simp add: word_less_nat_alt unat_u64_add)
  ultimately show ?case using Nil lt
    by (subst mbsnrtowcs_loop.simps) (simp add: put_Cons mapped_Suc)
next
  case (Cons x ws)
  define k where "k = length (utf8 x)"
  have k: "1 \<le> k" "k \<le> 4" using Cons.prems utf8_length k_def by auto
  have uk: "unat (word_of_nat k :: u64) = k" using k by (simp add: unat_u64_of_nat)
  have num: "unat i + k + length (utf8s ws) < unat num" using Cons.prems(5) by (simp add: k_def)
  have lt: "i < num" using num by (simp add: word_less_nat_alt)
  have ui: "unat (i + word_of_nat k) = unat i + k"
    using num unat_u64_less [of num] uk by (simp add: unat_u64_add)
  have uw: "unat (written + 1) = unat written + 1"
    using Cons.prems(6) unat_u64_less [of len] by (simp add: unat_u64_add)
  have dec: "mbrtowc m (Some src) (num - i) = Some (word_of_nat k, Some x, None)"
    using Cons.prems num decode_utf8 [of x m src "num - i"]
    by (auto simp: unat_u64_sub cells_at_append k_def)
  have special: "word_of_nat k \<noteq> (- 1 :: u64)" "word_of_nat k \<noteq> (- 2 :: u64)"
    using k uk by (auto simp: unat_u64_minus_1)
  have map': "mapped (w(d \<mapsto> x)) (d + 1) (length ws + 1)"
    by (rule mapped_upd) (use Cons.prems(4) in \<open>simp add: mapped_Suc\<close>)
  have "mbsnrtowcs_loop m w (Some d) src num len i written =
          mbsnrtowcs_loop m (w(d \<mapsto> x)) (Some (d + 1)) (src + k) num len (i + word_of_nat k) (written + 1)"
    using Cons.prems(2,4,6) lt dec special uw uk
    by (subst mbsnrtowcs_loop.simps) (simp add: mapped_Suc word_less_nat_alt)
  also have "\<dots> = Some (put (w(d \<mapsto> x)) (d + 1) (ws @ [0]), written + 1 + word_of_nat (length ws), None, None)"
    by (rule Cons.IH [OF _ _ _ map']) (use Cons.prems(1,2,3,6) num ui uw in \<open>auto simp: cells_at_append k_def add.assoc\<close>)
  finally show ?case by (simp add: put_Cons add.assoc)
qed

subsection \<open>Properties\<close>

text \<open>
  C38. \<open>wcrtomb\<close> followed by \<open>mbrtoc32\<close> is the identity on every character up to 0x10FFFF: \<open>wcrtomb\<close>
  writes between one and four bytes and nothing else, and \<open>mbrtoc32\<close> reads back the character and
  that length (0 for the null character) when it may read all the bytes, and reports an
  incomplete character for every shorter prefix.\<close>

theorem wcrtomb_mbrtoc32_roundtrip:
  assumes "uint wc \<le> 0x10FFFF" "mapped m p 4"
  shows "\<exists>m' k. wcrtomb m (Some p) wc = Some (m', k, None) \<and> 1 \<le> unat k \<and> unat k \<le> 4
    \<and> (\<forall>b. b < p \<or> p + unat k \<le> b \<longrightarrow> m' b = m b)
    \<and> (\<forall>n. mbrtoc32 m' (Some p) n =
           Some (if n < k then (- 2, None, None) else (if wc = 0 then 0 else k, Some wc, None)))"
proof -
  have cp: "codepoint wc" using assms(1) by (simp add: codepoint_def)
  have len: "1 \<le> length (utf8 wc)" "length (utf8 wc) \<le> 4" using utf8_length [OF cp] by auto
  then have u: "unat (word_of_nat (length (utf8 wc)) :: u64) = length (utf8 wc)" by (simp add: unat_u64_of_nat)
  have "wcrtomb m (Some p) wc = Some (put m p (utf8 wc), word_of_nat (length (utf8 wc)), None)"
    using store_list_put [of m p "utf8 wc"] mapped_mono [OF assms(2) len(2)]
    by (simp add: wcrtomb_def wcrtomb_codepoint [OF cp])
  moreover have "mbrtoc32 (put m p (utf8 wc)) (Some p) n =
      Some (if n < word_of_nat (length (utf8 wc)) then (- 2, None, None)
            else (if wc = 0 then 0 else word_of_nat (length (utf8 wc)), Some wc, None))" for n
    using decode_encoded [OF assms(1) wcrtomb_codepoint [OF cp] cells_at_put] u
    by (simp add: word_less_nat_alt INCOMPLETE_def)
  ultimately show ?thesis using len u by (intro exI conjI) (auto simp: put_outside)
qed

theorem wcrtomb_mbrtoc32_roundtrip_witness:
  "\<exists>m' k. wcrtomb (mem_of 0 [0, 0, 0, 0]) (Some 0) 0x20AC = Some (m', k, None)
     \<and> mbrtoc32 m' (Some 0) 4 = Some (k, Some 0x20AC, None)"
proof -
  have "mapped (mem_of 0 [0, 0, 0, 0 :: u8]) 0 4" by (simp add: mapped_def mem_of_simp)
  from wcrtomb_mbrtoc32_roundtrip [of "0x20AC", OF _ this] obtain m' k where
    "wcrtomb (mem_of 0 [0, 0, 0, 0]) (Some 0) 0x20AC = Some (m', k, None)" "unat k \<le> 4"
    "mbrtoc32 m' (Some 0) 4 = Some (if 4 < k then (- 2, None, None) else (k, Some 0x20AC, None))" by auto
  then show ?thesis by (auto simp: word_less_nat_alt)
qed

text \<open>
  C37. \<open>wcstombs\<close> followed by \<open>mbstowcs\<close> gives the string back: for a wide string of characters up to
  0x10FFFF and buffers with room for the terminator, both calls return, \<open>wcstombs\<close> returns the
  number of bytes before the terminator, \<open>mbstowcs\<close> the number of characters, and the wide buffer
  holds the string with its terminator; nothing outside the two buffers changes.\<close>

theorem wcstombs_mbstowcs_roundtrip:
  assumes "zstr_at w src ws" "\<forall>c \<in> set ws. uint c \<le> 0x10FFFF"
    "4 * length ws < unat len" "mapped m d (unat len)" "length ws < unat wlen" "mapped w' wd (unat wlen)"
  shows "\<exists>m' n. wcstombs w m (Some d) src len = Some (m', n, None)
    \<and> length ws \<le> unat n \<and> unat n \<le> 4 * length ws
    \<and> (\<forall>b. b < d \<or> d + unat n < b \<longrightarrow> m' b = m b)
    \<and> mbstowcs m' w' (Some wd) d wlen = Some (put w' wd (ws @ [0]), word_of_nat (length ws), None)"
proof -
  have cp: "list_all codepoint ws" using assms(2) by (simp add: list_all_iff codepoint_def)
  have bounds: "length ws \<le> length (utf8s ws)" "length (utf8s ws) \<le> 4 * length ws"
    using cp by (induction ws) (use utf8_length in \<open>fastforce+\<close>)
  define bs where "bs = utf8s ws"
  have u: "unat (word_of_nat (length bs) :: u64) = length bs"
    using bounds assms(3) unat_u64_less [of len] by (simp add: bs_def unat_u64_of_nat)
  have "wcstombs w m (Some d) src len = Some (put m d (bs @ [0]), word_of_nat (length bs), None)"
    unfolding wcstombs_def bs_def
    using wcsrtombs_loop_utf8 [OF assms(1) cp, of m d len 0] bounds assms(3)
      mapped_mono [OF assms(4), of "length (utf8s ws) + 1"] by simp
  moreover have "mbstowcs (put m d (bs @ [0])) w' (Some wd) d wlen =
      Some (put w' wd (ws @ [0]), word_of_nat (length ws), None)"
    unfolding mbstowcs_def mbsrtowcs_def mbsnrtowcs_def bs_def
    using mbsnrtowcs_loop_utf8 [OF cells_at_put [of m d "utf8s ws @ [0]"], of w' wd 0 "- 1" 0 wlen]
      zstr_at_nonzero [OF assms(1)] cp mapped_mono [OF assms(6), of "length ws + 1"] assms(3,5) bounds
      unat_u64_less [of len] by (simp add: unat_u64_minus_1)
  ultimately show ?thesis using bounds u
    by (intro exI conjI) (auto simp: bs_def put_outside)
qed

theorem wcstombs_mbstowcs_roundtrip_witness:
  "\<exists>m' n. wcstombs (mem_of 0 [0x41, 0x20AC, 0]) (mem_of 0 (replicate 9 0)) (Some 0) 0 9 = Some (m', n, None)
     \<and> mbstowcs m' (mem_of 0 [7, 7, 7]) (Some 0) 0 3 =
         Some (put (mem_of 0 [7, 7, 7]) 0 [0x41, 0x20AC, 0], 2, None)"
proof -
  have "zstr_at (mem_of 0 [0x41, 0x20AC, 0 :: u32]) 0 [0x41, 0x20AC]" by (simp add: zstr_at_def mem_of_simp)
  moreover have "mapped (mem_of 0 (replicate 9 (0::u8))) 0 (unat (9 :: u64))" by (simp add: mapped_def mem_of_simp)
  moreover have "mapped (mem_of 0 [7, 7, 7 :: u32]) 0 (unat (3 :: u64))" by (simp add: mapped_def mem_of_simp)
  ultimately show ?thesis
    using wcstombs_mbstowcs_roundtrip [of "mem_of 0 [0x41, 0x20AC, 0]" 0 "[0x41, 0x20AC]" 9
        "mem_of 0 (replicate 9 0)" 0 3 "mem_of 0 [7, 7, 7]" 0] by auto
qed

text \<open>
  \<open>mbrtoc32\<close> accepts an overlong null and a surrogate, \<open>wcrtomb\<close> a negative character; \<open>wcsnrtombs\<close>
  counts the terminator that \<open>wcsrtombs\<close> leaves out.\<close>

lemma mbrtoc32_accepts_ill_formed:
  "mbrtoc32 (mem_of 0 [0xC0, 0x80]) (Some 0) 2 = Some (2, Some 0, None)"
  "mbrtoc32 (mem_of 0 [0xED, 0xA0, 0x80]) (Some 0) 3 = Some (3, Some 0xD800, None)"
  "wcrtomb_bytes 0xFFFFFFFF = Inr [0xFF]"
  by (simp_all add: mbrtoc32_def mem_of_simp is_cont_def wcrtomb_bytes_def sint_u32_eq)

lemma wcsnrtombs_counts_terminator:
  "map_option (fst \<circ> snd) (wcsnrtombs (mem_of 0 [0x41, 0]) (mem_of 0 [7, 7, 7]) (Some 0) 0 2 3) = Some 2"
  "map_option (fst \<circ> snd) (wcsrtombs (mem_of 0 [0x41, 0]) (mem_of 0 [7, 7, 7]) (Some 0) 0 3) = Some 1"
proof -
  have two: "unat (2 :: u64) = Suc (Suc 0)" by simp
  have A: "wcrtomb_bytes 0x41 = Inr [0x41]" by (simp add: wcrtomb_bytes_def sint_u32_eq)
  show "map_option (fst \<circ> snd) (wcsnrtombs (mem_of 0 [0x41, 0]) (mem_of 0 [7, 7, 7]) (Some 0) 0 2 3) = Some 2"
    unfolding wcsnrtombs_def two by (simp add: mem_of_simp A store_def Let_def)
  have "wcsrtombs_loop (mem_of 0 [0x41, 0]) (mem_of 0 [7, 7, 7]) (Some 0) 0 3 0 =
          Some (put (mem_of 0 [7, 7, 7]) 0 (utf8s [0x41] @ [0]), 0 + word_of_nat (length (utf8s [0x41])), None, None)"
    by (rule wcsrtombs_loop_utf8) (auto simp: mem_of_simp codepoint_def utf8_def A mapped_def)
  then show "map_option (fst \<circ> snd) (wcsrtombs (mem_of 0 [0x41, 0]) (mem_of 0 [7, 7, 7]) (Some 0) 0 3) = Some 1"
    by (simp add: wcsrtombs_def utf8_def A)
qed

end
