(* ===== verification/Printf.thy ===== *)
theory Printf
  imports Wstring Cstring Utf8 Ctype
begin

text \<open>
  Formatted output: \<open>vfprintf\<close> of \<^verbatim>\<open>src/ansi/stdio.cpp\<close> with its integer, character, string, pointer and
  \<^verbatim>\<open>%n\<close> conversions.  The floating-point conversions (\<^verbatim>\<open>f e g a\<close> and their capitals) are outside the
  model, which has no result for them.

  A stream is a value of any type \<open>'f\<close> with a function \<open>wr\<close> for its \<open>write\<close> member, which takes the
  bytes handed over and returns the stream and the \<open>ssize_t\<close> the member returns; \<open>None\<close> for the
  file is a null pointer.  A format is the list of its bytes before the terminator, and a position
  in it is the list of bytes that follow.  The variable arguments are a list of values tagged
  with their promoted type, and fetching one at another type is undefined.  \<open>hz::to_integer\<close>, which is not part of the sources, is the
  parameter \<open>to_int\<close>: it returns the value and the number of characters it used.
\<close>

subsection \<open>Characters and arguments\<close>

abbreviation ch :: "char \<Rightarrow> u8" where "ch c \<equiv> of_char c"

definition bytes :: "string \<Rightarrow> u8 list" where "bytes s = map of_char s"

datatype va = VInt u32 | VLong u64 | VPtr nat | VWPtr nat

datatype State = SNone | Shh | Sh | Sl | Sll | Sj | Sz | St | SL

abbreviation LJUST :: u32 where "LJUST \<equiv> 1"
abbreviation SIGN :: u32 where "SIGN \<equiv> 2"
abbreviation SPACE :: u32 where "SPACE \<equiv> 4"
abbreviation ALT :: u32 where "ALT \<equiv> 8"
abbreviation ZERO :: u32 where "ZERO \<equiv> 16"

definition CHARS :: "u8 list" where "CHARS = bytes ''0123456789ABCDEF''"
definition LOWER_CHARS :: "u8 list" where "LOWER_CHARS = bytes ''0123456789abcdef''"

subsection \<open>The state of a call and the write lambda\<close>

text \<open>
  \<open>pf_mutex\<close> counts the calls of \<open>manual_lock\<close> on the file's mutex minus those of \<open>manual_unlock\<close>.
\<close>

record 'f pf =
  pf_file :: "'f option"
  pf_written :: nat
  pf_mutex :: int
  pf_errno :: "errno option"
  pf_mem :: "u8 mem"
  pf_wmem :: "u32 mem"
  pf_args :: "va list"

type_synonym 'f sink = "'f \<Rightarrow> u8 list \<Rightarrow> ('f \<times> int) option"
type_synonym 'f pf_result = "('f pf \<times> bool) option"

definition pf_lock :: "'f pf \<Rightarrow> 'f pf" where
  "pf_lock s = (if pf_file s = None then s else s\<lparr>pf_mutex := pf_mutex s + 1\<rparr>)"

definition pf_unlock :: "'f pf \<Rightarrow> 'f pf" where
  "pf_unlock s = (if pf_file s = None then s else s\<lparr>pf_mutex := pf_mutex s - 1\<rparr>)"

definition pf_count :: "'f pf \<Rightarrow> nat \<Rightarrow> 'f pf \<times> bool" where
  "pf_count s n =
     (let s' = s\<lparr>pf_written := pf_written s + n\<rparr> in
      if INT_MAX < int (pf_written s') then ((pf_unlock s')\<lparr>pf_errno := Some EOVERFLOW\<rparr>, False)
      else (s', True))"

definition pf_write :: "'f sink \<Rightarrow> 'f pf \<Rightarrow> u8 list \<Rightarrow> 'f pf_result" where
  "pf_write wr s bs =
     (case pf_file s of
        Some f \<Rightarrow>
          do { (f', tmp) \<leftarrow> wr f bs;
               let s' = s\<lparr>pf_file := Some f'\<rparr>;
               if tmp < 0 then Some (pf_unlock s', False) else Some (pf_count s' (nat tmp)) }
      | None \<Rightarrow> Some (pf_count s (length bs)))"

text \<open>Sequencing of steps that end the call when they return false.\<close>

definition pf_then :: "'f pf_result \<Rightarrow> ('f pf \<Rightarrow> 'f pf_result) \<Rightarrow> 'f pf_result" where
  "pf_then r k = (case r of None \<Rightarrow> None | Some (s, ok) \<Rightarrow> if ok then k s else Some (s, False))"

fun pf_repeat :: "'f sink \<Rightarrow> 'f pf \<Rightarrow> u8 \<Rightarrow> nat \<Rightarrow> 'f pf_result" where
  "pf_repeat wr s c 0 = Some (s, True)"
| "pf_repeat wr s c (Suc n) = pf_then (pf_write wr s [c]) (\<lambda>s. pf_repeat wr s c n)"

subsection \<open>Integers\<close>

record IntOpts =
  min_width :: int
  precision :: int
  negative :: bool
  always_write_sign :: u32
  plus_as_space :: u32
  pad_with_zero :: u32
  right_pad :: u32
  upper :: bool
  write_prefix :: u32

text \<open>
  The digits are stored downwards from the end of a buffer of 64 characters; \<open>buf\<close> is the part that is filled.
  A store before its start, or a base of 0, is undefined.
\<close>

function digit_loop :: "u8 list \<Rightarrow> u64 \<Rightarrow> u64 \<Rightarrow> u8 list \<Rightarrow> u8 list option" where
  "digit_loop chars base val buf =
     (if base = 0 \<or> 64 \<le> length buf then None
      else let buf' = chars ! unat (val mod base) # buf; val' = val div base in
           if val' = 0 then Some buf' else digit_loop chars base val' buf')"
  by auto
termination by (relation "measure (\<lambda>(chars, base, val, buf). 64 - length buf)") auto

declare digit_loop.simps [simp del]

definition int_digits :: "u64 \<Rightarrow> int \<Rightarrow> IntOpts \<Rightarrow> u8 list option" where
  "int_digits val base opts =
     (if val = 0 \<and> precision opts = 0 then Some []
      else digit_loop (if upper opts then CHARS else LOWER_CHARS) (word_of_int base) val [])"

definition actual_width :: "int \<Rightarrow> int \<Rightarrow> IntOpts \<Rightarrow> int option" where
  "actual_width len base opts =
     do { let w = max len (precision opts);
          w \<leftarrow> (if negative opts \<or> always_write_sign opts \<noteq> 0 then ck32 (w + 1) else Some w);
          if write_prefix opts \<noteq> 0 \<and> len \<noteq> 0 then
            (if base = 2 \<or> base = 16 then ck32 (w + 2)
             else if base = 8 then ck32 (w + 1) else Some w)
          else Some w }"

definition write_int :: "'f sink \<Rightarrow> 'f pf \<Rightarrow> u64 \<Rightarrow> int \<Rightarrow> IntOpts \<Rightarrow> 'f pf_result" where
  "write_int wr s val base opts =
     do { digits \<leftarrow> int_digits val base opts;
          let len = int (length digits);
          aw \<leftarrow> actual_width len base opts;
          let pad_c = (if pad_with_zero opts \<noteq> 0 then ch CHR ''0'' else ch CHR '' '');
          let padding = (if aw < min_width opts then nat (min_width opts - aw) else 0);
          pf_then (if right_pad opts = 0 then pf_repeat wr s pad_c padding else Some (s, True)) (\<lambda>s.
          pf_then
            (if negative opts then pf_write wr s (bytes ''-'')
             else if always_write_sign opts \<noteq> 0 then pf_write wr s (bytes ''+'')
             else if plus_as_space opts \<noteq> 0 then pf_write wr s (bytes '' '')
             else Some (s, True)) (\<lambda>s.
          pf_then
            (if write_prefix opts \<noteq> 0 \<and> len \<noteq> 0 then
               (if base = 2 then pf_write wr s (if upper opts then bytes ''0B'' else bytes ''0b'')
                else if base = 8 then pf_write wr s (bytes ''0'')
                else if base = 16 then pf_write wr s (if upper opts then bytes ''0X'' else bytes ''0x'')
                else Some (s, True))
             else Some (s, True)) (\<lambda>s.
          pf_then
            (if len < precision opts then pf_repeat wr s (ch CHR ''0'') (nat (precision opts - len))
             else Some (s, True)) (\<lambda>s.
          pf_then (pf_write wr s digits) (\<lambda>s.
            if right_pad opts \<noteq> 0 then pf_repeat wr s pad_c padding else Some (s, True)))))) }"

subsection \<open>Parsing a conversion specification\<close>

record conv_spec =
  sp_flags :: u32
  sp_width :: int
  sp_has_width :: bool
  sp_precision :: int
  sp_has_precision :: bool
  sp_state :: State

definition deref :: "u8 list \<Rightarrow> u8" where
  "deref fmt = (case fmt of [] \<Rightarrow> 0 | c # _ \<Rightarrow> c)"

fun parse_flags :: "u8 list \<Rightarrow> u32 \<Rightarrow> (u8 list \<times> u32) option" where
  "parse_flags [] flags = Some ([], flags)"
| "parse_flags (c # fmt) flags =
     (if c = ch CHR ''-'' then parse_flags fmt (flags OR LJUST)
      else if c = ch CHR ''+'' then parse_flags fmt (flags OR SIGN)
      else if c = ch CHR '' '' then parse_flags fmt (if flags AND SIGN = 0 then flags OR SPACE else flags)
      else if c = ch CHR ''#'' then parse_flags fmt (flags OR ALT)
      else if c = ch CHR ''0'' then parse_flags fmt (if flags AND LJUST = 0 then flags OR ZERO else flags)
      else if c = 39 then None
      else Some (c # fmt, flags))"

type_synonym to_integer = "u8 list \<Rightarrow> int \<times> nat"

definition read_number :: "to_integer \<Rightarrow> u8 list \<Rightarrow> (int \<times> u8 list) option" where
  "read_number to_int fmt =
     (case to_int fmt of (v, n) \<Rightarrow> if n \<le> length fmt then Some (v, drop n fmt) else None)"

text \<open>The test for a positional argument, which panics.\<close>

definition positional :: "u8 list \<Rightarrow> bool option" where
  "positional fmt =
     do { d \<leftarrow> isdigit (sint (deref fmt)); Some (d \<noteq> 0 \<and> deref (drop 1 fmt) = ch CHR ''$'') }"

definition parse_width ::
    "to_integer \<Rightarrow> u8 list \<Rightarrow> u32 \<Rightarrow> va list \<Rightarrow> (u8 list \<times> int \<times> bool \<times> u32 \<times> va list) option" where
  "parse_width to_int fmt flags ap =
     do { d \<leftarrow> isdigit (sint (deref fmt));
          if d \<noteq> 0 then do { (w, fmt') \<leftarrow> read_number to_int fmt; Some (fmt', w, True, flags, ap) }
          else if deref fmt = ch CHR ''*'' then
            do { let fmt' = drop 1 fmt;
                 pos \<leftarrow> positional fmt';
                 if pos then None
                 else (case ap of
                     VInt w # ap' \<Rightarrow>
                       if sint w < 0 then
                         do { w' \<leftarrow> ck32 (sint w * - 1); Some (fmt', w', True, flags OR LJUST, ap') }
                       else Some (fmt', sint w, True, flags, ap')
                   | _ \<Rightarrow> None) }
          else Some (fmt, 0, False, flags, ap) }"

definition parse_precision ::
    "to_integer \<Rightarrow> u8 list \<Rightarrow> u32 \<Rightarrow> va list \<Rightarrow> (u8 list \<times> int \<times> bool \<times> u32 \<times> va list) option" where
  "parse_precision to_int fmt flags ap =
     (if deref fmt = ch CHR ''.'' then
        do { let fmt1 = drop 1 fmt;
             d \<leftarrow> isdigit (sint (deref fmt1));
             if d \<noteq> 0 then
               do { (p, fmt') \<leftarrow> read_number to_int fmt1; Some (fmt', p, True, flags AND NOT ZERO, ap) }
             else if deref fmt1 = ch CHR ''*'' then
               do { let fmt' = drop 1 fmt1;
                    pos \<leftarrow> positional fmt';
                    if pos then None
                    else (case ap of
                        VInt p # ap' \<Rightarrow>
                          Some (if 0 \<le> sint p then (fmt', sint p, True, flags AND NOT ZERO, ap')
                                else (fmt', sint p, False, flags, ap'))
                      | _ \<Rightarrow> None) }
             else Some (fmt1, 0, True, flags AND NOT ZERO, ap) }
      else Some (fmt, 0, False, flags, ap))"

fun parse_length :: "u8 list \<Rightarrow> State \<Rightarrow> u8 list \<times> State" where
  "parse_length [] st = ([], st)"
| "parse_length (c # fmt) st =
     (if c = ch CHR ''h'' then
        (if st = SNone then parse_length fmt Sh else if st = Sh then (fmt, Shh) else (c # fmt, st))
      else if c = ch CHR ''l'' then
        (if st = SNone then parse_length fmt Sl else if st = Sl then (fmt, Sll) else (c # fmt, st))
      else if c = ch CHR ''j'' \<and> st = SNone then (fmt, Sj)
      else if c = ch CHR ''z'' \<and> st = SNone then (fmt, Sz)
      else if c = ch CHR ''t'' \<and> st = SNone then (fmt, St)
      else if c = ch CHR ''L'' \<and> st = SNone then (fmt, SL)
      else (c # fmt, st))"

definition parse_spec ::
    "to_integer \<Rightarrow> u8 list \<Rightarrow> va list \<Rightarrow> (u8 list \<times> conv_spec \<times> va list) option" where
  "parse_spec to_int fmt ap =
     do { pos \<leftarrow> positional fmt;
          if pos then None
          else do {
            (fmt1, flags1) \<leftarrow> parse_flags fmt 0;
            (fmt2, w, has_w, flags2, ap2) \<leftarrow> parse_width to_int fmt1 flags1 ap;
            (fmt3, p, has_p, flags3, ap3) \<leftarrow> parse_precision to_int fmt2 flags2 ap2;
            let (fmt4, st) = parse_length fmt3 SNone;
            Some (fmt4, \<lparr>sp_flags = flags3, sp_width = w, sp_has_width = has_w, sp_precision = p,
                         sp_has_precision = has_p, sp_state = st\<rparr>, ap3) } }"

subsection \<open>The conversions\<close>

definition pop_signed_int :: "State \<Rightarrow> va list \<Rightarrow> (int \<times> va list) option" where
  "pop_signed_int st ap =
     (if st = SL then None
      else if st = SNone \<or> st = Shh \<or> st = Sh then
        (case ap of VInt w # ap' \<Rightarrow> Some (sint w, ap') | _ \<Rightarrow> None)
      else (case ap of VLong w # ap' \<Rightarrow> Some (sint w, ap') | _ \<Rightarrow> None))"

definition pop_unsigned_int :: "State \<Rightarrow> va list \<Rightarrow> (u64 \<times> va list) option" where
  "pop_unsigned_int st ap =
     (if st = SL then None
      else if st = SNone \<or> st = Shh \<or> st = Sh then
        (case ap of VInt w # ap' \<Rightarrow> Some (ucast w, ap') | _ \<Rightarrow> None)
      else (case ap of VLong w # ap' \<Rightarrow> Some (w, ap') | _ \<Rightarrow> None))"

definition int_opts :: "conv_spec \<Rightarrow> bool \<Rightarrow> bool \<Rightarrow> u32 \<Rightarrow> IntOpts" where
  "int_opts sp neg up prefix =
     \<lparr>min_width = (if sp_has_width sp then sp_width sp else 0),
      precision = (if sp_has_precision sp then sp_precision sp else 1),
      negative = neg,
      always_write_sign = sp_flags sp AND SIGN,
      plus_as_space = sp_flags sp AND SPACE,
      pad_with_zero = sp_flags sp AND ZERO,
      right_pad = sp_flags sp AND LJUST,
      upper = up,
      write_prefix = prefix\<rparr>"

definition conv_d :: "'f sink \<Rightarrow> conv_spec \<Rightarrow> 'f pf \<Rightarrow> 'f pf_result" where
  "conv_d wr sp s =
     do { (v, ap) \<leftarrow> pop_signed_int (sp_state sp) (pf_args s);
          v' \<leftarrow> (if v < 0 then ck64 (v * - 1) else Some v);
          write_int wr (s\<lparr>pf_args := ap\<rparr>) (word_of_int v') 10 (int_opts sp (v < 0) False 0) }"

definition conv_u :: "'f sink \<Rightarrow> conv_spec \<Rightarrow> 'f pf \<Rightarrow> 'f pf_result" where
  "conv_u wr sp s =
     do { (v, ap) \<leftarrow> pop_unsigned_int (sp_state sp) (pf_args s);
          write_int wr (s\<lparr>pf_args := ap\<rparr>) v 10 (int_opts sp False False 0) }"

definition conv_x :: "'f sink \<Rightarrow> bool \<Rightarrow> conv_spec \<Rightarrow> 'f pf \<Rightarrow> 'f pf_result" where
  "conv_x wr up sp s =
     do { (v, ap) \<leftarrow> pop_unsigned_int (sp_state sp) (pf_args s);
          write_int wr (s\<lparr>pf_args := ap\<rparr>) v 16 (int_opts sp False up (sp_flags sp AND ALT)) }"

definition conv_o :: "'f sink \<Rightarrow> conv_spec \<Rightarrow> 'f pf \<Rightarrow> 'f pf_result" where
  "conv_o wr sp s =
     do { (v, ap) \<leftarrow> pop_unsigned_int (sp_state sp) (pf_args s);
          write_int wr (s\<lparr>pf_args := ap\<rparr>) v 8 (int_opts sp False False (sp_flags sp AND ALT)) }"

definition conv_b :: "'f sink \<Rightarrow> bool \<Rightarrow> conv_spec \<Rightarrow> 'f pf \<Rightarrow> 'f pf_result" where
  "conv_b wr up sp s =
     do { (v, ap) \<leftarrow> pop_unsigned_int (sp_state sp) (pf_args s);
          write_int wr (s\<lparr>pf_args := ap\<rparr>) v 2 (int_opts sp False up (sp_flags sp AND ALT)) }"

definition pointer_opts :: IntOpts where
  "pointer_opts = \<lparr>min_width = 0, precision = 1, negative = False, always_write_sign = 0,
     plus_as_space = 0, pad_with_zero = 0, right_pad = 0, upper = False, write_prefix = 1\<rparr>"

definition conv_p :: "'f sink \<Rightarrow> 'f pf \<Rightarrow> 'f pf_result" where
  "conv_p wr s =
     (case pf_args s of
        VPtr a # ap \<Rightarrow> write_int wr (s\<lparr>pf_args := ap\<rparr>) (word_of_nat a) 16 pointer_opts
      | _ \<Rightarrow> None)"

text \<open>A wide character through \<open>wcrtomb\<close>, with a question mark for one that has no encoding.\<close>

definition write_wide :: "'f sink \<Rightarrow> 'f pf \<Rightarrow> u32 \<Rightarrow> 'f pf_result" where
  "write_wide wr s c =
     (case wcrtomb_bytes c of
        Inl e \<Rightarrow> pf_write wr (s\<lparr>pf_errno := Some e\<rparr>) (bytes ''?'')
      | Inr bs \<Rightarrow> pf_write wr s bs)"

definition conv_c :: "'f sink \<Rightarrow> conv_spec \<Rightarrow> 'f pf \<Rightarrow> 'f pf_result" where
  "conv_c wr sp s =
     (if sp_flags sp \<noteq> 0 then None
      else case pf_args s of
          VInt w # ap \<Rightarrow>
            if sp_state sp = Sl then write_wide wr (s\<lparr>pf_args := ap\<rparr>) w
            else if sp_state sp = SNone then pf_write wr (s\<lparr>pf_args := ap\<rparr>) [ucast w]
            else None
        | _ \<Rightarrow> None)"

fun bounded_len :: "('a::zero) mem \<Rightarrow> nat \<Rightarrow> nat \<Rightarrow> nat option" where
  "bounded_len m p 0 = Some 0"
| "bounded_len m p (Suc tmp) =
     do { c \<leftarrow> m p; if c = 0 then Some 0 else map_option Suc (bounded_len m (p + 1) tmp) }"

fun read_cells :: "'a mem \<Rightarrow> nat \<Rightarrow> nat \<Rightarrow> 'a list option" where
  "read_cells m p 0 = Some []"
| "read_cells m p (Suc n) = do { c \<leftarrow> m p; cs \<leftarrow> read_cells m (p + 1) n; Some (c # cs) }"

fun write_wides :: "'f sink \<Rightarrow> 'f pf \<Rightarrow> nat \<Rightarrow> nat \<Rightarrow> 'f pf_result" where
  "write_wides wr s p 0 = Some (s, True)"
| "write_wides wr s p (Suc n) =
     do { c \<leftarrow> pf_wmem s p; pf_then (write_wide wr s c) (\<lambda>s. write_wides wr s (p + 1) n) }"

definition conv_s :: "'f sink \<Rightarrow> conv_spec \<Rightarrow> 'f pf \<Rightarrow> 'f pf_result" where
  "conv_s wr sp s =
     (let limit = unat (word_of_int (sp_precision sp) :: u64) in
      if sp_state sp = Sl then
        (case pf_args s of
           VWPtr p # ap \<Rightarrow>
             do { len \<leftarrow> (if sp_has_precision sp then bounded_len (pf_wmem s) p limit else wcslen (pf_wmem s) p);
                  write_wides wr (s\<lparr>pf_args := ap\<rparr>) p len }
         | _ \<Rightarrow> None)
      else if sp_state sp = SNone then
        (case pf_args s of
           VPtr p # ap \<Rightarrow>
             do { len \<leftarrow> (if sp_has_precision sp then bounded_len (pf_mem s) p limit else strlen (pf_mem s) p);
                  if len = 0 then Some (s\<lparr>pf_args := ap\<rparr>, True)
                  else do { bs \<leftarrow> read_cells (pf_mem s) p len; pf_write wr (s\<lparr>pf_args := ap\<rparr>) bs } }
         | _ \<Rightarrow> None)
      else None)"

text \<open>\<^verbatim>\<open>%n\<close> stores the count with the width of the length modifier, in little-endian order.\<close>

definition le_bytes :: "nat \<Rightarrow> u64 \<Rightarrow> u8 list" where
  "le_bytes n w = map (\<lambda>i. ucast (drop_bit (8 * i) w)) [0..<n]"

definition conv_n :: "conv_spec \<Rightarrow> 'f pf \<Rightarrow> 'f pf_result" where
  "conv_n sp s =
     (if sp_state sp = SL then Some (s, True)
      else case pf_args s of
          VPtr p # ap \<Rightarrow>
            do { let n = (case sp_state sp of SNone \<Rightarrow> 4 | Shh \<Rightarrow> 1 | Sh \<Rightarrow> 2 | _ \<Rightarrow> 8);
                 m \<leftarrow> store_list (pf_mem s) p (le_bytes n (word_of_nat (pf_written s)));
                 Some (s\<lparr>pf_mem := m, pf_args := ap\<rparr>, True) }
        | _ \<Rightarrow> None)"

text \<open>Any other character is written itself; without a file it is not counted.\<close>

definition conv_default :: "'f sink \<Rightarrow> u8 \<Rightarrow> 'f pf \<Rightarrow> 'f pf_result" where
  "conv_default wr c s = (if pf_file s = None then Some (pf_count s 0) else pf_write wr s [c])"

definition convert :: "'f sink \<Rightarrow> u8 \<Rightarrow> conv_spec \<Rightarrow> 'f pf \<Rightarrow> 'f pf_result" where
  "convert wr c sp s =
     (if c = ch CHR ''d'' \<or> c = ch CHR ''i'' then conv_d wr sp s
      else if c \<in> set (bytes ''fFeEgGaA'') then None
      else if c = ch CHR ''u'' then conv_u wr sp s
      else if c = ch CHR ''x'' then conv_x wr False sp s
      else if c = ch CHR ''X'' then conv_x wr True sp s
      else if c = ch CHR ''o'' then conv_o wr sp s
      else if c = ch CHR ''b'' then conv_b wr False sp s
      else if c = ch CHR ''B'' then conv_b wr True sp s
      else if c = ch CHR ''p'' then conv_p wr s
      else if c = ch CHR ''c'' then conv_c wr sp s
      else if c = ch CHR ''s'' then conv_s wr sp s
      else if c = ch CHR ''n'' then conv_n sp s
      else conv_default wr c s)"

subsection \<open>The main loop\<close>

fun scan_literal :: "u8 list \<Rightarrow> nat \<Rightarrow> nat \<times> u8 list" where
  "scan_literal [] len = (len, [])"
| "scan_literal (c # fmt) len =
     (if c = ch CHR ''%'' then (len, c # fmt) else scan_literal fmt (Suc len))"

fun scan_percents :: "u8 list \<Rightarrow> nat \<Rightarrow> nat \<times> u8 list" where
  "scan_percents (c # d # fmt) len =
     (if c = ch CHR ''%'' \<and> d = ch CHR ''%'' then scan_percents fmt (Suc len) else (len, c # d # fmt))"
| "scan_percents fmt len = (len, fmt)"

definition scan_text :: "u8 list \<Rightarrow> nat \<times> u8 list" where
  "scan_text fmt = (case scan_literal fmt 0 of (len, fmt') \<Rightarrow> scan_percents fmt' len)"

lemma scan_literal_length: "scan_literal fmt len = (n, r) \<Longrightarrow> len \<le> n \<and> length fmt = (n - len) + length r"
  by (induction fmt len rule: scan_literal.induct) (fastforce split: if_splits)+

lemma scan_percents_length: "scan_percents fmt len = (n, r) \<Longrightarrow> len \<le> n \<and> length fmt = 2 * (n - len) + length r"
  by (induction fmt len rule: scan_percents.induct) (fastforce split: if_splits)+

lemma scan_text_length: "scan_text fmt = (n, r) \<Longrightarrow> n + length r \<le> length fmt"
  by (fastforce simp: scan_text_def split: prod.splits dest!: scan_literal_length scan_percents_length)

lemma parse_flags_length: "parse_flags fmt fl = Some (r, fl') \<Longrightarrow> length r \<le> length fmt"
  by (induction fmt fl rule: parse_flags.induct) (auto split: if_splits simp del: One_nat_def)

lemma parse_length_length: "parse_length fmt st = (r, st') \<Longrightarrow> length r \<le> length fmt"
  by (induction fmt st rule: parse_length.induct) (fastforce split: if_splits)+

lemma read_number_length: "read_number to_int fmt = Some (v, r) \<Longrightarrow> length r \<le> length fmt"
  by (auto simp: read_number_def split: prod.splits if_splits)

lemma parse_width_length: "parse_width to_int fmt fl ap = Some (r, x) \<Longrightarrow> length r \<le> length fmt"
  by (auto simp: parse_width_def bind_eq_Some_conv Let_def split: if_splits list.splits va.splits dest: read_number_length)

lemma parse_precision_length: "parse_precision to_int fmt fl ap = Some (r, x) \<Longrightarrow> length r \<le> length fmt"
  by (fastforce simp: parse_precision_def bind_eq_Some_conv Let_def split: if_splits list.splits va.splits dest: read_number_length)

lemma parse_spec_length:
  assumes "parse_spec to_int fmt ap = Some (r, x)"
  shows "length r \<le> length fmt"
proof -
  obtain f1 fl1 f2 w hw fl2 ap2 f3 p hp fl3 ap3 where
      "parse_flags fmt 0 = Some (f1, fl1)" "parse_width to_int f1 fl1 ap = Some (f2, w, hw, fl2, ap2)"
      "parse_precision to_int f2 fl2 ap2 = Some (f3, p, hp, fl3, ap3)" "r = fst (parse_length f3 SNone)"
    using assms by (auto simp: parse_spec_def bind_eq_Some_conv case_prod_unfold Let_def split: if_splits)
  then show ?thesis using parse_length_length [of f3 SNone]
    by (cases "parse_length f3 SNone") (auto dest!: parse_flags_length parse_width_length parse_precision_length)
qed

function vfprintf_loop :: "'f sink \<Rightarrow> to_integer \<Rightarrow> u8 list \<Rightarrow> 'f pf \<Rightarrow> ('f pf \<times> int) option" where
  "vfprintf_loop wr to_int fmt s =
     (case scan_text fmt of (len, rest) \<Rightarrow>
        if len \<noteq> 0 then
          do { (s1, ok) \<leftarrow> pf_write wr s (take len fmt);
               if ok then vfprintf_loop wr to_int rest s1 else Some (s1, - 1) }
        else case rest of
            [] \<Rightarrow> Some (pf_unlock s, int (pf_written s))
          | _ # fmt1 \<Rightarrow>
              do { (fmt2, sp, ap) \<leftarrow> parse_spec to_int fmt1 (pf_args s);
                   let s1 = s\<lparr>pf_args := ap\<rparr>;
                   case fmt2 of
                     [] \<Rightarrow> Some ((pf_unlock s1)\<lparr>pf_errno := Some EINVAL\<rparr>, - 1)
                   | c # fmt3 \<Rightarrow>
                       do { (s2, ok) \<leftarrow> convert wr c sp s1;
                            if ok then vfprintf_loop wr to_int fmt3 s2 else Some (s2, - 1) } })"
  by auto
termination
  by (relation "measure (\<lambda>(wr, to_int, fmt, s). length fmt)")
    (fastforce dest: scan_text_length [OF sym] parse_spec_length)+

declare vfprintf_loop.simps [simp del]

definition vfprintf ::
    "'f sink \<Rightarrow> to_integer \<Rightarrow> 'f option \<Rightarrow> u8 mem \<Rightarrow> u32 mem \<Rightarrow> u8 list \<Rightarrow> va list \<Rightarrow> ('f pf \<times> int) option" where
  "vfprintf wr to_int file m wm fmt ap =
     vfprintf_loop wr to_int fmt
       (pf_lock \<lparr>pf_file = file, pf_written = 0, pf_mutex = 0, pf_errno = None, pf_mem = m, pf_wmem = wm, pf_args = ap\<rparr>)"

subsection \<open>Sequences of writes\<close>

fun write_all :: "'f sink \<Rightarrow> 'f pf \<Rightarrow> u8 list list \<Rightarrow> 'f pf_result" where
  "write_all wr s [] = Some (s, True)"
| "write_all wr s (b # bs) = pf_then (pf_write wr s b) (\<lambda>s. write_all wr s bs)"

lemma pf_then_simps [simp]:
  "pf_then None k = None" "pf_then (Some (s, True)) k = k s" "pf_then (Some (s, False)) k = Some (s, False)"
  by (simp_all add: pf_then_def)

lemma pf_then_assoc: "pf_then (pf_then r k) j = pf_then r (\<lambda>s. pf_then (k s) j)"
  by (auto simp: pf_then_def split: option.splits)

lemma pf_then_return [simp]: "pf_then r (\<lambda>s. Some (s, True)) = r"
  by (auto simp: pf_then_def split: option.splits)

lemma pf_then_eq_Some:
  "pf_then r k = Some (s', ok) \<longleftrightarrow> (\<exists>s. r = Some (s, True) \<and> k s = Some (s', ok)) \<or> (r = Some (s', False) \<and> \<not> ok)"
  by (auto simp: pf_then_def split: option.splits if_splits)

lemma write_all_append: "write_all wr s (xs @ ys) = pf_then (write_all wr s xs) (\<lambda>s. write_all wr s ys)"
  by (induction xs arbitrary: s) (simp_all add: pf_then_assoc)

lemma pf_repeat_write_all: "pf_repeat wr s c n = write_all wr s (replicate n [c])"
  by (induction n arbitrary: s) simp_all

text \<open>The chunks \<open>write_int\<close> hands to the stream, in their order.\<close>

definition sign_text :: "IntOpts \<Rightarrow> u8 list" where
  "sign_text opts =
     (if negative opts then bytes ''-'' else if always_write_sign opts \<noteq> 0 then bytes ''+''
      else if plus_as_space opts \<noteq> 0 then bytes '' '' else [])"

definition prefix_text :: "int \<Rightarrow> bool \<Rightarrow> IntOpts \<Rightarrow> u8 list" where
  "prefix_text base has_digits opts =
     (if write_prefix opts = 0 \<or> \<not> has_digits then []
      else if base = 2 then (if upper opts then bytes ''0B'' else bytes ''0b'')
      else if base = 8 then bytes ''0''
      else if base = 16 then (if upper opts then bytes ''0X'' else bytes ''0x'') else [])"

definition pad_char :: "IntOpts \<Rightarrow> u8" where
  "pad_char opts = (if pad_with_zero opts \<noteq> 0 then ch CHR ''0'' else ch CHR '' '')"

definition single :: "'a list \<Rightarrow> 'a list list" where
  "single xs = (if xs = [] then [] else [xs])"

definition int_chunks :: "u8 list \<Rightarrow> int \<Rightarrow> int \<Rightarrow> IntOpts \<Rightarrow> u8 list list" where
  "int_chunks digits aw base opts =
     (let padding = replicate (nat (min_width opts - aw)) [pad_char opts] in
      (if right_pad opts = 0 then padding else []) @
      single (sign_text opts) @ single (prefix_text base (digits \<noteq> []) opts) @
      replicate (nat (precision opts - int (length digits))) [ch CHR ''0''] @ [digits] @
      (if right_pad opts = 0 then [] else padding))"

lemma single_write: "write_all wr s (single xs) = (if xs = [] then Some (s, True) else pf_write wr s xs)"
  by (simp add: single_def)

lemma concat_single [simp]: "concat (single xs) = xs"
  by (simp add: single_def)

lemma write_int_eq:
  "write_int wr s val base opts =
     do { digits \<leftarrow> int_digits val base opts;
          aw \<leftarrow> actual_width (int (length digits)) base opts;
          write_all wr s (int_chunks digits aw base opts) }"
proof -
  have pad: "(if aw < w then nat (w - aw) else 0) = nat (w - aw)" for aw w :: int by simp
  have zeros: "(if l < p then pf_repeat wr s c (nat (p - l)) else Some (s, True)) = pf_repeat wr s c (nat (p - l))"
    for l p c and s :: "'a pf" by simp
  have sign: "(if negative opts then pf_write wr s (bytes ''-'')
      else if always_write_sign opts \<noteq> 0 then pf_write wr s (bytes ''+'')
      else if plus_as_space opts \<noteq> 0 then pf_write wr s (bytes '' '') else Some (s, True))
    = write_all wr s (single (sign_text opts))" for s :: "'a pf"
    by (simp add: single_write sign_text_def bytes_def)
  have prefix: "(if write_prefix opts \<noteq> 0 \<and> int (length digits) \<noteq> 0 then
      (if base = 2 then pf_write wr s (if upper opts then bytes ''0B'' else bytes ''0b'')
       else if base = 8 then pf_write wr s (bytes ''0'')
       else if base = 16 then pf_write wr s (if upper opts then bytes ''0X'' else bytes ''0x'')
       else Some (s, True)) else Some (s, True))
    = write_all wr s (single (prefix_text base (digits \<noteq> []) opts))" for s :: "'a pf" and digits :: "u8 list"
    by (simp add: single_write prefix_text_def bytes_def)
  show ?thesis
    unfolding write_int_def Let_def pad zeros sign prefix int_chunks_def pad_char_def
    by (cases "right_pad opts = 0") (simp_all add: write_all_append pf_repeat_write_all)
qed


subsection \<open>Locking and counting\<close>

text \<open>
  What every step of the call keeps: a failing step has released the file's mutex, any other has
  left it alone; the count only grows and stays within an \<open>int\<close> after a successful step; and the
  stream and the count move along a preorder \<open>ord\<close> that each single write follows.
\<close>

definition pf_frame :: "('f \<times> nat \<Rightarrow> 'f \<times> nat \<Rightarrow> bool) \<Rightarrow> 'f pf \<Rightarrow> 'f pf \<Rightarrow> bool \<Rightarrow> bool" where
  "pf_frame ord s s' ok \<longleftrightarrow>
     rel_option (\<lambda>f f'. ord (f, pf_written s) (f', pf_written s')) (pf_file s) (pf_file s') \<and>
     pf_mutex s' = pf_mutex s - (if ok \<or> pf_file s = None then 0 else 1) \<and>
     pf_written s \<le> pf_written s' \<and>
     (ok \<longrightarrow> int (pf_written s) \<le> INT_MAX \<longrightarrow> int (pf_written s') \<le> INT_MAX)"

definition framed :: "('f \<times> nat \<Rightarrow> 'f \<times> nat \<Rightarrow> bool) \<Rightarrow> 'f pf \<Rightarrow> 'f pf_result \<Rightarrow> bool" where
  "framed ord s r \<longleftrightarrow> (case r of None \<Rightarrow> True | Some (s', ok) \<Rightarrow> pf_frame ord s s' ok)"

lemma framed_simps [simp]: "framed ord s None" "framed ord s (Some (s', ok)) = pf_frame ord s s' ok"
  by (simp_all add: framed_def)

lemma framed_bind: "(\<And>x. a = Some x \<Longrightarrow> framed ord s (k x)) \<Longrightarrow> framed ord s (Option.bind a k)"
  by (cases a) auto

lemma framed_args:
  "framed ord (s\<lparr>pf_args := ap\<rparr>) r = framed ord s r" "framed ord (s\<lparr>pf_errno := e\<rparr>) r = framed ord s r"
  by (auto simp: framed_def pf_frame_def split: option.splits)

text \<open>One iteration of the main loop.\<close>

lemma vfprintf_loop_cases:
  assumes "vfprintf_loop wr to_int fmt s = Some (s', r)"
  obtains
    (literal) len rest s1 ok where
      "scan_text fmt = (len, rest)" "len \<noteq> 0" "pf_write wr s (take len fmt) = Some (s1, ok)"
      "(if ok then vfprintf_loop wr to_int rest s1 else Some (s1, - 1)) = Some (s', r)" "length rest < length fmt"
  | (finish) "scan_text fmt = (0, [])" "s' = pf_unlock s" "r = int (pf_written s)"
  | (incomplete) p fmt1 sp ap where
      "scan_text fmt = (0, p # fmt1)" "parse_spec to_int fmt1 (pf_args s) = Some ([], sp, ap)"
      "s' = (pf_unlock (s\<lparr>pf_args := ap\<rparr>))\<lparr>pf_errno := Some EINVAL\<rparr>" "r = - 1"
  | (directive) p fmt1 c fmt3 sp ap s2 ok where
      "scan_text fmt = (0, p # fmt1)" "parse_spec to_int fmt1 (pf_args s) = Some (c # fmt3, sp, ap)"
      "convert wr c sp (s\<lparr>pf_args := ap\<rparr>) = Some (s2, ok)"
      "(if ok then vfprintf_loop wr to_int fmt3 s2 else Some (s2, - 1)) = Some (s', r)" "length fmt3 < length fmt"
proof -
  obtain len rest where st: "scan_text fmt = (len, rest)" by (cases "scan_text fmt")
  note eq = assms [unfolded vfprintf_loop.simps [of wr to_int fmt s] st]
  note len = scan_text_length [OF st]
  consider "len \<noteq> 0" | "len = 0" "rest = []" | p fmt1 where "len = 0" "rest = p # fmt1"
    by (cases rest) auto
  then show thesis
  proof cases
    case 1
    then obtain s1 ok where "pf_write wr s (take len fmt) = Some (s1, ok)"
        "(if ok then vfprintf_loop wr to_int rest s1 else Some (s1, - 1)) = Some (s', r)"
      using eq by (auto simp: bind_eq_Some_conv)
    then show ?thesis using 1 st len by (intro literal) auto
  next
    case 2
    then show ?thesis using eq st by (intro finish) auto
  next
    case 3
    then obtain fmt2 sp ap where ps: "parse_spec to_int fmt1 (pf_args s) = Some (fmt2, sp, ap)"
      using eq by (auto simp: bind_eq_Some_conv)
    have l2: "length fmt2 < length fmt" using parse_spec_length [OF ps] len 3 by simp
    show ?thesis
    proof (cases fmt2)
      case Nil
      then show ?thesis using 3 eq st ps by (intro incomplete) auto
    next
      case (Cons c fmt3)
      then obtain s2 ok where "convert wr c sp (s\<lparr>pf_args := ap\<rparr>) = Some (s2, ok)"
          "(if ok then vfprintf_loop wr to_int fmt3 s2 else Some (s2, - 1)) = Some (s', r)"
        using 3 eq ps by (auto simp: bind_eq_Some_conv)
      then show ?thesis using 3 st ps l2 Cons by (intro directive) auto
    qed
  qed
qed

definition loop_frame :: "('f \<times> nat \<Rightarrow> 'f \<times> nat \<Rightarrow> bool) \<Rightarrow> 'f pf \<Rightarrow> 'f pf \<Rightarrow> int \<Rightarrow> bool" where
  "loop_frame ord s s' r \<longleftrightarrow>
     rel_option (\<lambda>f f'. ord (f, pf_written s) (f', pf_written s')) (pf_file s) (pf_file s') \<and>
     pf_mutex s' = pf_mutex s - (if pf_file s = None then 0 else 1) \<and>
     (r = - 1 \<or> r = int (pf_written s') \<and> r \<le> INT_MAX)"

locale ordered_sink =
  fixes wr :: "'f sink" and ord :: "'f \<times> nat \<Rightarrow> 'f \<times> nat \<Rightarrow> bool"
  assumes ord_refl: "ord x x"
    and ord_trans: "ord x y \<Longrightarrow> ord y z \<Longrightarrow> ord x z"
    and ord_write: "wr f bs = Some (f', tmp) \<Longrightarrow> ord (f, n) (f', n + nat tmp)"
begin

lemma rel_file_refl [simp]: "rel_option (\<lambda>f f'. ord (f, n) (f', n)) x x"
  by (cases x) (auto intro: ord_refl)

lemma pf_frame_refl [simp]: "pf_frame ord s s True"
  by (simp add: pf_frame_def)

lemma pf_frame_trans: "pf_frame ord s s1 True \<Longrightarrow> pf_frame ord s1 s2 ok \<Longrightarrow> pf_frame ord s s2 ok"
  by (auto simp: pf_frame_def option.rel_sel intro: ord_trans)

lemma framed_then: "framed ord s r \<Longrightarrow> (\<And>s'. framed ord s' (k s')) \<Longrightarrow> framed ord s (pf_then r k)"
  by (fastforce simp: framed_def pf_then_def split: option.splits prod.splits if_splits intro: pf_frame_trans)

lemma framed_write: "framed ord s (pf_write wr s bs)"
proof (cases "pf_file s")
  case None
  then show ?thesis by (auto simp: pf_write_def pf_count_def Let_def pf_frame_def pf_unlock_def)
next
  case (Some f)
  then show ?thesis
    by (auto simp: pf_write_def pf_count_def pf_frame_def pf_unlock_def Let_def dest: ord_write [where n = "pf_written s"]
        intro!: framed_bind simp del: framed_simps(2))
      (auto simp: pf_frame_def dest: ord_write [where n = "pf_written s"])
qed

lemma framed_write_all: "framed ord s (write_all wr s bs)"
  by (induction bs arbitrary: s) (auto intro!: framed_then framed_write)

lemma framed_write_int: "framed ord s (write_int wr s v b opts)"
  by (auto simp: write_int_eq intro!: framed_bind framed_write_all)

lemma framed_write_wide: "framed ord s (write_wide wr s c)"
proof -
  have "framed ord s (pf_write wr (s\<lparr>pf_errno := e\<rparr>) bs)" for e bs
    using framed_write [of "s\<lparr>pf_errno := e\<rparr>" bs] by (simp only: framed_args)
  then show ?thesis by (auto simp: write_wide_def framed_write split: sum.splits)
qed

lemma framed_write_wides: "framed ord s (write_wides wr s p n)"
  by (induction n arbitrary: s p) (auto intro!: framed_bind framed_then framed_write_wide)

lemma framed_default: "framed ord s (conv_default wr c s)"
  using framed_write [of s "[c]"] by (auto simp: conv_default_def pf_count_def Let_def pf_frame_def pf_unlock_def)

lemma framed_conv_n: "framed ord s (conv_n sp s)"
  by (auto simp: conv_n_def Let_def pf_frame_def intro!: framed_bind split: list.splits va.splits)

lemmas framed_ops = framed_write framed_write_int framed_write_wide framed_write_wides

lemma framed_with_args:
  "framed ord s (write_int wr (s\<lparr>pf_args := ap\<rparr>) v b opts)" "framed ord s (pf_write wr (s\<lparr>pf_args := ap\<rparr>) bs)"
  "framed ord s (write_wide wr (s\<lparr>pf_args := ap\<rparr>) c)" "framed ord s (write_wides wr (s\<lparr>pf_args := ap\<rparr>) p n)"
  "framed ord s (Some (s\<lparr>pf_args := ap\<rparr>, True))"
  using framed_ops [of "s\<lparr>pf_args := ap\<rparr>"] by (simp_all only: framed_args) (simp add: pf_frame_def)

lemma framed_convert: "framed ord s (convert wr c sp s)"
  unfolding convert_def conv_d_def conv_u_def conv_x_def conv_o_def conv_b_def conv_p_def conv_c_def conv_s_def Let_def
  by (auto intro!: framed_bind framed_with_args framed_default framed_conv_n simp del: framed_simps(2)
      split: list.splits va.splits)

lemma loop_frame_step:
  "pf_frame ord s s1 True \<Longrightarrow> int (pf_written s) \<le> INT_MAX \<Longrightarrow>
     (int (pf_written s1) \<le> INT_MAX \<Longrightarrow> loop_frame ord s1 s' r) \<Longrightarrow> loop_frame ord s s' r"
  "pf_frame ord s s1 False \<Longrightarrow> loop_frame ord s s1 (- 1)"
  by (auto simp: pf_frame_def loop_frame_def option.rel_sel intro: ord_trans)

lemma vfprintf_loop_frame:
  "vfprintf_loop wr to_int fmt s = Some (s', r) \<Longrightarrow> int (pf_written s) \<le> INT_MAX \<Longrightarrow> loop_frame ord s s' r"
proof (induction "length fmt" arbitrary: fmt s rule: less_induct)
  case less
  from less(2) show ?case
  proof (cases rule: vfprintf_loop_cases)
    case (literal len rest s1 ok)
    have "pf_frame ord s s1 ok" using framed_write [of s "take len fmt"] literal(3) by simp
    then show ?thesis using less(1) [of rest s1] less(3) literal(4,5)
      by (cases ok) (auto intro: loop_frame_step)
  next
    case finish
    then show ?thesis using less(3) by (auto simp: pf_unlock_def loop_frame_def)
  next
    case (incomplete p fmt1 sp ap)
    then show ?thesis by (auto simp: pf_unlock_def loop_frame_def)
  next
    case (directive p fmt1 c fmt3 sp ap s2 ok)
    have "framed ord s (Some (s2, ok))"
      using framed_convert [of "s\<lparr>pf_args := ap\<rparr>" c sp] directive(3) by (simp only: framed_args)
    then show ?thesis using less(1) [of fmt3 s2] less(3) directive(4,5)
      by (cases ok) (auto intro: loop_frame_step)
  qed
qed

end

interpretation any_sink: ordered_sink wr "\<lambda>_ _. True" for wr :: "'f sink"
  by unfold_locales auto

text \<open>The reference stream: it keeps every byte it is given.\<close>

definition collect :: "u8 list sink" where
  "collect out bs = Some (out @ bs, int (length bs))"

definition grows :: "u8 list \<times> nat \<Rightarrow> u8 list \<times> nat \<Rightarrow> bool" where
  "grows x y \<longleftrightarrow> (\<exists>bs. fst y = fst x @ bs \<and> snd y = snd x + length bs)"

interpretation collecting: ordered_sink collect grows
proof
  show "grows x x" for x by (simp add: grows_def)
  show "grows x y \<Longrightarrow> grows y z \<Longrightarrow> grows x z" for x y z by (auto simp: grows_def)
  show "collect f bs = Some (f', tmp) \<Longrightarrow> grows (f, n) (f', n + nat tmp)" for f bs f' tmp n
    by (auto simp: grows_def collect_def)
qed

subsection \<open>Any faithful stream gets the bytes of the reference stream\<close>

text \<open>
  A stream accepts its bytes when it takes every chunk in full: \<open>holds f out\<close> says that \<open>f\<close>
  represents the bytes \<open>out\<close>, and \<open>fits\<close> bounds what it can represent.
\<close>

definition sink_rel :: "('f \<Rightarrow> u8 list \<Rightarrow> bool) \<Rightarrow> 'f pf \<Rightarrow> u8 list pf \<Rightarrow> bool" where
  "sink_rel holds s t \<longleftrightarrow>
     rel_option holds (pf_file s) (pf_file t) \<and> pf_written s = pf_written t \<and> pf_mutex s = pf_mutex t \<and>
     pf_errno s = pf_errno t \<and> pf_mem s = pf_mem t \<and> pf_wmem s = pf_wmem t \<and> pf_args s = pf_args t"

definition sims ::
    "('f \<Rightarrow> u8 list \<Rightarrow> bool) \<Rightarrow> (u8 list \<Rightarrow> bool) \<Rightarrow> ('f pf \<times> 'r) option \<Rightarrow> (u8 list pf \<times> 'r) option \<Rightarrow> bool" where
  "sims holds fits p q \<longleftrightarrow>
     (\<forall>t' x. q = Some (t', x) \<longrightarrow> pred_option fits (pf_file t') \<longrightarrow>
        (\<exists>s'. p = Some (s', x) \<and> sink_rel holds s' t'))"

lemma sims_bind: "(\<And>x. a = Some x \<Longrightarrow> sims holds fits (k x) (j x)) \<Longrightarrow> sims holds fits (Option.bind a k) (Option.bind a j)"
  by (cases a) (auto simp: sims_def)

lemma sims_None [simp]: "sims holds fits p None"
  by (simp add: sims_def)

lemma sims_Some [simp]: "sink_rel holds s t \<Longrightarrow> sims holds fits (Some (s, x)) (Some (t, x))"
  by (simp add: sims_def)

lemma sink_rel_simps:
  assumes "sink_rel holds s t"
  shows "pf_args s = pf_args t" "pf_mem s = pf_mem t" "pf_wmem s = pf_wmem t" "pf_written s = pf_written t"
    "pf_file s = None \<longleftrightarrow> pf_file t = None"
    "sink_rel holds (s\<lparr>pf_args := ap\<rparr>) (t\<lparr>pf_args := ap\<rparr>)" "sink_rel holds (s\<lparr>pf_errno := e\<rparr>) (t\<lparr>pf_errno := e\<rparr>)"
    "sink_rel holds (s\<lparr>pf_mem := m\<rparr>) (t\<lparr>pf_mem := m\<rparr>)"
    "sink_rel holds (s\<lparr>pf_written := n\<rparr>) (t\<lparr>pf_written := n\<rparr>)"
    "sink_rel holds (pf_unlock s) (pf_unlock t)" "sink_rel holds (pf_lock s) (pf_lock t)"
  using assms by (auto simp: sink_rel_def pf_unlock_def pf_lock_def option.rel_sel)

lemma sims_count: "sink_rel holds s t \<Longrightarrow> sims holds fits (Some (pf_count s n)) (Some (pf_count t n))"
  by (auto simp: pf_count_def Let_def sink_rel_def pf_unlock_def option.rel_sel intro!: sims_Some)

locale byte_sink =
  fixes wr :: "'f sink" and holds :: "'f \<Rightarrow> u8 list \<Rightarrow> bool" and fits :: "u8 list \<Rightarrow> bool"
  assumes accept: "holds f out \<Longrightarrow> fits (out @ bs) \<Longrightarrow>
      \<exists>f'. wr f bs = Some (f', int (length bs)) \<and> holds f' (out @ bs)"
    and fits_prefix: "fits (out @ bs) \<Longrightarrow> fits out"
begin

lemma fits_earlier: "pf_frame grows t t' ok \<Longrightarrow> pred_option fits (pf_file t') \<Longrightarrow> pred_option fits (pf_file t)"
  by (auto simp: pf_frame_def option.rel_sel option.pred_set grows_def dest: fits_prefix)

lemma sims_then:
  assumes "sims holds fits p q" and "\<And>s t. sink_rel holds s t \<Longrightarrow> sims holds fits (k s) (j t)"
    and "\<And>t. framed grows t (j t)"
  shows "sims holds fits (pf_then p k) (pf_then q j)"
  unfolding sims_def
proof (intro allI impI)
  fix t' ok
  assume eq: "pf_then q j = Some (t', ok)" and fit: "pred_option fits (pf_file t')"
  from eq consider t1 where "q = Some (t1, True)" "j t1 = Some (t', ok)" | "q = Some (t', False)" "\<not> ok"
    by (auto simp: pf_then_eq_Some)
  then show "\<exists>s'. pf_then p k = Some (s', ok) \<and> sink_rel holds s' t'"
  proof cases
    case 1
    then have "pred_option fits (pf_file t1)" using assms(3) [of t1] fit fits_earlier by simp
    then obtain s1 where s1: "p = Some (s1, True)" "sink_rel holds s1 t1"
      using assms(1) 1(1) by (auto simp: sims_def)
    then show ?thesis using assms(2) [OF s1(2)] 1(2) fit by (simp add: sims_def)
  next
    case 2
    then show ?thesis using assms(1) fit by (auto simp: sims_def)
  qed
qed

lemma sims_write:
  assumes rel: "sink_rel holds s t"
  shows "sims holds fits (pf_write wr s bs) (pf_write collect t bs)"
proof (cases "pf_file t")
  case None
  then have "pf_file s = None" using rel by (simp add: sink_rel_def)
  then show ?thesis using None rel by (simp add: pf_write_def sims_count)
next
  case (Some out)
  let ?t = "t\<lparr>pf_file := Some (out @ bs)\<rparr>"
  obtain f where f: "pf_file s = Some f" "holds f out" using rel Some by (auto simp: sink_rel_def option.rel_sel)
  have q: "pf_write collect t bs = Some (pf_count ?t (length bs))" using Some by (simp add: pf_write_def collect_def Let_def)
  show ?thesis
  proof (cases "fits (out @ bs)")
    case True
    then obtain f' where f': "wr f bs = Some (f', int (length bs))" "holds f' (out @ bs)" using accept [OF f(2)] by blast
    then have "sink_rel holds (s\<lparr>pf_file := Some f'\<rparr>) ?t" using rel by (simp add: sink_rel_def)
    then show ?thesis using q f(1) f'(1) sims_count by (simp add: pf_write_def Let_def)
  next
    case False
    obtain t' ok where c: "pf_count ?t (length bs) = (t', ok)" by (cases "pf_count ?t (length bs)")
    then have "pf_file t' = Some (out @ bs)" by (auto simp: pf_count_def Let_def pf_unlock_def split: if_splits)
    then show ?thesis using False unfolding q c by (simp add: sims_def)
  qed
qed

lemma sims_write_all: "sink_rel holds s t \<Longrightarrow> sims holds fits (write_all wr s bs) (write_all collect t bs)"
  by (induction bs arbitrary: s t) (auto intro!: sims_then sims_write collecting.framed_write_all)

lemma sims_write_int: "sink_rel holds s t \<Longrightarrow> sims holds fits (write_int wr s v b opts) (write_int collect t v b opts)"
  by (auto simp: write_int_eq intro!: sims_bind sims_write_all)

lemma sims_write_wide: "sink_rel holds s t \<Longrightarrow> sims holds fits (write_wide wr s c) (write_wide collect t c)"
  by (auto simp: write_wide_def intro!: sims_write sink_rel_simps(7) split: sum.splits)

lemma sims_write_wides: "sink_rel holds s t \<Longrightarrow> sims holds fits (write_wides wr s p n) (write_wides collect t p n)"
proof (induction n arbitrary: s t p)
  case (Suc n)
  then show ?case unfolding write_wides.simps sink_rel_simps(3) [OF Suc(2)]
    by (intro sims_bind sims_then sims_write_wide collecting.framed_write_wides)
qed simp

lemma sims_default: "sink_rel holds s t \<Longrightarrow> sims holds fits (conv_default wr c s) (conv_default collect c t)"
  using sims_write [of s t "[c]"] sims_count [of holds s t fits 0] sink_rel_simps(5) [of holds s t]
  by (simp add: conv_default_def)

lemma sims_conv_n:
  assumes "sink_rel holds s t"
  shows "sims holds fits (conv_n sp s) (conv_n sp t)"
proof -
  have "sink_rel holds (s\<lparr>pf_mem := m, pf_args := ap\<rparr>) (t\<lparr>pf_mem := m, pf_args := ap\<rparr>)" for m ap
    using assms by (simp add: sink_rel_def)
  then show ?thesis unfolding conv_n_def sink_rel_simps(1,2,4) [OF assms] Let_def
    by (auto intro!: sims_bind sims_Some assms split: list.split va.split)
qed

lemma sims_conversions:
  assumes "sink_rel holds s t"
  shows "sims holds fits (conv_d wr sp s) (conv_d collect sp t)"
    and "sims holds fits (conv_u wr sp s) (conv_u collect sp t)"
    and "sims holds fits (conv_x wr up sp s) (conv_x collect up sp t)"
    and "sims holds fits (conv_o wr sp s) (conv_o collect sp t)"
    and "sims holds fits (conv_b wr up sp s) (conv_b collect up sp t)"
    and "sims holds fits (conv_p wr s) (conv_p collect t)"
    and "sims holds fits (conv_c wr sp s) (conv_c collect sp t)"
  unfolding conv_d_def conv_u_def conv_x_def conv_o_def conv_b_def conv_p_def conv_c_def
    sink_rel_simps(1) [OF assms]
  by (auto intro!: sims_bind sims_write sims_write_int sims_write_wide sink_rel_simps(6) assms
      split: list.split va.split)

lemma sims_conv_s:
  assumes "sink_rel holds s t"
  shows "sims holds fits (conv_s wr sp s) (conv_s collect sp t)"
  unfolding conv_s_def sink_rel_simps(1-3) [OF assms] Let_def
  by (auto intro!: sims_bind sims_write sims_write_wides sims_Some sink_rel_simps(6) assms split: list.split va.split)

lemma sims_convert: "sink_rel holds s t \<Longrightarrow> sims holds fits (convert wr c sp s) (convert collect c sp t)"
  unfolding convert_def by (simp add: sims_conversions sims_conv_s sims_default sims_conv_n)

lemma vfprintf_loop_steps:
  "scan_text fmt = (len, rest) \<Longrightarrow> len \<noteq> 0 \<Longrightarrow> pf_write w s (take len fmt) = Some (s1, ok) \<Longrightarrow>
     vfprintf_loop w to_int fmt s = (if ok then vfprintf_loop w to_int rest s1 else Some (s1, - 1))"
  "scan_text fmt = (0, []) \<Longrightarrow> vfprintf_loop w to_int fmt s = Some (pf_unlock s, int (pf_written s))"
  "scan_text fmt = (0, p # fmt1) \<Longrightarrow> parse_spec to_int fmt1 (pf_args s) = Some ([], sp, ap) \<Longrightarrow>
     vfprintf_loop w to_int fmt s = Some ((pf_unlock (s\<lparr>pf_args := ap\<rparr>))\<lparr>pf_errno := Some EINVAL\<rparr>, - 1)"
  "scan_text fmt = (0, p # fmt1) \<Longrightarrow> parse_spec to_int fmt1 (pf_args s) = Some (c # fmt3, sp, ap) \<Longrightarrow>
     convert w c sp (s\<lparr>pf_args := ap\<rparr>) = Some (s2, ok) \<Longrightarrow>
     vfprintf_loop w to_int fmt s = (if ok then vfprintf_loop w to_int fmt3 s2 else Some (s2, - 1))"
  by (simp_all add: vfprintf_loop.simps [of w to_int fmt s] Let_def)

lemma loop_fits:
  assumes "pf_frame grows t t1 ok" and "if ok then vfprintf_loop collect to_int fmt t1 = Some (t', r) else t' = t1"
    and "int (pf_written t) \<le> INT_MAX" and "pred_option fits (pf_file t')"
  shows "pred_option fits (pf_file t1)"
proof (cases ok)
  case True
  then have "loop_frame grows t1 t' r"
    using assms by (intro collecting.vfprintf_loop_frame) (auto simp: pf_frame_def)
  then show ?thesis using assms(4)
    by (auto simp: loop_frame_def option.rel_sel option.pred_set grows_def dest: fits_prefix)
qed (use assms in auto)

lemma sims_vfprintf_loop:
  "vfprintf_loop collect to_int fmt t = Some (t', r) \<Longrightarrow> sink_rel holds s t \<Longrightarrow> int (pf_written t) \<le> INT_MAX \<Longrightarrow>
     pred_option fits (pf_file t') \<Longrightarrow> \<exists>s'. vfprintf_loop wr to_int fmt s = Some (s', r) \<and> sink_rel holds s' t'"
proof (induction "length fmt" arbitrary: fmt s t rule: less_induct)
  case less
  from less(2) show ?case
  proof (cases rule: vfprintf_loop_cases)
    case (literal len rest t1 ok)
    have fr: "pf_frame grows t t1 ok" using collecting.framed_write [of t "take len fmt"] literal(3) by simp
    have "pred_option fits (pf_file t1)"
      using loop_fits [OF fr, of to_int rest t' r] literal(4) less(4,5) by (cases ok) simp_all
    then obtain s1 where s1: "pf_write wr s (take len fmt) = Some (s1, ok)" "sink_rel holds s1 t1"
      using sims_write [OF less(3), of "take len fmt"] literal(3) by (auto simp: sims_def)
    show ?thesis
      using less(1) [OF literal(5), of t1 s1] literal(4) s1(2) fr less(4,5)
      unfolding vfprintf_loop_steps(1) [OF literal(1,2) s1(1)] by (cases ok) (auto simp: pf_frame_def)
  next
    case finish
    show ?thesis unfolding vfprintf_loop_steps(2) [OF finish(1)] using finish sink_rel_simps [OF less(3)] by auto
  next
    case (incomplete p fmt1 sp ap)
    have "sink_rel holds ((pf_unlock (s\<lparr>pf_args := ap\<rparr>))\<lparr>pf_errno := Some EINVAL\<rparr>) t'"
      unfolding incomplete(3) by (intro sink_rel_simps(6,7,10) less(3))
    then show ?thesis
      using vfprintf_loop_steps(3) [OF incomplete(1), of to_int s sp ap wr] incomplete(2,4) sink_rel_simps(1) [OF less(3)] by simp
  next
    case (directive p fmt1 c fmt3 sp ap t2 ok)
    let ?s = "s\<lparr>pf_args := ap\<rparr>" and ?t = "t\<lparr>pf_args := ap\<rparr>"
    have fr: "pf_frame grows ?t t2 ok" using collecting.framed_convert [of ?t c sp] directive(3) by simp
    have "pred_option fits (pf_file t2)"
      using loop_fits [OF fr, of to_int fmt3 t' r] directive(4) less(4,5) by (cases ok) simp_all
    then obtain s2 where s2: "convert wr c sp ?s = Some (s2, ok)" "sink_rel holds s2 t2"
      using sims_convert [OF sink_rel_simps(6) [OF less(3)], of c sp ap] directive(3) by (auto simp: sims_def)
    have ps: "parse_spec to_int fmt1 (pf_args s) = Some (c # fmt3, sp, ap)"
      using directive(2) sink_rel_simps(1) [OF less(3)] by simp
    show ?thesis
      using less(1) [OF directive(5), of t2 s2] directive(4) s2(2) fr less(4,5)
      unfolding vfprintf_loop_steps(4) [OF directive(1) ps s2(1)] by (cases ok) (auto simp: pf_frame_def)
  qed
qed

lemma vfprintf_refines:
  assumes "vfprintf collect to_int (Some []) m wm fmt ap = Some (t, r)" and "pf_file t = Some out" and "fits out"
    and "holds f []"
  shows "\<exists>s f'. vfprintf wr to_int (Some f) m wm fmt ap = Some (s, r) \<and> sink_rel holds s t \<and>
    pf_file s = Some f' \<and> holds f' out"
proof -
  let ?s = "pf_lock \<lparr>pf_file = Some f, pf_written = 0, pf_mutex = 0, pf_errno = None, pf_mem = m, pf_wmem = wm, pf_args = ap\<rparr>"
  have "\<exists>s. vfprintf_loop wr to_int fmt ?s = Some (s, r) \<and> sink_rel holds s t"
    using assms by (intro sims_vfprintf_loop [OF assms(1) [unfolded vfprintf_def]])
      (auto simp: sink_rel_def pf_lock_def)
  then show ?thesis using assms(2) by (auto simp: vfprintf_def sink_rel_def option.rel_sel)
qed

end

subsection \<open>Properties\<close>

text \<open>
  C24. Whatever the stream does, a call of \<open>vfprintf\<close> that returns has released the file's mutex, on the
  paths that succeed and on every error path, and it returns -1 or the number of bytes
  written, which fits an \<open>int\<close>.
\<close>

theorem vfprintf_releases_lock:
  assumes "vfprintf wr to_int file m wm fmt ap = Some (s, r)"
  shows "pf_mutex s = 0 \<and> (r = - 1 \<or> r = int (pf_written s) \<and> r \<le> INT_MAX)"
proof -
  let ?s = "pf_lock \<lparr>pf_file = file, pf_written = 0, pf_mutex = 0, pf_errno = None, pf_mem = m, pf_wmem = wm, pf_args = ap\<rparr>"
  have "loop_frame (\<lambda>_ _. True) ?s s r"
    using assms by (intro any_sink.vfprintf_loop_frame [of wr to_int fmt]) (simp_all add: vfprintf_def pf_lock_def)
  then show ?thesis by (auto simp: loop_frame_def pf_lock_def split: if_splits)
qed

lemma vfprintf_incomplete:
  "map_option (\<lambda>(s, r). (pf_file s, pf_errno s, r))
     (vfprintf collect (\<lambda>_. (0, 0)) (Some []) Map.empty Map.empty (bytes ''ab%l'') []) = Some (Some (bytes ''ab''), Some EINVAL, - 1)"
  by code_simp

theorem vfprintf_releases_lock_witness:
  "\<exists>s. vfprintf collect (\<lambda>_. (0, 0)) (Some []) Map.empty Map.empty (bytes ''ab%l'') [] = Some (s, - 1) \<and>
     pf_errno s = Some EINVAL \<and> pf_mutex s = 0"
proof -
  obtain s where s: "vfprintf collect (\<lambda>_. (0, 0)) (Some []) Map.empty Map.empty (bytes ''ab%l'') [] = Some (s, - 1)"
      "pf_errno s = Some EINVAL"
    using vfprintf_incomplete by (auto simp: map_option_case split: option.splits prod.splits)
  then show ?thesis using vfprintf_releases_lock [OF s(1)] by blast
qed

end
