(* ===== verification/Strftime.thy ===== *)
theory Strftime
  imports Calendar Printf
begin

text \<open>
  Time formatting: \<open>strftime\<close> and \<open>asctime\<close> of \<^verbatim>\<open>src/ansi/time.cpp\<close>, \<open>asctime_r\<close> of \<^verbatim>\<open>src/posix/time.cpp\<close>, and
  \<open>wcsftime\<close> of \<^verbatim>\<open>src/ansi/wchar.cpp\<close>, which is the same code for wide characters.

  The model is written once for characters of any width.  A format is the list of its characters before
  the terminator; reading behind the terminator is undefined.  The conversions write through a function \<open>wr\<close>, which
  returns the new state and whether the text fitted; a step returns false where the source returns 0.  The zone file is the one of
  the calendar, and \<open>None\<close> means that none was loaded.
\<close>

subsection \<open>Characters and names\<close>

definition sc :: "char \<Rightarrow> 'c::len word" where
  "sc c = of_char c"

definition scs :: "string \<Rightarrow> 'c::len word list" where
  "scs s = map sc s"

definition T_CHARS :: "'c::len word list" where
  "T_CHARS = scs ''0123456789ABCDEF''"

definition MONTH_ABBREVS :: "'c::len word list list" where
  "MONTH_ABBREVS = map scs [''Jan'', ''Feb'', ''Mar'', ''Apr'', ''May'', ''Jun'', ''Jul'', ''Aug'', ''Sep'', ''Oct'', ''Nov'', ''Dec'']"

definition MONTHS :: "'c::len word list list" where
  "MONTHS = map scs [''January'', ''February'', ''March'', ''April'', ''May'', ''June'', ''July'', ''August'', ''September'',
     ''October'', ''November'', ''December'']"

definition DAY_ABBREVS :: "'c::len word list list" where
  "DAY_ABBREVS = map scs [''Sun'', ''Mon'', ''Tue'', ''Wed'', ''Thu'', ''Fri'', ''Sat'']"

definition DAYS :: "'c::len word list list" where
  "DAYS = map scs [''Sunday'', ''Monday'', ''Tuesday'', ''Wednesday'', ''Thursday'', ''Friday'', ''Saturday'']"

subsection \<open>Writing\<close>

type_synonym ('c, 's) t_writer = "'s \<Rightarrow> 'c word list \<Rightarrow> ('s \<times> bool) option"
type_synonym 's t_step = "'s \<Rightarrow> ('s \<times> bool) option"

definition t_then :: "'s t_step \<Rightarrow> 's t_step \<Rightarrow> 's t_step" where
  "t_then f g s = (case f s of None \<Rightarrow> None | Some (s', ok) \<Rightarrow> if ok then g s' else Some (s', False))"

fun t_seq :: "'s t_step list \<Rightarrow> 's t_step" where
  "t_seq [] s = Some (s, True)"
| "t_seq (f # fs) s = t_then f (t_seq fs) s"

definition t_opt :: "'a option \<Rightarrow> ('a \<Rightarrow> 's t_step) \<Rightarrow> 's t_step" where
  "t_opt x f s = do { v \<leftarrow> x; f v s }"

definition t_text :: "('c::len, 's) t_writer \<Rightarrow> string \<Rightarrow> 's t_step" where
  "t_text wr t s = wr s (scs t)"

function t_digits :: "int \<Rightarrow> int \<Rightarrow> 'c::len word list \<Rightarrow> 'c word list option" where
  "t_digits val base acc =
     (if 2 \<le> base then
        do { c \<leftarrow> index T_CHARS (val smod base);
             let v = val sdiv base in if v \<noteq> 0 then t_digits v base (c # acc) else Some (c # acc) }
      else None)"
  by auto
termination
proof (relation "measure (\<lambda>(v, b, a). nat \<bar>v\<bar>)")
  fix val base v :: int and acc c
  assume "2 \<le> base" "v = val sdiv base" "v \<noteq> 0"
  then have "val \<noteq> 0" by (auto simp: signed_divide_int_def)
  moreover have "\<bar>v\<bar> = \<bar>val\<bar> div base" using \<open>2 \<le> base\<close> \<open>v = val sdiv base\<close> calculation
    by (simp add: signed_divide_int_def abs_mult abs_sgn_eq abs_of_nonneg pos_imp_zdiv_nonneg_iff)
  ultimately have "\<bar>v\<bar> < \<bar>val\<bar>" using \<open>2 \<le> base\<close> by (simp add: int_div_less_self)
  then show "((v, base, c # acc), (val, base, acc)) \<in> measure (\<lambda>(v, b, a). nat \<bar>v\<bar>)" by simp
qed simp

declare t_digits.simps [simp del]

definition t_int :: "('c::len, 's) t_writer \<Rightarrow> int \<Rightarrow> int \<Rightarrow> nat \<Rightarrow> 's t_step" where
  "t_int wr val base pad s =
     do { ds \<leftarrow> t_digits val base []; wr s (replicate (pad - length ds) (sc CHR ''0'') @ ds) }"

definition t_name :: "('c::len, 's) t_writer \<Rightarrow> 'c word list list \<Rightarrow> int \<Rightarrow> 's t_step" where
  "t_name wr names i = t_opt (index names i) (\<lambda>n s. wr s n)"

definition t_two :: "('c::len, 's) t_writer \<Rightarrow> int \<Rightarrow> int \<Rightarrow> 's t_step" where
  "t_two wr a b = t_opt (index T_CHARS a) (\<lambda>x. t_opt (index T_CHARS b) (\<lambda>y s. wr s [x, y]))"

subsection \<open>Conversions\<close>

text \<open>The fields that several conversions print.\<close>

definition t_year :: "('c::len, 's) t_writer \<Rightarrow> tm \<Rightarrow> 's t_step" where
  "t_year wr time = t_opt (ck32 (tm_year time + 1900)) (\<lambda>y. t_int wr y 10 0)"

definition t_month :: "('c::len, 's) t_writer \<Rightarrow> tm \<Rightarrow> nat \<Rightarrow> 's t_step" where
  "t_month wr time pad = t_opt (ck32 (tm_mon time + 1)) (\<lambda>m. t_int wr m 10 pad)"

definition t_hour12 :: "('c::len, 's) t_writer \<Rightarrow> tm \<Rightarrow> 's t_step" where
  "t_hour12 wr time = (let hour = tm_hour time smod 12 in t_int wr (if hour = 0 then 12 else hour) 10 0)"

definition t_Ey :: "('c::len, 's) t_writer \<Rightarrow> tm \<Rightarrow> 's t_step" where
  "t_Ey wr time = t_opt (ck32 (tm_year time + 1900)) (\<lambda>year. t_int wr (year - year sdiv 1000 * 1000) 10 2)"

definition t_y :: "('c::len, 's) t_writer \<Rightarrow> tm \<Rightarrow> 's t_step" where
  "t_y wr time = t_opt (ck32 (tm_year time + 1900)) (\<lambda>year. t_two wr (year sdiv 10 smod 10) (year smod 10))"

definition t_C :: "('c::len, 's) t_writer \<Rightarrow> tm \<Rightarrow> 's t_step" where
  "t_C wr time = t_opt (ck32 (tm_year time + 1900))
     (\<lambda>year. t_two wr (year sdiv 10 sdiv 10 sdiv 10 smod 10) (year sdiv 10 sdiv 10 smod 10))"

definition t_e :: "('c::len, 's) t_writer \<Rightarrow> tm \<Rightarrow> 's t_step" where
  "t_e wr time =
     t_opt (index T_CHARS (tm_mday time sdiv 10 smod 10)) (\<lambda>x. t_opt (index T_CHARS (tm_mday time smod 10))
       (\<lambda>y s. if x = sc CHR ''0'' then wr s [y] else wr s [x, y]))"

definition t_c :: "('c::len, 's) t_writer \<Rightarrow> tm \<Rightarrow> 's t_step" where
  "t_c wr time = t_seq [t_name wr DAY_ABBREVS (tm_wday time), t_text wr '' '', t_name wr MONTH_ABBREVS (tm_mon time), t_text wr '' '',
     t_int wr (tm_mday time) 10 0, t_text wr '' '', t_int wr (tm_hour time) 10 2, t_text wr '':'', t_int wr (tm_min time) 10 2,
     t_text wr '':'', t_int wr (tm_sec time) 10 2, t_text wr '' '', t_year wr time]"

definition t_x :: "('c::len, 's) t_writer \<Rightarrow> tm \<Rightarrow> 's t_step" where
  "t_x wr time = t_seq [t_int wr (tm_mday time) 10 2, t_text wr ''.'', t_month wr time 0, t_text wr ''.'', t_year wr time]"

definition t_D :: "('c::len, 's) t_writer \<Rightarrow> tm \<Rightarrow> 's t_step" where
  "t_D wr time = t_seq [t_month wr time 0, t_text wr ''/'', t_int wr (tm_mday time) 10 2, t_text wr ''/'', t_year wr time]"

definition t_F :: "('c::len, 's) t_writer \<Rightarrow> tm \<Rightarrow> 's t_step" where
  "t_F wr time = t_seq [t_year wr time, t_text wr ''-'', t_month wr time 0, t_text wr ''-'', t_int wr (tm_mday time) 10 2]"

definition t_r :: "('c::len, 's) t_writer \<Rightarrow> tm \<Rightarrow> 's t_step" where
  "t_r wr time = t_seq [t_hour12 wr time, t_text wr '':'', t_int wr (tm_min time) 10 2]"

definition t_R :: "('c::len, 's) t_writer \<Rightarrow> tm \<Rightarrow> 's t_step" where
  "t_R wr time = t_seq [t_int wr (tm_hour time) 10 2, t_text wr '':'', t_int wr (tm_min time) 10 2]"

definition t_T :: "('c::len, 's) t_writer \<Rightarrow> tm \<Rightarrow> 's t_step" where
  "t_T wr time = t_seq [t_int wr (tm_hour time) 10 2, t_text wr '':'', t_int wr (tm_min time) 10 2, t_text wr '':'',
     t_int wr (tm_sec time) 10 2]"

definition t_p :: "('c::len, 's) t_writer \<Rightarrow> tm \<Rightarrow> 's t_step" where
  "t_p wr time = (if tm_hour time < 12 then t_text wr ''AM'' else t_text wr ''PM'')"

text \<open>The zone of a time: no text without zone data or when \<open>mktime\<close> returns -1.\<close>

record zone_env =
  ne_from_be :: "u32 \<Rightarrow> u32"
  tz_file :: "TzFile option"

definition zone_at :: "zone_env \<Rightarrow> tm \<Rightarrow> TzData option option" where
  "zone_at E time =
     (case tz_file E of
        None \<Rightarrow> Some None
      | Some ptr \<Rightarrow>
          do { r \<leftarrow> mktime (ne_from_be E) (tz_file E) time;
               case r of
                 Inl e \<Rightarrow> Some None
               | Inr (t, _) \<Rightarrow> if t \<noteq> - 1 then map_option Some (get_tz_data (ne_from_be E) ptr t) else Some None })"

definition t_z :: "('c::len, 's) t_writer \<Rightarrow> zone_env \<Rightarrow> tm \<Rightarrow> 's t_step" where
  "t_z wr E time =
     t_opt (zone_at E time) (\<lambda>z. case z of
        None \<Rightarrow> t_seq []
      | Some info \<Rightarrow>
          t_opt (if gmt_offset info < 0 then ck32 (gmt_offset info * - 1) else Some (gmt_offset info))
            (\<lambda>off. t_seq [t_text wr (if gmt_offset info < 0 then ''-'' else ''+''), t_int wr (off sdiv 3600) 10 2,
               t_int wr (off smod 3600 sdiv 60) 10 2]))"

text \<open>The byte function writes the name of the zone at once, the wide one character by character.\<close>

definition t_Z :: "('c::len, 's) t_writer \<Rightarrow> (u8 list \<Rightarrow> 'c word list list) \<Rightarrow> zone_env \<Rightarrow> tm \<Rightarrow> 's t_step" where
  "t_Z wr pieces E time =
     t_opt (zone_at E time) (\<lambda>z. case z of None \<Rightarrow> t_seq [] | Some info \<Rightarrow> t_seq (map (\<lambda>p s. wr s p) (pieces (zone info))))"

text \<open>The conversions of one character behind the percent sign that move past it.\<close>

definition t_simple :: "('c::len, 's) t_writer \<Rightarrow> tm \<Rightarrow> 'c word \<Rightarrow> 's t_step option" where
  "t_simple wr time c =
     (if c = sc CHR ''n'' then Some (t_text wr [CHR 0x0A])
      else if c = sc CHR ''t'' then Some (t_text wr [CHR 0x09])
      else if c = sc CHR ''Y'' then Some (t_year wr time)
      else if c = sc CHR ''y'' then Some (t_y wr time)
      else if c = sc CHR ''C'' then Some (t_C wr time)
      else if c = sc CHR ''G'' \<or> c = sc CHR ''g'' then Some (t_seq [])
      else if c = sc CHR ''b'' \<or> c = sc CHR ''h'' then Some (t_name wr MONTH_ABBREVS (tm_mon time))
      else if c = sc CHR ''B'' then Some (t_name wr MONTHS (tm_mon time))
      else if c = sc CHR ''m'' then Some (t_month wr time 2)
      else if c = sc CHR ''j'' then Some (t_opt (ck32 (tm_yday time + 1)) (\<lambda>d. t_int wr d 10 3))
      else if c = sc CHR ''d'' then Some (t_int wr (tm_mday time) 10 2)
      else if c = sc CHR ''e'' then Some (t_e wr time)
      else if c = sc CHR ''a'' then Some (t_name wr DAY_ABBREVS (tm_wday time))
      else if c = sc CHR ''A'' then Some (t_name wr DAYS (tm_wday time))
      else if c = sc CHR ''w'' then Some (t_int wr (tm_wday time) 10 0)
      else if c = sc CHR ''u'' then Some (t_opt (ck32 (tm_wday time + 1)) (\<lambda>d. t_int wr d 10 0))
      else if c = sc CHR ''H'' then Some (t_int wr (tm_hour time) 10 2)
      else if c = sc CHR ''I'' then Some (t_hour12 wr time)
      else if c = sc CHR ''M'' then Some (t_int wr (tm_min time) 10 2)
      else if c = sc CHR ''S'' then Some (t_int wr (tm_sec time) 10 2)
      else if c = sc CHR ''c'' then Some (t_c wr time)
      else if c = sc CHR ''x'' then Some (t_x wr time)
      else if c = sc CHR ''D'' then Some (t_D wr time)
      else if c = sc CHR ''F'' then Some (t_F wr time)
      else if c = sc CHR ''r'' then Some (t_r wr time)
      else if c = sc CHR ''R'' then Some (t_R wr time)
      else if c = sc CHR ''T'' then Some (t_T wr time)
      else None)"

text \<open>Behind the modifiers: \<open>None\<close> is the return of 0, otherwise the step.\<close>

definition t_E :: "('c::len, 's) t_writer \<Rightarrow> tm \<Rightarrow> 'c word \<Rightarrow> 's t_step option" where
  "t_E wr time c =
     (if c = sc CHR ''Y'' then Some (t_year wr time)
      else if c = sc CHR ''y'' then Some (t_Ey wr time)
      else if c \<in> set (scs ''CcX'') then Some (t_seq [])
      else None)"

definition t_O :: "'c::len word \<Rightarrow> 's t_step option" where
  "t_O c = (if c \<in> set (scs ''ybBmdewuHIMS'') then Some (t_seq []) else None)"

definition t_fail :: "'s t_step" where
  "t_fail s = Some (s, False)"

text \<open>
  The switch: the character before the format's position is \<open>prev\<close>.  The result is the step and the format behind the
  conversion; \<open>None\<close> is a format position behind the terminator.
\<close>

definition t_convert ::
    "('c::len, 's) t_writer \<Rightarrow> (u8 list \<Rightarrow> 'c word list list) \<Rightarrow> zone_env \<Rightarrow> tm \<Rightarrow> 'c word \<Rightarrow> 'c word list \<Rightarrow> 's t_step \<times> 'c word list option" where
  "t_convert wr pieces E time prev fmt =
     (case fmt of
        [] \<Rightarrow> (\<lambda>s. wr s [prev, 0], None)
      | c # rest \<Rightarrow>
          (case t_simple wr time c of
             Some f \<Rightarrow> (f, Some rest)
           | None \<Rightarrow>
               if c = sc CHR ''E'' \<or> c = sc CHR ''O'' then
                 (case rest of
                    [] \<Rightarrow> (t_fail, Some [])
                  | d # rest' \<Rightarrow>
                      (case (if c = sc CHR ''E'' then t_E wr time d else t_O d) of
                         Some f \<Rightarrow> (f, Some rest') | None \<Rightarrow> (t_fail, Some rest)))
               else if c = sc CHR ''p'' then (t_p wr time, Some fmt)
               else if c = sc CHR ''z'' then (t_z wr E time, Some fmt)
               else if c = sc CHR ''Z'' then (t_Z wr pieces E time, Some fmt)
               else (\<lambda>s. wr s [prev, c], Some rest)))"

subsection \<open>The loop\<close>

fun t_literal :: "'c::len word list \<Rightarrow> nat \<Rightarrow> nat \<times> 'c word list" where
  "t_literal [] len = (len, [])"
| "t_literal (c # fmt) len = (if c = sc CHR ''%'' then (len, c # fmt) else t_literal fmt (Suc len))"

fun t_percents :: "'c::len word list \<Rightarrow> nat \<Rightarrow> nat \<times> 'c word list" where
  "t_percents (c # d # fmt) len =
     (if c = sc CHR ''%'' \<and> d = sc CHR ''%'' then t_percents fmt (Suc len) else (len, c # d # fmt))"
| "t_percents fmt len = (len, fmt)"

lemma t_literal_length: "length (snd (t_literal fmt len)) \<le> length fmt"
  by (induction fmt len rule: t_literal.induct) (auto intro: le_SucI)

lemma t_percents_length: "length (snd (t_percents fmt len)) \<le> length fmt"
  by (induction fmt len rule: t_percents.induct) (auto intro: le_SucI)

definition t_scan :: "'c::len word list \<Rightarrow> nat \<times> 'c word list" where
  "t_scan fmt = (case t_literal fmt 0 of (len, fmt') \<Rightarrow> t_percents fmt' len)"

lemma t_scan_length: "t_scan fmt = (len, rest) \<Longrightarrow> length rest \<le> length fmt"
  using t_literal_length [of fmt 0] t_percents_length le_trans unfolding t_scan_def
  by (metis (no_types, lifting) case_prod_beta snd_conv)

lemma t_convert_length: "t_convert wr pieces E time prev fmt = (f, Some rest) \<Longrightarrow> length rest \<le> length fmt"
  by (auto simp: t_convert_def split: list.splits option.splits if_splits)

function t_loop ::
    "('c::len, 's) t_writer \<Rightarrow> (u8 list \<Rightarrow> 'c word list list) \<Rightarrow> zone_env \<Rightarrow> tm \<Rightarrow> 'c word list \<Rightarrow> 's t_step" where
  "t_loop wr pieces E time fmt s =
     (case t_scan fmt of (len, rest) \<Rightarrow>
        do { (s1, ok) \<leftarrow> (if len \<noteq> 0 then wr s (take len fmt) else Some (s, True));
             if \<not> ok then Some (s1, False)
             else case rest of
                 [] \<Rightarrow> Some (s1, True)
               | prev # fmt1 \<Rightarrow>
                   (case t_convert wr pieces E time prev fmt1 of (f, next) \<Rightarrow>
                      do { (s2, ok2) \<leftarrow> f s1;
                           if \<not> ok2 then Some (s2, False)
                           else case next of None \<Rightarrow> None | Some fmt2 \<Rightarrow> t_loop wr pieces E time fmt2 s2 }) })"
  by auto
termination
  by (relation "measure (\<lambda>(wr, pieces, E, time, fmt, s). length fmt)")
    (fastforce dest: t_scan_length [OF sym] t_convert_length [OF sym])+

declare t_loop.simps [simp del]

subsection \<open>The functions\<close>

record 'a t_buffer =
  t_mem :: "'a mem"
  t_str :: nat
  t_written :: nat

definition t_write :: "nat \<Rightarrow> ('c::len, 'c word t_buffer) t_writer" where
  "t_write cnt s bs =
     (if t_written s + length bs > cnt then Some (s, False)
      else do { m \<leftarrow> store_list (t_mem s) (t_str s) bs;
                Some (s\<lparr>t_mem := m, t_str := t_str s + length bs, t_written := t_written s + length bs\<rparr>, True) })"

definition t_format ::
    "(u8 list \<Rightarrow> 'c::len word list list) \<Rightarrow> zone_env \<Rightarrow> 'c word mem \<Rightarrow> nat \<Rightarrow> nat \<Rightarrow> 'c word list \<Rightarrow> tm \<Rightarrow> ('c word mem \<times> nat) option" where
  "t_format pieces E m str cnt fmt time =
     do { (s, ok) \<leftarrow> t_loop (t_write cnt) pieces E time fmt \<lparr>t_mem = m, t_str = str, t_written = 0\<rparr>;
          if \<not> ok then Some (t_mem s, 0)
          else if cnt \<noteq> 0 then
            (if t_written s < cnt then do { m' \<leftarrow> store (t_mem s) (t_str s) 0; Some (m', t_written s) } else Some (t_mem s, 0))
          else Some (t_mem s, t_written s) }"

definition strftime :: "zone_env \<Rightarrow> u8 mem \<Rightarrow> nat \<Rightarrow> nat \<Rightarrow> u8 list \<Rightarrow> tm \<Rightarrow> (u8 mem \<times> nat) option" where
  "strftime E m str cnt fmt time = t_format (\<lambda>zn. [zn]) E m str cnt fmt time"

definition wcsftime :: "zone_env \<Rightarrow> u32 mem \<Rightarrow> nat \<Rightarrow> nat \<Rightarrow> u32 list \<Rightarrow> tm \<Rightarrow> (u32 mem \<times> nat) option" where
  "wcsftime E m str cnt fmt time = t_format (map (\<lambda>c. [scast c])) E m str cnt fmt time"

definition ASCTIME_FORMAT :: "u8 list" where
  "ASCTIME_FORMAT = scs (''%a %b %d %T %Y'' @ [CHR 0x0A])"

definition asctime_r :: "zone_env \<Rightarrow> u8 mem \<Rightarrow> nat \<Rightarrow> tm \<Rightarrow> u8 mem option" where
  "asctime_r E m buffer time = map_option fst (strftime E m buffer 26 ASCTIME_FORMAT time)"

definition asctime :: "zone_env \<Rightarrow> u8 mem \<Rightarrow> nat \<Rightarrow> tm \<Rightarrow> u8 mem option" where
  "asctime E m ASCTIME_BUF time = map_option fst (strftime E m ASCTIME_BUF 26 ASCTIME_FORMAT time)"

subsection \<open>The text of a call\<close>

text \<open>
  The reference writer keeps everything in a list.  The contract of a writer with room for \<open>cap\<close> characters: it appends
  what fits and refuses the rest without a change.  Then it does, up to its room, what the list does.
\<close>

definition t_collect :: "('c::len, 'c word list) t_writer" where
  "t_collect out bs = Some (out @ bs, True)"

definition t_output :: "(u8 list \<Rightarrow> 'c::len word list list) \<Rightarrow> zone_env \<Rightarrow> 'c word list \<Rightarrow> tm \<Rightarrow> ('c word list \<times> bool) option" where
  "t_output pieces E fmt time = t_loop t_collect pieces E time fmt []"

lemma t_int_opt: "t_int w v base pad = t_opt (t_digits v base []) (\<lambda>ds s. w s (replicate (pad - length ds) (sc CHR ''0'') @ ds))"
  by (auto simp: fun_eq_iff t_int_def t_opt_def)

locale text_writer =
  fixes wr :: "('c::len, 's) t_writer" and holds :: "'s \<Rightarrow> 'c word list \<Rightarrow> bool" and cap :: nat
  assumes write_law: "holds s out \<Longrightarrow> length out \<le> cap \<Longrightarrow>
    (if length (out @ bs) \<le> cap then \<exists>s'. wr s bs = Some (s', True) \<and> holds s' (out @ bs) else wr s bs = Some (s, False))"
begin

definition sims :: "'s t_step \<Rightarrow> 'c word list t_step \<Rightarrow> bool" where
  "sims f g \<longleftrightarrow> (\<forall>out out' ok. g out = Some (out', ok) \<longrightarrow> length out \<le> length out' \<and>
     (\<forall>s. holds s out \<longrightarrow> length out \<le> cap \<longrightarrow>
       (\<exists>s' kept. f s = Some (s', ok \<and> length out' \<le> cap) \<and> holds s' kept \<and> length kept \<le> cap \<and>
          (length out' \<le> cap \<longrightarrow> kept = out'))))"

lemma sims_grows: "sims f g \<Longrightarrow> g out = Some (out', ok) \<Longrightarrow> length out \<le> length out'"
  by (simp add: sims_def)

lemma simsE:
  assumes "sims f g" and "g out = Some (out', ok)" and "holds s out" and "length out \<le> cap"
  obtains s' kept where "f s = Some (s', ok \<and> length out' \<le> cap)" "holds s' kept" "length kept \<le> cap"
    "length out' \<le> cap \<longrightarrow> kept = out'"
  using assms unfolding sims_def by blast

lemma sims_wr [intro]: "sims (\<lambda>s. wr s bs) (\<lambda>out. t_collect out bs)"
proof -
  have "\<exists>s' kept. wr s bs = Some (s', length (out @ bs) \<le> cap) \<and> holds s' kept \<and> length kept \<le> cap \<and>
      (length (out @ bs) \<le> cap \<longrightarrow> kept = out @ bs)" if "holds s out" "length out \<le> cap" for s out
    using write_law [OF that, of bs] that by (cases "length (out @ bs) \<le> cap") auto
  then show ?thesis by (simp add: sims_def t_collect_def)
qed

lemma sims_return [intro]: "sims (t_seq []) (t_seq [])"
  by (auto simp: sims_def)

lemma sims_fail [intro]: "sims t_fail t_fail"
  by (auto simp: sims_def t_fail_def)

lemma sims_then:
  assumes "sims f g" and "sims f' g'" shows "sims (t_then f f') (t_then g g')"
  unfolding sims_def
proof (intro allI impI conjI)
  fix out out' ok
  assume "t_then g g' out = Some (out', ok)"
  then obtain out1 ok1 where 1: "g out = Some (out1, ok1)" "if ok1 then g' out1 = Some (out', ok) else out' = out1 \<and> \<not> ok"
    by (auto simp: t_then_def split: option.splits if_splits)
  have grow: "length out \<le> length out1" "length out1 \<le> length out'"
    using sims_grows [OF assms(1) 1(1)] sims_grows [OF assms(2), of out1 out' ok] 1(2) by (auto split: if_splits)
  then show "length out \<le> length out'" by simp
  fix s
  assume s: "holds s out" "length out \<le> cap"
  obtain s1 k1 where f: "f s = Some (s1, ok1 \<and> length out1 \<le> cap)" "holds s1 k1" "length k1 \<le> cap" "length out1 \<le> cap \<longrightarrow> k1 = out1"
    using simsE [OF assms(1) 1(1) s] by blast
  show "\<exists>s' kept. t_then f f' s = Some (s', ok \<and> length out' \<le> cap) \<and> holds s' kept \<and> length kept \<le> cap \<and>
      (length out' \<le> cap \<longrightarrow> kept = out')"
  proof (cases "ok1 \<and> length out1 \<le> cap")
    case True
    then have g': "g' out1 = Some (out', ok)" "holds s1 out1" "length out1 \<le> cap" using 1 f by auto
    obtain s2 k2 where "f' s1 = Some (s2, ok \<and> length out' \<le> cap)" "holds s2 k2" "length k2 \<le> cap" "length out' \<le> cap \<longrightarrow> k2 = out'"
      using simsE [OF assms(2) g'] by blast
    then show ?thesis using True f(1) by (auto simp: t_then_def)
  next
    case False
    then have "t_then f f' s = Some (s1, False)" "\<not> (ok \<and> length out' \<le> cap)" "length out' \<le> cap \<longrightarrow> k1 = out'"
      using f 1(2) grow(2) by (auto simp: t_then_def split: if_splits)
    then show ?thesis using f(2,3) by (intro exI [of _ s1] exI [of _ k1]) simp
  qed
qed

lemma sims_seq: "list_all2 sims fs gs \<Longrightarrow> sims (t_seq fs) (t_seq gs)"
proof (induction rule: list_all2_induct)
  case (Cons f fs g gs)
  have "t_seq (f # fs) = t_then f (t_seq fs)" "t_seq (g # gs) = t_then g (t_seq gs)" by (auto simp: fun_eq_iff)
  then show ?case using sims_then [OF Cons(1,3)] by simp
qed (rule sims_return)

lemma sims_opt [intro]: "(\<And>v. sims (f v) (g v)) \<Longrightarrow> sims (t_opt x f) (t_opt x g)"
  by (cases x) (simp_all add: sims_def t_opt_def)

lemma sims_int [intro]: "sims (t_int wr v base pad) (t_int t_collect v base pad)"
  unfolding t_int_opt by (intro sims_opt sims_wr)

lemma sims_text [intro]: "sims (t_text wr x) (t_text t_collect x)"
  unfolding t_text_def by (rule sims_wr)

lemma sims_name [intro]: "sims (t_name wr names i) (t_name t_collect names i)"
  unfolding t_name_def by (intro sims_opt sims_wr)

lemma sims_two [intro]: "sims (t_two wr a b) (t_two t_collect a b)"
  unfolding t_two_def by (intro sims_opt sims_wr)

lemma sims_fields [intro]:
  "sims (t_year wr time) (t_year t_collect time)" "sims (t_month wr time pad) (t_month t_collect time pad)"
  "sims (t_hour12 wr time) (t_hour12 t_collect time)" "sims (t_Ey wr time) (t_Ey t_collect time)"
  "sims (t_y wr time) (t_y t_collect time)" "sims (t_C wr time) (t_C t_collect time)" "sims (t_p wr time) (t_p t_collect time)"
  unfolding t_year_def t_month_def t_hour12_def t_Ey_def t_y_def t_C_def t_p_def Let_def
  by (auto intro!: sims_opt sims_int sims_two sims_text)

lemma sims_e [intro]: "sims (t_e wr time) (t_e t_collect time)"
  unfolding t_e_def
proof (intro sims_opt)
  fix x y :: "'c word"
  show "sims (\<lambda>s. if x = sc CHR ''0'' then wr s [y] else wr s [x, y]) (\<lambda>s. if x = sc CHR ''0'' then t_collect s [y] else t_collect s [x, y])"
    by (cases "x = sc CHR ''0''") (simp_all add: sims_wr)
qed

lemma sims_composites [intro]:
  "sims (t_c wr time) (t_c t_collect time)" "sims (t_x wr time) (t_x t_collect time)" "sims (t_D wr time) (t_D t_collect time)"
  "sims (t_F wr time) (t_F t_collect time)" "sims (t_r wr time) (t_r t_collect time)" "sims (t_R wr time) (t_R t_collect time)"
  "sims (t_T wr time) (t_T t_collect time)"
  unfolding t_c_def t_x_def t_D_def t_F_def t_r_def t_R_def t_T_def
  by (auto intro!: sims_seq)

lemma sims_zone [intro]:
  "sims (t_z wr E time) (t_z t_collect E time)" "sims (t_Z wr pieces E time) (t_Z t_collect pieces E time)"
proof -
  show "sims (t_z wr E time) (t_z t_collect E time)"
    unfolding t_z_def
  proof (intro sims_opt)
    fix z
    show "sims (case z of None \<Rightarrow> t_seq [] | Some info \<Rightarrow>
          t_opt (if gmt_offset info < 0 then ck32 (gmt_offset info * - 1) else Some (gmt_offset info))
            (\<lambda>off. t_seq [t_text wr (if gmt_offset info < 0 then ''-'' else ''+''), t_int wr (off sdiv 3600) 10 2,
               t_int wr (off smod 3600 sdiv 60) 10 2]))
        (case z of None \<Rightarrow> t_seq [] | Some info \<Rightarrow>
          t_opt (if gmt_offset info < 0 then ck32 (gmt_offset info * - 1) else Some (gmt_offset info))
            (\<lambda>off. t_seq [t_text t_collect (if gmt_offset info < 0 then ''-'' else ''+''), t_int t_collect (off sdiv 3600) 10 2,
               t_int t_collect (off smod 3600 sdiv 60) 10 2]))"
    proof (cases z)
      case (Some info)
      then show ?thesis by (simp only: option.case) (intro sims_opt sims_seq list_all2_Cons [THEN iffD2] conjI list.rel_intros sims_text sims_int)
    qed (simp only: option.case sims_return)
  qed
  have "list_all2 sims (map (\<lambda>p s. wr s p) ps) (map (\<lambda>p s. t_collect s p) ps)" for ps
    by (simp add: list_all2_map1 list_all2_map2 list_all2_same sims_wr)
  then show "sims (t_Z wr pieces E time) (t_Z t_collect pieces E time)"
    unfolding t_Z_def by (intro sims_opt) (simp add: sims_seq sims_return split: option.split)
qed

lemma rel_if:
  "(b \<Longrightarrow> rel_option sims x y) \<Longrightarrow> (\<not> b \<Longrightarrow> rel_option sims x' y') \<Longrightarrow>
    rel_option sims (if b then x else x') (if b then y else y')"
  by simp

lemma sims_simple: "rel_option sims (t_simple wr time c) (t_simple t_collect time c)"
  unfolding t_simple_def
  by (intro rel_if option.rel_intros sims_opt sims_text sims_int sims_name sims_fields sims_e sims_composites sims_return)

lemma sims_modified: "rel_option sims (t_E wr time c) (t_E t_collect time c)" "rel_option sims (t_O c) (t_O c)"
  unfolding t_E_def t_O_def by (intro rel_if option.rel_intros sims_fields sims_return)+

lemma sims_convert:
  "sims (fst (t_convert wr pieces E time prev fmt)) (fst (t_convert t_collect pieces E time prev fmt)) \<and>
    snd (t_convert wr pieces E time prev fmt) = snd (t_convert t_collect pieces E time prev fmt)"
proof (cases fmt)
  case Nil
  then show ?thesis by (simp add: t_convert_def sims_wr)
next
  case (Cons c rest)
  show ?thesis
  proof (cases "t_simple wr time c")
    case None
    then have n: "t_simple t_collect time c = None" using sims_simple [of time c] by simp
    show ?thesis
    proof (cases rest)
      case Nil
      then show ?thesis unfolding t_convert_def Cons using None n by (auto intro: sims_wr sims_fields sims_zone sims_fail)
    next
      case (Cons d rest')
      have "rel_option sims (if c = sc CHR ''E'' then t_E wr time d else t_O d) (if c = sc CHR ''E'' then t_E t_collect time d else t_O d)"
        using sims_modified by simp
      then show ?thesis unfolding t_convert_def Cons \<open>fmt = c # rest\<close> using None n
        by (cases rule: option.rel_cases) (auto intro: sims_wr sims_fields sims_zone sims_fail)
    qed
  next
    case (Some f)
    then obtain g where "t_simple t_collect time c = Some g" "sims f g" using sims_simple [of time c] by (auto elim: option.rel_cases)
    then show ?thesis using Cons Some by (simp add: t_convert_def)
  qed
qed

end

text \<open>The loop in terms of the combinators.\<close>

definition t_rest ::
    "('c::len, 's) t_writer \<Rightarrow> (u8 list \<Rightarrow> 'c word list list) \<Rightarrow> zone_env \<Rightarrow> tm \<Rightarrow> 'c word list \<Rightarrow> 's t_step" where
  "t_rest w pieces E time rest =
     (case rest of
        [] \<Rightarrow> t_seq []
      | prev # fmt1 \<Rightarrow>
          (let (f, nxt) = t_convert w pieces E time prev fmt1 in
           t_then f (\<lambda>s. case nxt of None \<Rightarrow> None | Some fmt2 \<Rightarrow> t_loop w pieces E time fmt2 s)))"

lemma t_then_bind: "t_then f g s = do { (s', ok) \<leftarrow> f s; if \<not> ok then Some (s', False) else g s' }"
  by (cases "f s") (auto simp: t_then_def)

lemma t_rest_eq:
  "t_rest w pieces E time rest s =
     (case rest of
        [] \<Rightarrow> Some (s, True)
      | prev # fmt1 \<Rightarrow>
          (case t_convert w pieces E time prev fmt1 of (f, nxt) \<Rightarrow>
             do { (s2, ok2) \<leftarrow> f s;
                  if \<not> ok2 then Some (s2, False)
                  else case nxt of None \<Rightarrow> None | Some fmt2 \<Rightarrow> t_loop w pieces E time fmt2 s2 }))"
  by (cases rest; cases "t_convert w pieces E time (hd rest) (tl rest)") (simp_all add: t_rest_def t_then_bind)

lemma t_loop_eq:
  assumes "t_scan fmt = (n, rest)"
  shows "t_loop w pieces E time fmt = t_then (if n \<noteq> 0 then (\<lambda>s. w s (take n fmt)) else t_seq []) (t_rest w pieces E time rest)"
proof
  fix s
  show "t_loop w pieces E time fmt s = t_then (if n \<noteq> 0 then (\<lambda>s. w s (take n fmt)) else t_seq []) (t_rest w pieces E time rest) s"
    unfolding t_then_bind t_rest_eq by (subst t_loop.simps) (cases "n = 0"; simp add: assms)
qed

context text_writer
begin

lemma sims_loop: "sims (t_loop wr pieces E time fmt) (t_loop t_collect pieces E time fmt)"
proof (induction "length fmt" arbitrary: fmt rule: less_induct)
  case less
  obtain n rest where sc: "t_scan fmt = (n, rest)" by (cases "t_scan fmt")
  have "sims (t_rest wr pieces E time rest) (t_rest t_collect pieces E time rest)"
  proof (cases rest)
    case (Cons prev fmt1)
    obtain f nxt g where c: "t_convert wr pieces E time prev fmt1 = (f, nxt)" "t_convert t_collect pieces E time prev fmt1 = (g, nxt)" "sims f g"
      using sims_convert [of pieces E time prev fmt1] by (metis prod.collapse)
    have "sims (\<lambda>s. case nxt of None \<Rightarrow> None | Some fmt2 \<Rightarrow> t_loop wr pieces E time fmt2 s)
        (\<lambda>s. case nxt of None \<Rightarrow> None | Some fmt2 \<Rightarrow> t_loop t_collect pieces E time fmt2 s)"
    proof (cases nxt)
      case (Some fmt2)
      then have "length fmt2 < length fmt"
        using t_convert_length [of wr pieces E time prev fmt1 f fmt2] t_scan_length [OF sc] c(1) Cons by simp
      then show ?thesis using less [of fmt2] Some by simp
    qed (simp add: sims_def)
    then show ?thesis using sims_then [OF c(3)] Cons c(1,2) by (simp add: t_rest_def)
  qed (simp add: t_rest_def sims_return)
  then show ?case unfolding t_loop_eq [OF sc] by (intro sims_then) (simp_all add: sims_wr sims_return)
qed

end

subsection \<open>The buffer is such a writer\<close>

definition t_holds :: "'c::len word mem \<Rightarrow> nat \<Rightarrow> 'c word t_buffer \<Rightarrow> 'c word list \<Rightarrow> bool" where
  "t_holds m str s out \<longleftrightarrow> t_mem s = put m str out \<and> t_str s = str + length out \<and> t_written s = length out"

interpretation t_buffers: text_writer "t_write cap" "\<lambda>s out. mapped m str cap \<and> t_holds m str s out" cap for cap m str
proof
  fix s out bs
  assume s: "mapped m str cap \<and> t_holds m str s out" and len: "length out \<le> cap"
  have "mapped (put m str out) (str + length out) (length bs)" if "length (out @ bs) \<le> cap"
    using mapped_shift [of m str cap "length out" "length bs"] s that by auto
  then show "if length (out @ bs) \<le> cap then \<exists>s'. t_write cap s bs = Some (s', True) \<and> mapped m str cap \<and> t_holds m str s' (out @ bs)
      else t_write cap s bs = Some (s, False)"
    using s by (auto simp: t_write_def t_holds_def store_list_put put_append)
qed

lemma t_format_eq:
  assumes "t_output pieces E fmt time = Some (out, ok)" and "mapped m str cnt"
  shows "\<exists>kept. t_format pieces E m str cnt fmt time =
      Some (if ok \<and> length out < cnt then (put m str (out @ [0]), length out) else (put m str kept, 0)) \<and>
      length kept \<le> cnt \<and> (length out \<le> cnt \<longrightarrow> kept = out)"
proof -
  have "mapped m str cnt \<and> t_holds m str \<lparr>t_mem = m, t_str = str, t_written = 0\<rparr> []" using assms(2) by (simp add: t_holds_def)
  then obtain s' kept where s: "t_loop (t_write cnt) pieces E time fmt \<lparr>t_mem = m, t_str = str, t_written = 0\<rparr> = Some (s', ok \<and> length out \<le> cnt)"
      "t_holds m str s' kept" "length kept \<le> cnt" "length out \<le> cnt \<longrightarrow> kept = out"
    using t_buffers.simsE [OF t_buffers.sims_loop, of pieces E time fmt "[]" out ok m str cnt] assms(1) unfolding t_output_def by auto
  show ?thesis
  proof (cases "ok \<and> length out < cnt")
    case True
    then have k: "kept = out" using s(4) by simp
    have "put m str out (str + length out) \<noteq> None" using assms(2) True by (simp add: put_outside mapped_def)
    then have "t_format pieces E m str cnt fmt time = Some (put m str (out @ [0]), length out)"
      using True s(1,2) unfolding k by (auto simp: t_format_def t_holds_def put_snoc)
    then show ?thesis using True by (intro exI [of _ out]) simp
  next
    case False
    have "t_format pieces E m str cnt fmt time = Some (put m str kept, 0)"
    proof (cases "ok \<and> length out \<le> cnt")
      case True
      then have "kept = out" "length out = cnt" using s(4) False by auto
      then show ?thesis using True s(1,2) by (auto simp: t_format_def t_holds_def)
    next
      case n: False
      then show ?thesis using s(1,2) by (simp add: t_format_def t_holds_def)
    qed
    then show ?thesis using False s(3,4) by auto
  qed
qed

subsection \<open>Fields\<close>

definition digit_char :: "int \<Rightarrow> u8" where
  "digit_char d = word_of_int (48 + d)"

definition dec2 :: "int \<Rightarrow> u8 list" where
  "dec2 n = [digit_char (n div 10), digit_char (n mod 10)]"

definition dec4 :: "int \<Rightarrow> u8 list" where
  "dec4 n = map digit_char [n div 1000 mod 10, n div 100 mod 10, n div 10 mod 10, n mod 10]"

lemma index_digit:
  assumes "0 \<le> d" and "d < 10" shows "index T_CHARS d = Some (digit_char d)"
proof -
  have "list_all (\<lambda>i. index T_CHARS (int i) = Some (digit_char (int i))) [0..<10]" by code_simp
  moreover have "nat d \<in> set [0..<10]" using assms by auto
  ultimately have "index T_CHARS (int (nat d)) = Some (digit_char (int (nat d)))" unfolding list_all_iff by blast
  then show ?thesis using assms by simp
qed

lemma t_digits_step:
  assumes "0 \<le> v"
  shows "t_digits v 10 acc = (if v < 10 then Some (digit_char v # acc) else t_digits (v div 10) 10 (digit_char (v mod 10) # acc))"
proof -
  have e: "v smod 10 = v mod 10" "v sdiv 10 = v div 10" using assms by (simp_all add: signed_modulo_int_def signed_divide_int_def sgn_if)
  have i: "index T_CHARS (v mod 10) = Some (digit_char (v mod 10))" by (rule index_digit) simp_all
  show ?thesis
  proof (cases "v < 10")
    case True
    then have "v div 10 = 0" "v mod 10 = v" using assms by simp_all
    then show ?thesis using True e i by (subst t_digits.simps) simp
  next
    case False
    then have "v div 10 \<noteq> 0" by linarith
    then show ?thesis unfolding t_digits.simps [of v] e i using False by (simp only: Let_def if_True if_False bind.bind_lunit not_False_eq_True simp_thms) simp
  qed
qed

lemma t_int_two:
  assumes "0 \<le> v" and "v < 100" shows "t_int t_collect v 10 2 out = Some (out @ dec2 v, True)"
proof -
  have z: "digit_char 0 = sc CHR ''0''" by code_simp
  show ?thesis
  proof (cases "v < 10")
    case True
    then have "t_digits v 10 [] = Some [digit_char v]" using assms(1) by (simp add: t_digits_step [OF assms(1)])
    moreover have "v div 10 = 0" "v mod 10 = v" using assms(1) True by simp_all
    ultimately show ?thesis using z by (simp add: t_int_def t_collect_def dec2_def)
  next
    case False
    then have "0 \<le> v div 10" "v div 10 < 10" using assms by auto
    then have "t_digits v 10 [] = Some [digit_char (v div 10), digit_char (v mod 10)]"
      using False t_digits_step [OF \<open>0 \<le> v div 10\<close>] by (simp only: t_digits_step [OF assms(1)] if_True if_False)
    then show ?thesis by (simp add: t_int_def t_collect_def dec2_def)
  qed
qed

lemma t_year_digits:
  assumes "0 \<le> tm_year time + 1900" and "tm_year time + 1900 \<le> 99999" and "t_digits (tm_year time + 1900) 10 [] = Some ds"
  shows "t_year t_collect time out = Some (out @ ds, True)"
proof -
  have "ck32 (tm_year time + 1900) = Some (tm_year time + 1900)" using assms(1,2) unfolding ck32_def int32_ok_def by simp
  then show ?thesis unfolding t_year_def t_opt_def t_int_def t_collect_def by (simp only: assms(3) bind.bind_lunit) simp
qed

lemma div_tens: "(y :: int) div 10 div 10 = y div 100" "y div 100 div 10 = y div 1000" "y div 1000 div 10 = y div 10000"
  using zdiv_zmult2_eq [of 10 y 10] zdiv_zmult2_eq [of 10 y 100] zdiv_zmult2_eq [of 10 y 1000] by simp_all

lemma t_year_four:
  assumes "1000 \<le> tm_year time + 1900" and "tm_year time + 1900 \<le> 9999"
  shows "t_year t_collect time out = Some (out @ dec4 (tm_year time + 1900), True)"
proof (rule t_year_digits)
  let ?y = "tm_year time + 1900"
  have n: "\<not> ?y < 10" "\<not> ?y div 10 < 10" "\<not> ?y div 100 < 10" "0 \<le> ?y" "0 \<le> ?y div 10" "0 \<le> ?y div 100" "0 \<le> ?y div 1000" "?y div 1000 < 10"
    using assms by linarith+
  show "t_digits ?y 10 [] = Some (dec4 ?y)"
    by (simp only: t_digits_step [OF n(4)] t_digits_step [OF n(5)] t_digits_step [OF n(6)] t_digits_step [OF n(7)]
        n(1-3,8) if_True if_False div_tens dec4_def list.map mod_pos_pos_trivial [OF n(7,8)])
qed (use assms in auto)

lemma t_year_five:
  assumes "10000 \<le> tm_year time + 1900" and "tm_year time + 1900 \<le> 99999"
  shows "t_year t_collect time out = Some (out @ digit_char ((tm_year time + 1900) div 10000) # dec4 (tm_year time + 1900), True)"
proof (rule t_year_digits)
  let ?y = "tm_year time + 1900"
  have n: "\<not> ?y < 10" "\<not> ?y div 10 < 10" "\<not> ?y div 100 < 10" "\<not> ?y div 1000 < 10" "0 \<le> ?y" "0 \<le> ?y div 10" "0 \<le> ?y div 100"
    "0 \<le> ?y div 1000" "0 \<le> ?y div 10000" "?y div 10000 < 10" using assms by linarith+
  show "t_digits ?y 10 [] = Some (digit_char (?y div 10000) # dec4 ?y)"
    by (simp only: t_digits_step [OF n(5)] t_digits_step [OF n(6)] t_digits_step [OF n(7)] t_digits_step [OF n(8)] t_digits_step [OF n(9)]
        n(1-4,10) if_True if_False div_tens dec4_def list.map)
qed (use assms in auto)

lemma t_name_index: "0 \<le> i \<Longrightarrow> i < int (length names) \<Longrightarrow> t_name t_collect names i out = Some (out @ names ! nat i, True)"
  by (simp add: t_name_def t_opt_def index_def t_collect_def)

lemma t_text_collect: "t_text t_collect x out = Some (out @ scs x, True)"
  by (simp add: t_text_def t_collect_def)

subsection \<open>Formats with single conversions\<close>

lemma t_loop_conversion:
  assumes "t_simple w time c = Some f" and "c \<noteq> sc CHR ''%''"
  shows "t_loop w pieces E time (sc CHR ''%'' # c # rest) = t_then f (t_loop w pieces E time rest)"
proof -
  have "t_scan (sc CHR ''%'' # c # rest) = (0, sc CHR ''%'' # c # rest)" using assms(2) by (simp add: t_scan_def)
  then show ?thesis using assms(1) by (simp add: t_loop_eq t_rest_def t_convert_def t_then_def fun_eq_iff split: option.split)
qed

lemma t_loop_char_conversion:
  assumes "t_simple w time c = Some f" and "c \<noteq> sc CHR ''%''" and "l \<noteq> sc CHR ''%''"
  shows "t_loop w pieces E time (l # sc CHR ''%'' # c # rest) = t_then (\<lambda>s. w s [l]) (t_then f (t_loop w pieces E time rest))"
proof -
  have "t_scan (l # sc CHR ''%'' # c # rest) = (1, sc CHR ''%'' # c # rest)" using assms(2,3) by (simp add: t_scan_def)
  then show ?thesis using assms(1) by (simp add: t_loop_eq t_rest_def t_convert_def)
qed

lemma t_loop_char: "l \<noteq> sc CHR ''%'' \<Longrightarrow> t_loop w pieces E time [l] = t_then (\<lambda>s. w s [l]) (t_seq [])"
  using t_loop_eq [of "[l]" 1 "[]" w pieces E time] by (simp add: t_scan_def t_rest_def)

lemma t_then_Some: "f s = Some (s', True) \<Longrightarrow> t_then f g s = g s'"
  by (simp add: t_then_def)

text \<open>The line of \<open>asctime\<close>.\<close>

definition asctime_line :: "tm \<Rightarrow> u8 list \<Rightarrow> u8 list" where
  "asctime_line time year =
     DAY_ABBREVS ! nat (tm_wday time) @ [32] @ MONTH_ABBREVS ! nat (tm_mon time) @ [32] @ dec2 (tm_mday time) @ [32] @
     dec2 (tm_hour time) @ [58] @ dec2 (tm_min time) @ [58] @ dec2 (tm_sec time) @ [32] @ year @ [10]"

lemma asctime_output:
  assumes "valid_tm time" and "0 \<le> tm_wday time" and "tm_wday time < 7"
    and y: "\<And>out. t_year t_collect time out = Some (out @ year, True)"
  shows "t_output pieces E ASCTIME_FORMAT time = Some (asctime_line time year, True)"
proof -
  let ?c = "t_collect :: (8, u8 list) t_writer"
  have f: "ASCTIME_FORMAT = sc CHR ''%'' # sc CHR ''a'' # sc CHR '' '' # sc CHR ''%'' # sc CHR ''b'' # sc CHR '' '' # sc CHR ''%'' # sc CHR ''d'' #
      sc CHR '' '' # sc CHR ''%'' # sc CHR ''T'' # sc CHR '' '' # sc CHR ''%'' # sc CHR ''Y'' # [sc CHR 0x0A]"
    by (simp add: ASCTIME_FORMAT_def scs_def)
  have s: "t_simple ?c time (sc CHR ''a'') = Some (t_name ?c DAY_ABBREVS (tm_wday time))"
    "t_simple ?c time (sc CHR ''b'') = Some (t_name ?c MONTH_ABBREVS (tm_mon time))"
    "t_simple ?c time (sc CHR ''d'') = Some (t_int ?c (tm_mday time) 10 2)"
    "t_simple ?c time (sc CHR ''T'') = Some (t_T ?c time)" "t_simple ?c time (sc CHR ''Y'') = Some (t_year ?c time)"
    by (simp_all add: t_simple_def sc_def)
  have n: "sc c \<noteq> (sc CHR ''%'' :: u8)" if "c \<in> {CHR ''a'', CHR ''b'', CHR ''d'', CHR ''T'', CHR ''Y'', CHR '' '', CHR 0x0A}" for c
    using that by (auto simp: sc_def)
  have month: "tm_mday time < 100"
  proof -
    have "list_all (\<lambda>d. d \<le> 31) (get_days_per_month_table y)" for y
      by (simp add: get_days_per_month_table_def DAYS_IN_MONTHS_LEAP_def DAYS_IN_MONTHS_NOLEAP_def)
    moreover have "nat (tm_mon time) < length (get_days_per_month_table (tm_year time + 1900))"
      using assms(1) by (auto simp: valid_tm_def get_days_per_month_table_def DAYS_IN_MONTHS_LEAP_def DAYS_IN_MONTHS_NOLEAP_def)
    ultimately have "get_days_per_month_table (tm_year time + 1900) ! nat (tm_mon time) \<le> 31" by (auto simp: list_all_length)
    then show ?thesis using assms(1) by (simp add: valid_tm_def)
  qed
  have T: "t_T ?c time out = Some (out @ dec2 (tm_hour time) @ [58] @ dec2 (tm_min time) @ [58] @ dec2 (tm_sec time), True)" for out
    using assms(1) by (simp add: t_T_def t_then_Some t_int_two t_text_collect valid_tm_def scs_def sc_def)
  have names: "int (length (DAY_ABBREVS :: u8 list list)) = 7" "int (length (MONTH_ABBREVS :: u8 list list)) = 12"
    by (simp_all add: DAY_ABBREVS_def MONTH_ABBREVS_def)
  have "t_loop ?c pieces E time ASCTIME_FORMAT [] = Some (asctime_line time year, True)"
    unfolding f using assms n month
    by (simp add: t_loop_conversion [OF s(1)] t_loop_char_conversion [OF s(2)] t_loop_char_conversion [OF s(3)]
        t_loop_char_conversion [OF s(4)] t_loop_char_conversion [OF s(5)] t_loop_char t_then_Some t_name_index names
        t_int_two T t_collect_def [of _ "[_]"] valid_tm_def) (simp add: asctime_line_def sc_def)
  then show ?thesis by (simp add: t_output_def)
qed

lemma asctime_line_length:
  assumes "valid_tm time" and "0 \<le> tm_wday time" and "tm_wday time < 7"
  shows "length (asctime_line time year) = 21 + length year"
proof -
  have "list_all (\<lambda>n. length n = 3) (DAY_ABBREVS :: u8 list list)" "list_all (\<lambda>n. length n = 3) (MONTH_ABBREVS :: u8 list list)" by code_simp+
  moreover have "length (DAY_ABBREVS :: u8 list list) = 7" "length (MONTH_ABBREVS :: u8 list list) = 12" by code_simp+
  moreover have "nat (tm_wday time) < 7" "nat (tm_mon time) < 12" using assms by (auto simp: valid_tm_def)
  ultimately show ?thesis by (simp add: asctime_line_def dec2_def list_all_length)
qed

subsection \<open>The text of a format\<close>

text \<open>
  What a format prints, said without reference to the loop: decimal numbers padded to a width, names and
  literal characters.  For \<^verbatim>\<open>n t Y y C b h B m j d a A w H M S R T\<close> it is the text of ISO C in the C locale.
  The others differ from it: \<^verbatim>\<open>e\<close> and \<^verbatim>\<open>I\<close> are not padded, \<^verbatim>\<open>u\<close> numbers Sunday 1, \<^verbatim>\<open>D\<close>, \<^verbatim>\<open>F\<close>, \<^verbatim>\<open>c\<close>, \<^verbatim>\<open>x\<close> and \<^verbatim>\<open>r\<close>
  have other fields, \<^verbatim>\<open>G\<close>, \<^verbatim>\<open>g\<close> and most modified letters print nothing, the letter of \<^verbatim>\<open>p\<close>, \<^verbatim>\<open>z\<close> and \<^verbatim>\<open>Z\<close> is
  printed as well, and every other letter stands for itself behind its percent sign.
\<close>

fun dec_digits :: "nat \<Rightarrow> 'c::len word list" where
  "dec_digits n = (if n < 10 then [of_nat (48 + n)] else dec_digits (n div 10) @ [of_nat (48 + n mod 10)])"

declare dec_digits.simps [simp del]

definition dec_pad :: "nat \<Rightarrow> int \<Rightarrow> 'c::len word list" where
  "dec_pad k v = (let ds = dec_digits (nat v) in replicate (k - length ds) 48 @ ds)"

definition clock_hour :: "tm \<Rightarrow> int" where
  "clock_hour t = (if tm_hour t mod 12 = 0 then 12 else tm_hour t mod 12)"

definition zone_text :: "TzData option \<Rightarrow> 'c::len word list" where
  "zone_text z =
     (case z of
        None \<Rightarrow> []
      | Some i \<Rightarrow> scs (if gmt_offset i < 0 then ''-'' else ''+'') @ dec_pad 2 (\<bar>gmt_offset i\<bar> div 3600) @
          dec_pad 2 (\<bar>gmt_offset i\<bar> mod 3600 div 60))"

definition conv_text :: "(u8 list \<Rightarrow> 'c::len word list list) \<Rightarrow> TzData option \<Rightarrow> tm \<Rightarrow> char \<Rightarrow> 'c word list" where
  "conv_text pieces z t c =
     (let year = tm_year t + 1900; day = DAY_ABBREVS ! nat (tm_wday t); month = MONTH_ABBREVS ! nat (tm_mon t);
          hhmm = dec_pad 2 (tm_hour t) @ scs '':'' @ dec_pad 2 (tm_min t);
          clock = hhmm @ scs '':'' @ dec_pad 2 (tm_sec t) in
      if c = CHR ''n'' then scs [CHR 0x0A]
      else if c = CHR ''t'' then scs [CHR 0x09]
      else if c = CHR ''Y'' then dec_pad 0 year
      else if c = CHR ''y'' then dec_pad 2 (year mod 100)
      else if c = CHR ''C'' then dec_pad 2 (year div 100 mod 100)
      else if c = CHR ''G'' \<or> c = CHR ''g'' then []
      else if c = CHR ''b'' \<or> c = CHR ''h'' then month
      else if c = CHR ''B'' then MONTHS ! nat (tm_mon t)
      else if c = CHR ''m'' then dec_pad 2 (tm_mon t + 1)
      else if c = CHR ''j'' then dec_pad 3 (tm_yday t + 1)
      else if c = CHR ''d'' then dec_pad 2 (tm_mday t)
      else if c = CHR ''e'' then dec_pad 0 (tm_mday t)
      else if c = CHR ''a'' then day
      else if c = CHR ''A'' then DAYS ! nat (tm_wday t)
      else if c = CHR ''w'' then dec_pad 0 (tm_wday t)
      else if c = CHR ''u'' then dec_pad 0 (tm_wday t + 1)
      else if c = CHR ''H'' then dec_pad 2 (tm_hour t)
      else if c = CHR ''I'' then dec_pad 0 (clock_hour t)
      else if c = CHR ''M'' then dec_pad 2 (tm_min t)
      else if c = CHR ''S'' then dec_pad 2 (tm_sec t)
      else if c = CHR ''c'' then day @ scs '' '' @ month @ scs '' '' @ dec_pad 0 (tm_mday t) @ scs '' '' @ clock @ scs '' '' @ dec_pad 0 year
      else if c = CHR ''x'' then dec_pad 2 (tm_mday t) @ scs ''.'' @ dec_pad 0 (tm_mon t + 1) @ scs ''.'' @ dec_pad 0 year
      else if c = CHR ''D'' then dec_pad 0 (tm_mon t + 1) @ scs ''/'' @ dec_pad 2 (tm_mday t) @ scs ''/'' @ dec_pad 0 year
      else if c = CHR ''F'' then dec_pad 0 year @ scs ''-'' @ dec_pad 0 (tm_mon t + 1) @ scs ''-'' @ dec_pad 2 (tm_mday t)
      else if c = CHR ''r'' then dec_pad 0 (clock_hour t) @ scs '':'' @ dec_pad 2 (tm_min t)
      else if c = CHR ''R'' then hhmm
      else if c = CHR ''T'' then clock
      else if c = CHR ''p'' then scs (if tm_hour t < 12 then ''AMp'' else ''PMp'')
      else if c = CHR ''z'' then zone_text z @ scs ''z''
      else if c = CHR ''Z'' then (case z of None \<Rightarrow> [] | Some i \<Rightarrow> concat (pieces (zone i))) @ scs ''Z''
      else scs [CHR ''%'', c])"

text \<open>A format is a sequence of literal characters and conversions, plain or with a modifier.\<close>

datatype 'w t_item = Lit 'w | Conv char | ConvE char | ConvO char

fun item_format :: "'c::len word t_item \<Rightarrow> 'c word list" where
  "item_format (Lit l) = [l]"
| "item_format (Conv c) = scs [CHR ''%'', c]"
| "item_format (ConvE c) = scs [CHR ''%'', CHR ''E'', c]"
| "item_format (ConvO c) = scs [CHR ''%'', CHR ''O'', c]"

fun item_text :: "(u8 list \<Rightarrow> 'c::len word list list) \<Rightarrow> TzData option \<Rightarrow> tm \<Rightarrow> 'c word t_item \<Rightarrow> 'c word list" where
  "item_text pieces z t (Lit l) = [l]"
| "item_text pieces z t (Conv c) = conv_text pieces z t c"
| "item_text pieces z t (ConvE c) =
     (if c = CHR ''Y'' then dec_pad 0 (tm_year t + 1900)
      else if c = CHR ''y'' then dec_pad 2 ((tm_year t + 1900) mod 1000) else [])"
| "item_text pieces z t (ConvO c) = []"

definition zone_known :: "zone_env \<Rightarrow> TzData option \<Rightarrow> tm \<Rightarrow> bool" where
  "zone_known E z t \<longleftrightarrow> zone_at E t = Some z \<and> pred_option (\<lambda>i. \<bar>gmt_offset i\<bar> < 360000) z"

fun item_ok :: "zone_env \<Rightarrow> TzData option \<Rightarrow> tm \<Rightarrow> 'c::len word t_item \<Rightarrow> bool" where
  "item_ok E z t (Lit l) \<longleftrightarrow> l \<noteq> sc CHR ''%''"
| "item_ok E z t (Conv c) \<longleftrightarrow> c \<notin> set ''%EO'' \<and> (c \<in> set ''zZ'' \<longrightarrow> zone_known E z t)"
| "item_ok E z t (ConvE c) \<longleftrightarrow> c \<in> set ''YyCcX''"
| "item_ok E z t (ConvO c) \<longleftrightarrow> c \<in> set ''ybBmdewuHIMS''"

definition printable_tm :: "tm \<Rightarrow> bool" where
  "printable_tm t \<longleftrightarrow> valid_tm t \<and> tm_year t + 1900 \<le> INT_MAX \<and> 0 \<le> tm_wday t \<and> tm_wday t < 7 \<and> 0 \<le> tm_yday t \<and> tm_yday t < 366"

lemma index_T_CHARS:
  assumes "0 \<le> d" and "d < 10" shows "index T_CHARS d = Some (of_nat (48 + nat d) :: 'c::len word)"
proof -
  have "\<forall>n < (10::nat). index T_CHARS (int n) = Some (of_nat (48 + n) :: 'c word)"
    by (simp add: T_CHARS_def scs_def sc_def index_def numeral_eq_Suc All_less_Suc)
  moreover have "nat d < 10" using assms by simp
  ultimately have "index T_CHARS (int (nat d)) = Some (of_nat (48 + nat d) :: 'c word)" by blast
  then show ?thesis using assms by simp
qed

lemma t_digits_dec:
  fixes acc :: "'c::len word list"
  shows "0 \<le> v \<Longrightarrow> t_digits v 10 acc = Some (dec_digits (nat v) @ acc)"
proof (induction "nat v" arbitrary: v acc rule: less_induct)
  case less
  have e: "v smod 10 = v mod 10" "v sdiv 10 = v div 10"
    using less.prems by (simp_all add: signed_modulo_int_def signed_divide_int_def sgn_if)
  have i: "index T_CHARS (v mod 10) = Some (of_nat (48 + nat v mod 10) :: 'c word)"
    using index_T_CHARS [of "v mod 10"] less.prems by (simp add: nat_mod_distrib)
  show ?case
  proof (cases "v < 10")
    case True
    then have "v div 10 = 0" "nat v < 10" using less.prems by simp_all
    then show ?thesis using True less.prems i by (subst t_digits.simps) (simp add: e dec_digits.simps [of "nat v"])
  next
    case False
    then have "\<not> nat v < 10" by linarith
    from False have "v div 10 \<noteq> 0" "nat (v div 10) < nat v" "0 \<le> v div 10" by linarith+
    moreover have "dec_digits (nat v) = dec_digits (nat (v div 10)) @ [of_nat (48 + nat v mod 10) :: 'c word]"
      using False \<open>\<not> nat v < 10\<close> by (subst dec_digits.simps) (simp add: nat_div_distrib)
    ultimately show ?thesis using less.hyps [of "v div 10"] by (subst t_digits.simps) (simp add: e i Let_def)
  qed
qed

lemma t_int_dec: "0 \<le> v \<Longrightarrow> t_int t_collect v 10 k out = Some (out @ dec_pad k v, True)"
  by (simp add: t_int_def t_digits_dec t_collect_def dec_pad_def Let_def sc_def)

lemma dec_pad_two:
  assumes "0 \<le> v" shows "dec_pad 2 (v mod 100) = [of_nat (48 + nat (v div 10 mod 10)), of_nat (48 + nat (v mod 10)) :: 'c::len word]"
proof -
  define a b where "a = nat (v div 10 mod 10)" and "b = nat (v mod 10)"
  have "v mod (10 * 10) = 10 * (v div 10 mod 10) + v mod 10" by (rule zmod_zmult2_eq) simp
  then have n: "nat (v mod 100) = 10 * a + b" "a < 10" "b < 10" by (auto simp: a_def b_def nat_add_distrib nat_mult_distrib)
  have "dec_digits (10 * a + b) = (if a = 0 then [of_nat (48 + b)] else [of_nat (48 + a), of_nat (48 + b) :: 'c word])"
    using n(2,3) dec_digits.simps [of a] by (subst dec_digits.simps) auto
  then show ?thesis by (simp add: dec_pad_def n(1) a_def [symmetric] b_def [symmetric])
qed

text \<open>The steps on a list, for the fields of a printable time.\<close>

lemma t_two_dec:
  assumes "0 \<le> v" shows "t_two t_collect (v sdiv 10 smod 10) (v smod 10) out = Some (out @ dec_pad 2 (v mod 100), True)"
proof -
  have e: "v sdiv 10 smod 10 = v div 10 mod 10" "v smod 10 = v mod 10"
    using assms by (simp_all add: signed_modulo_int_def signed_divide_int_def sgn_if pos_imp_zdiv_nonneg_iff)
  show ?thesis unfolding e dec_pad_two [OF assms]
    by (simp add: t_two_def t_opt_def index_T_CHARS t_collect_def)
qed

lemma printableD:
  assumes "printable_tm t"
  shows "0 \<le> tm_sec t" "0 \<le> tm_min t" "0 \<le> tm_hour t" "1 \<le> tm_mday t" "tm_mday t < 100" "0 \<le> tm_mon t" "tm_mon t < 12"
    "70 \<le> tm_year t" "0 \<le> tm_wday t" "tm_wday t < 7" "0 \<le> tm_yday t"
    "ck32 (tm_year t + 1900) = Some (tm_year t + 1900)" "ck32 (tm_mon t + 1) = Some (tm_mon t + 1)"
    "ck32 (tm_yday t + 1) = Some (tm_yday t + 1)" "ck32 (tm_wday t + 1) = Some (tm_wday t + 1)"
proof -
  have t: "valid_tm t" "tm_year t + 1900 \<le> INT_MAX" "0 \<le> tm_wday t" "tm_wday t < 7" "0 \<le> tm_yday t" "tm_yday t < 366"
    using assms by (simp_all add: printable_tm_def)
  then have "get_days_per_month_table (tm_year t + 1900) ! nat (tm_mon t) \<le> 31"
    by (intro month_table_int(2)) (auto simp: valid_tm_def)
  then show "tm_mday t < 100" using t(1) by (simp add: valid_tm_def)
  show "0 \<le> tm_sec t" "0 \<le> tm_min t" "0 \<le> tm_hour t" "1 \<le> tm_mday t" "0 \<le> tm_mon t" "tm_mon t < 12"
    "70 \<le> tm_year t" "0 \<le> tm_wday t" "tm_wday t < 7" "0 \<le> tm_yday t" using t by (simp_all add: valid_tm_def)
  then show "ck32 (tm_year t + 1900) = Some (tm_year t + 1900)" "ck32 (tm_mon t + 1) = Some (tm_mon t + 1)"
    "ck32 (tm_yday t + 1) = Some (tm_yday t + 1)" "ck32 (tm_wday t + 1) = Some (tm_wday t + 1)"
    using t by (simp_all add: ck32_def int32_ok_def)
qed

lemma name_lengths:
  "length MONTH_ABBREVS = 12" "length MONTHS = 12" "length DAY_ABBREVS = 7" "length DAYS = 7"
  by (simp_all add: MONTH_ABBREVS_def MONTHS_def DAY_ABBREVS_def DAYS_def)

lemma field_steps:
  assumes t: "printable_tm t"
  shows "t_year t_collect t out = Some (out @ dec_pad 0 (tm_year t + 1900), True)"
    "t_month t_collect t k out = Some (out @ dec_pad k (tm_mon t + 1), True)"
    "t_int t_collect (tm_sec t) 10 k out = Some (out @ dec_pad k (tm_sec t), True)"
    "t_int t_collect (tm_min t) 10 k out = Some (out @ dec_pad k (tm_min t), True)"
    "t_int t_collect (tm_hour t) 10 k out = Some (out @ dec_pad k (tm_hour t), True)"
    "t_int t_collect (tm_mday t) 10 k out = Some (out @ dec_pad k (tm_mday t), True)"
    "t_int t_collect (tm_wday t) 10 k out = Some (out @ dec_pad k (tm_wday t), True)"
    "t_name t_collect MONTH_ABBREVS (tm_mon t) out = Some (out @ MONTH_ABBREVS ! nat (tm_mon t), True)"
    "t_name t_collect MONTHS (tm_mon t) out = Some (out @ MONTHS ! nat (tm_mon t), True)"
    "t_name t_collect DAY_ABBREVS (tm_wday t) out = Some (out @ DAY_ABBREVS ! nat (tm_wday t), True)"
    "t_name t_collect DAYS (tm_wday t) out = Some (out @ DAYS ! nat (tm_wday t), True)"
    "t_opt (ck32 (tm_yday t + 1)) (\<lambda>d. t_int t_collect d 10 k) out = Some (out @ dec_pad k (tm_yday t + 1), True)"
    "t_opt (ck32 (tm_wday t + 1)) (\<lambda>d. t_int t_collect d 10 k) out = Some (out @ dec_pad k (tm_wday t + 1), True)"
  using printableD [OF t]
  by (simp_all add: t_year_def t_month_def t_opt_def t_int_dec t_name_index name_lengths ck32_def)

lemma t_hour12_text:
  assumes "printable_tm t" shows "t_hour12 t_collect t out = Some (out @ dec_pad 0 (clock_hour t), True)"
proof -
  have "tm_hour t smod 12 = tm_hour t mod 12" using printableD(3) [OF assms] by (simp add: signed_modulo_int_def signed_divide_int_def sgn_if)
  then show ?thesis by (simp add: t_hour12_def Let_def clock_hour_def t_int_dec)
qed

lemma t_Ey_text:
  assumes "printable_tm t" shows "t_Ey t_collect t out = Some (out @ dec_pad 2 ((tm_year t + 1900) mod 1000), True)"
proof -
  have "(tm_year t + 1900) - (tm_year t + 1900) sdiv 1000 * 1000 = (tm_year t + 1900) mod 1000"
    using printableD(8) [OF assms] by (simp add: signed_divide_int_def sgn_if minus_div_mult_eq_mod)
  then show ?thesis using printableD(12) [OF assms] by (simp add: ck32_def t_Ey_def t_opt_def t_int_dec)
qed

lemma t_y_text:
  assumes "printable_tm t" shows "t_y t_collect t out = Some (out @ dec_pad 2 ((tm_year t + 1900) mod 100), True)"
  using t_two_dec [of "tm_year t + 1900" out] printableD(8,12) [OF assms] by (simp add: t_y_def t_opt_def ck32_def)

lemma t_C_text:
  assumes "printable_tm t" shows "t_C t_collect t out = Some (out @ dec_pad 2 ((tm_year t + 1900) div 100 mod 100), True)"
proof -
  let ?y = "tm_year t + 1900"
  have y: "0 \<le> ?y" "0 \<le> ?y div 10" "0 \<le> ?y div 100" using printableD(8) [OF assms] by (simp_all add: pos_imp_zdiv_nonneg_iff)
  have "?y sdiv 10 sdiv 10 = ?y div 100"
    using y zdiv_zmult2_eq [of 10 ?y 10] by (simp add: signed_divide_int_def sgn_if)
  then show ?thesis using t_two_dec [OF y(3), of out] printableD(12) [OF assms] by (simp add: t_C_def t_opt_def ck32_def)
qed

text \<open>Characters of at least eight bits are told apart.\<close>

lemma small_word_eq:
  assumes "8 \<le> LENGTH('c::len)" and "a < 256" and "b < 256" shows "(of_nat a :: 'c word) = of_nat b \<longleftrightarrow> a = b"
proof -
  have "(2 :: nat) ^ 8 \<le> 2 ^ LENGTH('c)" using assms(1) by (intro power_increasing) auto
  then have "a < 2 ^ LENGTH('c)" "b < 2 ^ LENGTH('c)" using assms(2,3) by simp_all
  then show ?thesis by (metis unat_of_nat mod_less)
qed

lemma sc_inj: "8 \<le> LENGTH('c::len) \<Longrightarrow> (sc a :: 'c word) = sc b \<longleftrightarrow> a = b"
proof -
  assume l: "8 \<le> LENGTH('c)"
  have "sc c = (of_nat (of_char c) :: 'c word)" for c unfolding sc_def by (rule of_nat_of_char [symmetric])
  moreover have "(of_char c :: nat) < 256" for c by simp
  ultimately show "(sc a :: 'c word) = sc b \<longleftrightarrow> a = b" using small_word_eq [OF l] by (metis of_char_eq_iff)
qed

lemma dec_digits_two:
  assumes "n < 100" shows "dec_digits n = (if n < 10 then [of_nat (48 + n)] else [of_nat (48 + n div 10), of_nat (48 + n mod 10) :: 'c::len word])"
proof -
  have "n div 10 < 10" using assms by auto
  have "dec_digits (n div 10) = [of_nat (48 + n div 10) :: 'c word]" using \<open>n div 10 < 10\<close> by (subst dec_digits.simps) simp
  then show ?thesis by (subst dec_digits.simps) simp
qed

lemma t_e_text:
  fixes out :: "'c::len word list"
  assumes "printable_tm t" and "8 \<le> LENGTH('c)" shows "t_e t_collect t out = Some (out @ dec_pad 0 (tm_mday t), True)"
proof -
  define v where "v = tm_mday t"
  have d: "1 \<le> v" "v < 100" using printableD(4,5) [OF assms(1)] by (simp_all add: v_def)
  have e: "v sdiv 10 smod 10 = v div 10" "v smod 10 = v mod 10"
    using d by (simp_all add: signed_modulo_int_def signed_divide_int_def sgn_if pos_imp_zdiv_nonneg_iff)
  have q: "0 \<le> v div 10" "v div 10 < 10" using d by auto
  have i: "index T_CHARS (v div 10) = Some (of_nat (48 + nat (v div 10)) :: 'c word)"
    "index T_CHARS (v mod 10) = Some (of_nat (48 + nat (v mod 10)) :: 'c word)"
    using index_T_CHARS [OF q] index_T_CHARS [of "v mod 10"] by simp_all
  have z: "(of_nat (48 + nat (v div 10)) = (sc CHR ''0'' :: 'c word)) = (v < 10)"
    using small_word_eq [OF assms(2), of "48 + nat (v div 10)" 48] q d by (simp add: sc_def) linarith
  have "dec_pad 0 v = (if v < 10 then [of_nat (48 + nat (v mod 10))] else [of_nat (48 + nat (v div 10)), of_nat (48 + nat (v mod 10)) :: 'c word])"
    using d by (simp add: dec_pad_def dec_digits_two nat_div_distrib nat_mod_distrib del: of_nat_add) linarith
  then show ?thesis unfolding t_e_def v_def [symmetric] e t_opt_def i by (simp add: z t_collect_def del: of_nat_add)
qed

text \<open>The conversions of one letter.\<close>

lemma t_simple_text:
  fixes out :: "'c::len word list"
  assumes "printable_tm t" and "8 \<le> LENGTH('c)" and "t_simple t_collect t (sc c) = Some f" and "c \<notin> set ''%EOpzZ''"
  shows "f out = Some (out @ conv_text pieces z t c, True)"
proof -
  note steps = field_steps [OF assms(1)] t_hour12_text [OF assms(1)] t_y_text [OF assms(1)] t_C_text [OF assms(1)] t_e_text [OF assms(1,2)]
    t_text_collect t_c_def t_x_def t_D_def t_F_def t_r_def t_R_def t_T_def
  show ?thesis using assms(3,4) unfolding t_simple_def sc_inj [OF assms(2)]
    by (simp only: option.inject split: if_split_asm) (hypsubst | (simp add: conv_text_def Let_def steps t_then_def; fail) | elim disjE)+
qed

lemma t_simple_none:
  assumes "8 \<le> LENGTH('c::len)" and "t_simple (t_collect :: ('c, _) t_writer) t (sc c) = None" and "c \<notin> set ''%EOpzZ''"
  shows "conv_text pieces z t c = (scs [CHR ''%'', c] :: 'c word list)"
  using assms(2,3) unfolding t_simple_def sc_inj [OF assms(1)]
  by (simp only: option.distinct split: if_split_asm) (simp add: conv_text_def Let_def)

lemma t_p_text: "t_p t_collect t out = Some (out @ scs (if tm_hour t < 12 then ''AM'' else ''PM''), True)"
  by (simp add: t_p_def t_text_collect)

lemma t_z_text:
  assumes "zone_known E z t" shows "t_z t_collect E t out = Some (out @ zone_text z, True)"
proof (cases z)
  case (Some i)
  have i: "zone_at E t = Some (Some i)" "\<bar>gmt_offset i\<bar> < 360000" using assms Some by (simp_all add: zone_known_def)
  define off where "off = \<bar>gmt_offset i\<bar>"
  have "(if gmt_offset i < 0 then ck32 (gmt_offset i * - 1) else Some (gmt_offset i)) = Some off"
    using i(2) by (auto simp: ck32_def int32_ok_def off_def)
  moreover have "off sdiv 3600 = off div 3600" "off smod 3600 sdiv 60 = off mod 3600 div 60" "0 \<le> off"
    by (simp_all add: off_def signed_divide_int_def signed_modulo_int_def sgn_if)
  ultimately show ?thesis
    by (simp add: t_z_def i(1) Some zone_text_def off_def [symmetric] t_opt_def t_then_def t_text_collect t_int_dec pos_imp_zdiv_nonneg_iff)
qed (use assms in \<open>simp add: t_z_def zone_known_def t_opt_def zone_text_def\<close>)

lemma t_seq_writes: "t_seq (map (\<lambda>p s. t_collect s p) ps) out = Some (out @ concat ps, True)"
  by (induction ps arbitrary: out) (simp_all add: t_then_def t_collect_def)

lemma t_Z_text:
  assumes "zone_known E z t"
  shows "t_Z t_collect pieces E t out = Some (out @ (case z of None \<Rightarrow> [] | Some i \<Rightarrow> concat (pieces (zone i))), True)"
  using assms by (cases z) (simp_all add: t_Z_def zone_known_def t_opt_def t_seq_writes)

text \<open>The loop takes literal characters one by one, and conversions whole.\<close>

lemma t_literal_Suc: "t_literal fmt (n + k) = (case t_literal fmt n of (m, rest) \<Rightarrow> (m + k, rest))"
  by (induction fmt n arbitrary: k rule: t_literal.induct) (auto split: prod.splits)

lemma t_percents_Suc: "t_percents fmt (n + k) = (case t_percents fmt n of (m, rest) \<Rightarrow> (m + k, rest))"
  by (induction fmt n rule: t_percents.induct) auto

lemma t_scan_Lit: "l \<noteq> sc CHR ''%'' \<Longrightarrow> t_scan (l # fmt) = (case t_scan fmt of (n, rest) \<Rightarrow> (Suc n, rest))"
proof -
  assume l: "l \<noteq> sc CHR ''%''"
  obtain n rest where n: "t_literal fmt 0 = (n, rest)" by (cases "t_literal fmt 0")
  show "t_scan (l # fmt) = (case t_scan fmt of (n, rest) \<Rightarrow> (Suc n, rest))"
    using l n t_literal_Suc [of fmt 0 1] t_percents_Suc [of rest n 1] by (simp add: t_scan_def)
qed

lemma t_loop_Lit:
  assumes "l \<noteq> sc CHR ''%''" shows "t_loop t_collect pieces E t (l # fmt) out = t_loop t_collect pieces E t fmt (out @ [l])"
proof -
  obtain n rest where n: "t_scan fmt = (n, rest)" by (cases "t_scan fmt")
  then have s: "t_scan (l # fmt) = (Suc n, rest)" using t_scan_Lit [OF assms] by simp
  show ?thesis unfolding t_loop_eq [OF n] t_loop_eq [OF s] by (cases n) (simp_all add: t_then_def t_collect_def)
qed

lemma t_loop_percent:
  assumes "c \<noteq> sc CHR ''%''"
  shows "t_loop t_collect pieces E t (sc CHR ''%'' # c # fmt) out =
    (case t_convert t_collect pieces E t (sc CHR ''%'') (c # fmt) of (f, nxt) \<Rightarrow>
       t_then f (\<lambda>s. case nxt of None \<Rightarrow> None | Some fmt' \<Rightarrow> t_loop t_collect pieces E t fmt' s) out)"
proof -
  have "t_scan (sc CHR ''%'' # c # fmt) = (0, sc CHR ''%'' # c # fmt)" using assms by (simp add: t_scan_def)
  then show ?thesis using t_loop_eq [of "sc CHR ''%'' # c # fmt" 0 "sc CHR ''%'' # c # fmt" t_collect pieces E t]
    by (simp add: t_rest_def t_then_def split: prod.split)
qed

lemma t_simple_special:
  assumes "8 \<le> LENGTH('c::len)" and "c \<in> set ''pzZEO''"
  shows "t_simple (w :: ('c, 's) t_writer) t (sc c) = None"
proof -
  consider "c = CHR ''p''" | "c = CHR ''z''" | "c = CHR ''Z''" | "c = CHR ''E''" | "c = CHR ''O''" using assms(2) by auto
  then show ?thesis by cases (simp_all add: t_simple_def sc_inj [OF assms(1)])
qed

lemma t_loop_Conv:
  fixes fmt :: "'c::len word list"
  assumes "printable_tm t" and len: "8 \<le> LENGTH('c)" and c: "c \<notin> set ''%EO''" and z: "c \<in> set ''zZ'' \<Longrightarrow> zone_known E z t"
  shows "t_loop t_collect pieces E t (sc CHR ''%'' # sc c # fmt) out = t_loop t_collect pieces E t fmt (out @ conv_text pieces z t c)"
proof -
  note inj = sc_inj [OF len]
  have ne: "sc c \<noteq> (sc CHR ''%'' :: 'c word)" using c by (simp add: inj)
  note loop = t_loop_percent [OF ne, of pieces E t fmt out]
  show ?thesis
  proof (cases "c \<in> set ''pzZ''")
    case True
    then have "t_simple (t_collect :: ('c, 'c word list) t_writer) t (sc c) = None" by (intro t_simple_special [OF len]) auto
    then have conv: "t_convert t_collect pieces E t (sc CHR ''%'') (sc c # fmt) =
        (if c = CHR ''p'' then t_p t_collect t else if c = CHR ''z'' then t_z t_collect E t else t_Z t_collect pieces E t, Some (sc c # fmt))"
      using True by (auto simp: t_convert_def inj)
    consider "c = CHR ''p''" | "c = CHR ''z''" "zone_known E z t" | "c = CHR ''Z''" "zone_known E z t" using True z by auto
    then show ?thesis
    proof cases
      case 1
      then show ?thesis unfolding loop conv by (simp add: t_then_def t_p_text t_loop_Lit [OF ne [unfolded 1]] conv_text_def Let_def scs_def)
    next
      case 2
      then show ?thesis unfolding loop conv by (simp add: t_then_def t_z_text t_loop_Lit [OF ne [unfolded 2(1)]] conv_text_def Let_def scs_def)
    next
      case 3
      then show ?thesis unfolding loop conv by (simp add: t_then_def t_Z_text t_loop_Lit [OF ne [unfolded 3(1)]] conv_text_def Let_def scs_def)
    qed
  next
    case False
    then have c': "c \<notin> set ''%EOpzZ''" using c by simp
    show ?thesis
    proof (cases "t_simple t_collect t (sc c :: 'c word)")
      case None
      then have "t_convert t_collect pieces E t (sc CHR ''%'') (sc c # fmt) = (\<lambda>s. t_collect s [sc CHR ''%'', sc c], Some fmt)"
        using c' by (simp add: t_convert_def inj)
      then show ?thesis unfolding loop using t_simple_none [OF len None c', of pieces z] by (simp add: t_then_def t_collect_def scs_def)
    next
      case (Some f)
      then have "t_convert t_collect pieces E t (sc CHR ''%'') (sc c # fmt) = (f, Some fmt)" by (simp add: t_convert_def)
      then show ?thesis unfolding loop using t_simple_text [OF assms(1) len Some c', of out pieces z] by (simp add: t_then_def)
    qed
  qed
qed

definition modified :: "char \<Rightarrow> char \<Rightarrow> bool" where
  "modified x c \<longleftrightarrow> (x = CHR ''E'' \<and> c \<in> set ''YyCcX'') \<or> (x = CHR ''O'' \<and> c \<in> set ''ybBmdewuHIMS'')"

lemma t_loop_modified:
  fixes fmt :: "'c::len word list"
  assumes "printable_tm t" and len: "8 \<le> LENGTH('c)" and x: "x \<in> set ''EO''"
  shows "t_loop t_collect pieces E t (sc CHR ''%'' # sc x # sc c # fmt) out =
    (if modified x c then t_loop t_collect pieces E t fmt (out @ item_text pieces z t (if x = CHR ''E'' then ConvE c else ConvO c))
     else Some (out, False))"
proof -
  note inj = sc_inj [OF len]
  have ne: "sc x \<noteq> (sc CHR ''%'' :: 'c word)" using x by (auto simp: inj)
  have s: "t_simple (t_collect :: ('c, 'c word list) t_writer) t (sc x) = None" using x by (intro t_simple_special [OF len]) auto
  have sets: "sc d \<in> set (scs cs :: 'c word list) \<longleftrightarrow> d \<in> set cs" for d cs by (auto simp: scs_def inj)
  show ?thesis
  proof (cases "x = CHR ''E''")
    case True
    have "t_convert t_collect pieces E t (sc CHR ''%'') (sc x # sc c # fmt) =
        (case t_E t_collect t (sc c) of Some f \<Rightarrow> (f, Some fmt) | None \<Rightarrow> (t_fail, Some (sc c # fmt)))"
      using s True by (simp add: t_convert_def inj split: option.split)
    moreover have "t_E t_collect t (sc c :: 'c word) = (if c = CHR ''Y'' then Some (t_year t_collect t) else if c = CHR ''y'' then Some (t_Ey t_collect t)
        else if c \<in> set ''CcX'' then Some (t_seq []) else None)" by (simp only: t_E_def inj sets)
    moreover have "modified x c \<longleftrightarrow> c = CHR ''Y'' \<or> c = CHR ''y'' \<or> c \<in> set ''CcX''" using True by (auto simp: modified_def)
    ultimately show ?thesis unfolding t_loop_percent [OF ne]
      using field_steps(1) [OF assms(1), of out] t_Ey_text [OF assms(1), of out] True
      by (cases "c = CHR ''Y''"; cases "c = CHR ''y''"; cases "c \<in> set ''CcX''") (simp_all add: t_then_def t_fail_def del: set_simps)
  next
    case False
    then have "x = CHR ''O''" using x by simp
    have "t_convert t_collect pieces E t (sc CHR ''%'') (sc x # sc c # fmt) =
        (case (t_O (sc c :: 'c word) :: 'c word list t_step option) of Some f \<Rightarrow> (f, Some fmt) | None \<Rightarrow> (t_fail, Some (sc c # fmt)))"
      using s \<open>x = CHR ''O''\<close> by (simp add: t_convert_def inj split: option.split)
    moreover have "(t_O (sc c :: 'c word) :: 'c word list t_step option) = (if modified x c then Some (t_seq []) else None)"
      using \<open>x = CHR ''O''\<close> by (simp only: t_O_def sets modified_def) simp
    ultimately show ?thesis unfolding t_loop_percent [OF ne]
      using \<open>x = CHR ''O''\<close> by (cases "modified x c") (simp_all add: t_then_def t_fail_def)
  qed
qed

lemma t_loop_items:
  fixes items :: "'c::len word t_item list"
  assumes "printable_tm t" and "8 \<le> LENGTH('c)" and "list_all (item_ok E z t) items"
  shows "t_loop t_collect pieces E t (concat (map item_format items) @ fmt) out =
    t_loop t_collect pieces E t fmt (out @ concat (map (item_text pieces z t) items))"
  using assms(3)
proof (induction items arbitrary: out)
  case (Cons it items)
  have "t_loop t_collect pieces E t (item_format it @ fmt') out = t_loop t_collect pieces E t fmt' (out @ item_text pieces z t it)" for fmt' out
  proof (cases it)
    case (Lit l)
    then show ?thesis using Cons.prems by (simp add: t_loop_Lit)
  next
    case (Conv c)
    then have "c \<notin> set ''%EO''" "c \<in> set ''zZ'' \<Longrightarrow> zone_known E z t" using Cons.prems by auto
    from t_loop_Conv [OF assms(1,2) this] show ?thesis unfolding Conv by (simp add: scs_def)
  next
    case (ConvE c)
    then have "modified CHR ''E'' c" using Cons.prems by (auto simp: modified_def)
    then show ?thesis using t_loop_modified [OF assms(1,2), of "CHR ''E''" pieces E c fmt' out z]
      unfolding ConvE by (simp add: scs_def del: item_text.simps)
  next
    case (ConvO c)
    then have "modified CHR ''O'' c" using Cons.prems by (auto simp: modified_def)
    then show ?thesis using t_loop_modified [OF assms(1,2), of "CHR ''O''" pieces E c fmt' out z]
      unfolding ConvO by (simp add: scs_def del: item_text.simps)
  qed
  then show ?case using Cons by simp
qed simp

definition percents :: "nat \<Rightarrow> 'c::len word list" where
  "percents k = concat (replicate k (scs ''%%''))"

lemma t_loop_percents:
  fixes out :: "'c::len word list"
  shows "t_loop t_collect pieces E t (percents k) out = Some (out @ replicate k (sc CHR ''%''), True)"
proof -
  let ?p = "sc CHR ''%'' :: 'c word"
  have p: "percents k = replicate (2 * k) ?p" by (induction k) (simp_all add: percents_def scs_def)
  have "t_percents (replicate (2 * k) ?p) n = (n + k, [])" for n by (induction k arbitrary: n) simp_all
  then have "t_percents (replicate (2 * k) ?p) 0 = (k, [])" by simp
  moreover have "t_literal (replicate (2 * k) ?p) 0 = (0, replicate (2 * k) ?p)" by (cases k) simp_all
  ultimately have s: "t_scan (percents k) = (k, [] :: 'c word list)" unfolding p by (simp add: t_scan_def)
  show ?thesis unfolding t_loop_eq [OF s] by (simp add: t_rest_def p t_then_def t_collect_def min_def)
qed

lemma t_output_items:
  fixes items :: "'c::len word t_item list"
  assumes "printable_tm t" and "8 \<le> LENGTH('c)" and "list_all (item_ok E z t) items"
  shows "t_output pieces E (concat (map item_format items) @ percents k) t =
      Some (concat (map (item_text pieces z t) items) @ replicate k (sc CHR ''%''), True)"
    and "x \<in> set ''EO'' \<Longrightarrow> \<not> modified x c \<Longrightarrow>
      t_output pieces E (concat (map item_format items) @ scs [CHR ''%'', x, c] @ rest) t = Some (concat (map (item_text pieces z t) items), False)"
proof -
  note items = t_loop_items [OF assms, of pieces _ "[]"]
  show "t_output pieces E (concat (map item_format items) @ percents k) t =
      Some (concat (map (item_text pieces z t) items) @ replicate k (sc CHR ''%''), True)"
    by (simp add: t_output_def items t_loop_percents)
  assume x: "x \<in> set ''EO''" "\<not> modified x c"
  show "t_output pieces E (concat (map item_format items) @ scs [CHR ''%'', x, c] @ rest) t = Some (concat (map (item_text pieces z t) items), False)"
    using t_loop_modified [OF assms(1,2) x(1), of pieces E c rest "concat (map (item_text pieces z t) items)" z] x(2)
    by (simp add: t_output_def items scs_def)
qed

text \<open>
  A doubled percent sign that is not at the end: the character behind it is dropped, and the one behind that is taken
  for a conversion, so \<^verbatim>\<open>%%-d\<close> prints the day of the month instead of the hyphen and the letter.
\<close>

lemma percent_drops_character:
  fixes pieces :: "u8 list \<Rightarrow> 'c::len word list list"
  assumes "printable_tm t" and "8 \<le> LENGTH('c)"
  shows "t_output pieces E (scs ''%%-d'') t = Some (sc CHR ''%'' # dec_pad 2 (tm_mday t), True)"
proof -
  note inj = sc_inj [OF assms(2)]
  have s: "t_scan (scs ''%%-d'') = (1, scs ''-d'' :: 'c word list)" by (simp add: t_scan_def scs_def inj)
  have "t_convert t_collect pieces E t (sc CHR ''-'') [sc CHR ''d''] = (t_int t_collect (tm_mday t) 10 2, Some [])"
    by (simp add: t_convert_def t_simple_def inj)
  then show ?thesis unfolding t_output_def t_loop_eq [OF s] using t_loop_percents [of pieces E t 0]
    by (simp add: t_rest_def scs_def t_then_def t_collect_def field_steps [OF assms(1)] percents_def)
qed

subsection \<open>Properties\<close>

text \<open>What a call leaves in a buffer of \<open>cnt\<close> characters, and its result.\<close>

definition refused :: "'c::len word mem \<Rightarrow> nat \<Rightarrow> nat \<Rightarrow> ('c word mem \<times> nat) option \<Rightarrow> bool" where
  "refused m str cnt r \<longleftrightarrow> (\<exists>kept. r = Some (put m str kept, 0) \<and> length kept \<le> cnt)"

definition stored :: "'c::len word mem \<Rightarrow> nat \<Rightarrow> nat \<Rightarrow> 'c word list \<Rightarrow> ('c word mem \<times> nat) option \<Rightarrow> bool" where
  "stored m str cnt out r \<longleftrightarrow>
     (if length out < cnt then r = Some (put m str (out @ [0]), length out) else refused m str cnt r)"

lemma t_format_items:
  fixes items :: "'c::len word t_item list"
  assumes "printable_tm t" and "8 \<le> LENGTH('c)" and "list_all (item_ok E z t) items" and "mapped m str cnt"
  shows "stored m str cnt (concat (map (item_text pieces z t) items) @ replicate k (sc CHR ''%''))
      (t_format pieces E m str cnt (concat (map item_format items) @ percents k) t)"
    and "x \<in> set ''EO'' \<Longrightarrow> \<not> modified x c \<Longrightarrow>
      refused m str cnt (t_format pieces E m str cnt (concat (map item_format items) @ scs [CHR ''%'', x, c] @ rest) t)"
  using t_format_eq [OF t_output_items(1) [OF assms(1-3)] assms(4), of pieces k]
    t_format_eq [OF t_output_items(2) [OF assms(1-3)] assms(4), of x c pieces rest]
  by (auto simp: stored_def refused_def)

text \<open>
  C17. \<open>strftime\<close> and \<open>wcsftime\<close> of a well-formed time, for a format of literal characters and conversions that may end
  in doubled percent signs: when the text of the items (the fields of the time in decimal, the names, the
  literals) and its terminator fit into \<open>cnt\<close> characters, they are stored, nothing else is changed and the length
  of the text is returned; otherwise 0 is returned and at most \<open>cnt\<close> characters are written, inside the buffer.  A
  format that goes on with a modifier and a letter it does not take gives 0, whatever follows.
\<close>

theorem strftime_stores_text:
  fixes items :: "u8 t_item list" and witems :: "u32 t_item list"
  assumes "printable_tm t" and "list_all (item_ok E z t) items" and "list_all (item_ok E z t) witems"
    and "mapped m str cnt" and "mapped wm str cnt" and "x \<in> set ''EO''" and "\<not> modified x c"
  shows "stored m str cnt (concat (map (item_text (\<lambda>zn. [zn]) z t) items) @ replicate k (sc CHR ''%''))
      (strftime E m str cnt (concat (map item_format items) @ percents k) t) \<and>
    stored wm str cnt (concat (map (item_text (map (\<lambda>c. [scast c])) z t) witems) @ replicate k (sc CHR ''%''))
      (wcsftime E wm str cnt (concat (map item_format witems) @ percents k) t) \<and>
    refused m str cnt (strftime E m str cnt (concat (map item_format items) @ scs [CHR ''%'', x, c] @ rest) t) \<and>
    refused wm str cnt (wcsftime E wm str cnt (concat (map item_format witems) @ scs [CHR ''%'', x, c] @ wrest) t)"
  unfolding strftime_def wcsftime_def
  using t_format_items [OF assms(1) _ assms(2,4)] t_format_items [OF assms(1) _ assms(3,5)] assms(6,7) by simp

text \<open>
  C18. \<open>asctime_r\<close> (and \<open>asctime\<close>, on its own buffer) of a well-formed time with a year up to 9999 stores the
  line of 25 characters with names, fields of two digits and the year, and its terminator.  For a year
  from 10000 to 99999 the line fills the 26 bytes and no terminator is written.
\<close>

theorem asctime_writes_line:
  assumes "valid_tm time" and "0 \<le> tm_wday time" and "tm_wday time < 7" and "mapped m buffer 26" and "y = tm_year time + 1900"
  shows "asctime E m buffer time = asctime_r E m buffer time \<and>
    (y \<le> 9999 \<longrightarrow>
       asctime_r E m buffer time = Some (put m buffer (asctime_line time (dec4 y) @ [0])) \<and> length (asctime_line time (dec4 y)) = 25) \<and>
    (10000 \<le> y \<and> y \<le> 99999 \<longrightarrow>
       asctime_r E m buffer time = Some (put m buffer (asctime_line time (digit_char (y div 10000) # dec4 y))) \<and>
       length (asctime_line time (digit_char (y div 10000) # dec4 y)) = 26)"
proof (intro conjI impI)
  have out: "\<exists>kept. strftime E m buffer 26 ASCTIME_FORMAT time = Some (if length (asctime_line time year) < 26
        then (put m buffer (asctime_line time year @ [0]), length (asctime_line time year)) else (put m buffer kept, 0)) \<and>
      (length (asctime_line time year) \<le> 26 \<longrightarrow> kept = asctime_line time year)"
    if "\<And>out. t_year t_collect time out = Some (out @ year, True)" for year
    using t_format_eq [OF asctime_output [OF assms(1-3) that] assms(4), of "\<lambda>zn. [zn]" E] unfolding strftime_def by auto
  note len = asctime_line_length [OF assms(1-3)]
  show "asctime E m buffer time = asctime_r E m buffer time" by (simp add: asctime_def asctime_r_def)
  show "length (asctime_line time (dec4 y)) = 25" "length (asctime_line time (digit_char (y div 10000) # dec4 y)) = 26"
    by (simp_all add: len dec4_def)
  show "asctime_r E m buffer time = Some (put m buffer (asctime_line time (dec4 y) @ [0]))" if "y \<le> 9999"
  proof -
    have "t_year t_collect time out = Some (out @ dec4 y, True)" for out
      using t_year_four [of time out] that assms(1,5) by (simp add: valid_tm_def)
    from out [OF this] show ?thesis by (auto simp: asctime_r_def len dec4_def)
  qed
  show "asctime_r E m buffer time = Some (put m buffer (asctime_line time (digit_char (y div 10000) # dec4 y)))"
    if "10000 \<le> y \<and> y \<le> 99999"
  proof -
    have "t_year t_collect time out = Some (out @ digit_char (y div 10000) # dec4 y, True)" for out
      using t_year_five [of time out] that assms(5) by simp
    from out [OF this] show ?thesis by (auto simp: asctime_r_def len dec4_def)
  qed
qed

text \<open>The example of the C standard, Sun Sep 16 01:03:52 1973.\<close>

definition sample_tm :: tm where
  "sample_tm = \<lparr>tm_sec = 52, tm_min = 3, tm_hour = 1, tm_mday = 16, tm_mon = 8, tm_year = 73, tm_wday = 0, tm_yday = 258,
     tm_isdst = 0, tm_gmtoff = 0, tm_zone = UTC\<rparr>"

definition no_zone :: zone_env where
  "no_zone = \<lparr>ne_from_be = id, tz_file = None\<rparr>"

lemma mapped_fresh: "mapped (mem_of a (replicate n x)) a n"
  by (simp add: mapped_def mem_of_simp)

definition sample_items :: "'c::len word t_item list" where
  "sample_items = [Conv CHR ''a'', Lit (sc CHR '' ''), Conv CHR ''H'', Lit (sc CHR '':''), Conv CHR ''M'', Conv CHR ''p'', ConvE CHR ''Y'']"

theorem strftime_stores_text_witness:
  "strftime no_zone (mem_of 0 (replicate 20 1)) 0 20 (scs ''%a %H:%M%p%EY%%'') sample_tm =
     Some (put (mem_of 0 (replicate 20 1)) 0 (scs ''Sun 01:03AMp1973%'' @ [0]), 17) \<and>
   map_option snd (wcsftime no_zone (mem_of 0 (replicate 20 1)) 0 20 (scs ''%a %H:%M%p%EY%EQ'') sample_tm) = Some 0"
proof -
  have "printable_tm sample_tm" "list_all (item_ok no_zone None sample_tm) (sample_items :: u8 t_item list)"
    "list_all (item_ok no_zone None sample_tm) (sample_items :: u32 t_item list)" by code_simp+
  moreover have "CHR ''E'' \<in> set ''EO''" "\<not> modified CHR ''E'' CHR ''Q''" by code_simp+
  moreover have "concat (map item_format (sample_items :: u8 t_item list)) @ percents 1 = scs ''%a %H:%M%p%EY%%''"
    "concat (map (item_text (\<lambda>zn. [zn]) None sample_tm) (sample_items :: u8 t_item list)) @ replicate 1 (sc CHR ''%'') = scs ''Sun 01:03AMp1973%''"
    "concat (map item_format (sample_items :: u32 t_item list)) @ scs [CHR ''%'', CHR ''E'', CHR ''Q''] @ [] = scs ''%a %H:%M%p%EY%EQ''"
    by code_simp+
  moreover have "length (scs ''Sun 01:03AMp1973%'' :: u8 list) = 17" by code_simp
  ultimately show ?thesis
    using strftime_stores_text [of sample_tm no_zone None sample_items sample_items, OF _ _ _ mapped_fresh [of 0 20 1] mapped_fresh [of 0 20 1],
        of "CHR ''E''" "CHR ''Q''" 1 "[]" "[]"]
    by (auto simp: stored_def refused_def)
qed

theorem asctime_writes_line_witness:
  "asctime_r no_zone (mem_of 0 (replicate 26 1)) 0 sample_tm =
     Some (put (mem_of 0 (replicate 26 1)) 0 (scs ''Sun Sep 16 01:03:52 1973'' @ [10, 0]))"
proof -
  have "valid_tm sample_tm" "asctime_line sample_tm (dec4 1973) = scs ''Sun Sep 16 01:03:52 1973'' @ [10]"
    "0 \<le> tm_wday sample_tm" "tm_wday sample_tm < 7" "1973 = tm_year sample_tm + 1900" by code_simp+
  then show ?thesis using asctime_writes_line [OF _ _ _ mapped_fresh [of 0 26 1], of sample_tm 1973 no_zone] by simp
qed

end
