(* ===== verification/Snprintf.thy ===== *)
theory Snprintf
  imports Printf
begin

text \<open>
  Formatting into a buffer: \<open>vsnprintf\<close>, \<open>vsprintf\<close> and their variadic forms of
  \<^verbatim>\<open>src/ansi/stdio.cpp\<close>.  The stream they make writes to the buffer, which is
  \<open>__restrict\<close> and so has a memory of its own.  \<open>formatted\<close> is the full text of a call, as the
  reference stream collects it: the specification the buffer functions are measured against.
\<close>

record str_file =
  write_base :: nat
  write_ptr :: nat
  write_end :: nat
  buf_mem :: "u8 mem"

definition str_file_write :: "str_file sink" where
  "str_file_write f data =
     do { let can_copy = min (write_end f - write_ptr f) (length data);
          m \<leftarrow> store_list (buf_mem f) (write_ptr f) (take can_copy data);
          Some (f\<lparr>buf_mem := m, write_ptr := write_ptr f + can_copy\<rparr>, int (length data)) }"

definition terminate :: "str_file \<Rightarrow> u8 mem option" where
  "terminate f =
     (if write_ptr f \<noteq> write_end f then store (buf_mem f) (write_ptr f) 0
      else if write_end f \<noteq> write_base f then store (buf_mem f) (write_ptr f - 1) 0
      else Some (buf_mem f))"

definition vsnprintf ::
    "to_integer \<Rightarrow> u8 mem \<Rightarrow> nat \<Rightarrow> nat \<Rightarrow> u8 mem \<Rightarrow> u32 mem \<Rightarrow> u8 list \<Rightarrow> va list \<Rightarrow> (u8 mem \<times> int \<times> str_file pf) option" where
  "vsnprintf to_int b buffer sz m wm fmt ap =
     do { (s, ret) \<leftarrow> vfprintf str_file_write to_int
            (Some \<lparr>write_base = buffer, write_ptr = buffer, write_end = buffer + sz, buf_mem = b\<rparr>) m wm fmt ap;
          f \<leftarrow> pf_file s;
          b' \<leftarrow> terminate f;
          Some (b', ret, s) }"

text \<open>
  \<open>vsprintf\<close> passes \<open>SIZE_MAX\<close> as the size.  Addresses are natural numbers here; in the source \<open>buffer + size\<close> leaves the
  address space, which is undefined, and the difference \<open>write_end - write_ptr\<close> is the same modulo 2^64.
\<close>

abbreviation SIZE_MAX :: nat where "SIZE_MAX \<equiv> 18446744073709551615"

definition vsprintf ::
    "to_integer \<Rightarrow> u8 mem \<Rightarrow> nat \<Rightarrow> u8 mem \<Rightarrow> u32 mem \<Rightarrow> u8 list \<Rightarrow> va list \<Rightarrow> (u8 mem \<times> int \<times> str_file pf) option" where
  "vsprintf to_int b buffer m wm fmt ap = vsnprintf to_int b buffer SIZE_MAX m wm fmt ap"

subsection \<open>The text of a call\<close>

definition formatted :: "to_integer \<Rightarrow> u8 mem \<Rightarrow> u32 mem \<Rightarrow> u8 list \<Rightarrow> va list \<Rightarrow> (u8 list \<times> int) option" where
  "formatted to_int m wm fmt ap =
     do { (t, r) \<leftarrow> vfprintf collect to_int (Some []) m wm fmt ap; out \<leftarrow> pf_file t; Some (out, r) }"

lemma formatted_reference:
  assumes "formatted to_int m wm fmt ap = Some (out, r)"
  obtains t where "vfprintf collect to_int (Some []) m wm fmt ap = Some (t, r)" "pf_file t = Some out"
    "pf_mutex t = 0" "pf_written t = length out" "r = - 1 \<or> r = int (length out)"
proof -
  obtain t where t: "vfprintf collect to_int (Some []) m wm fmt ap = Some (t, r)" "pf_file t = Some out"
    using assms by (auto simp: formatted_def bind_eq_Some_conv)
  moreover have "loop_frame grows (pf_lock \<lparr>pf_file = Some [], pf_written = 0, pf_mutex = 0, pf_errno = None, pf_mem = m,
      pf_wmem = wm, pf_args = ap\<rparr>) t r"
    using t(1) by (intro collecting.vfprintf_loop_frame [where to_int = to_int and fmt = fmt]) (simp_all add: vfprintf_def pf_lock_def)
  ultimately show thesis using that by (auto simp: loop_frame_def pf_lock_def grows_def)
qed

subsection \<open>The buffer as a stream\<close>

definition buffer_holds :: "u8 mem \<Rightarrow> nat \<Rightarrow> nat \<Rightarrow> str_file \<Rightarrow> u8 list \<Rightarrow> bool" where
  "buffer_holds b base sz f out \<longleftrightarrow>
     write_base f = base \<and> write_end f = base + sz \<and> write_ptr f = base + min sz (length out) \<and>
     buf_mem f = put b base (take sz out)"

lemma put_take_append:
  "put (put b base (take sz out)) (base + min sz (length out)) (take (sz - min sz (length out)) bs) = put b base (take sz (out @ bs))"
  by (cases "length out \<le> sz") (simp_all add: put_append min_def)

interpretation str_sink: byte_sink str_file_write "buffer_holds b base sz" "\<lambda>out. mapped b base (min sz (length out))"
  for b base sz
proof
  fix f out bs
  assume h: "buffer_holds b base sz f out" and m: "mapped b base (min sz (length (out @ bs)))"
  let ?n = "min (sz - min sz (length out)) (length bs)"
  have n: "min sz (length out) + ?n = min sz (length (out @ bs))" by auto
  have "mapped (put b base (take sz out)) (base + min sz (length out)) ?n"
    using mapped_shift [OF m, of "min sz (length out)" ?n] n by auto
  moreover have "take ?n bs = take (sz - min sz (length out)) bs" by (simp add: min_def)
  ultimately have "store_list (buf_mem f) (write_ptr f) (take ?n bs) = Some (put b base (take sz (out @ bs)))"
    using h put_take_append [of b base sz out bs] by (simp add: buffer_holds_def store_list_put min.commute del: take_append)
  then show "\<exists>f'. str_file_write f bs = Some (f', int (length bs)) \<and> buffer_holds b base sz f' (out @ bs)"
    using h n by (auto simp: str_file_write_def buffer_holds_def Let_def)
next
  fix out bs
  assume "mapped b base (min sz (length (out @ bs)))"
  then show "mapped b base (min sz (length out))" by (rule mapped_mono) auto
qed

lemma terminate_buffer:
  assumes "buffer_holds b base sz f out" and "mapped b base (min sz (length out + 1))"
  shows "terminate f = Some (if sz = 0 then b else put b base (take (sz - 1) out @ [0]))"
proof (cases "length out < sz")
  case True
  then have "b (base + length out) \<noteq> None" using assms(2) by (auto simp: mapped_def)
  then have "put b base out (base + length out) \<noteq> None" by (simp add: put_outside)
  then show ?thesis using True assms(1) by (auto simp: terminate_def buffer_holds_def put_snoc)
next
  case False
  show ?thesis
  proof (cases sz)
    case (Suc n)
    have "n < length (take sz out)" using False Suc by simp
    then have "put b base (take sz out) (base + n) = Some (take sz out ! n)" by (rule put_inside)
    moreover have "(put b base (take sz out))(base + n \<mapsto> 0) = put b base (take n out @ [0])"
      using False Suc by (simp add: take_Suc_conv_app_nth put_snoc)
    ultimately show ?thesis using False Suc assms(1) by (simp add: terminate_def buffer_holds_def)
  qed (use False assms(1) in \<open>simp add: terminate_def buffer_holds_def\<close>)
qed

lemma vsnprintf_of_text:
  assumes "formatted to_int m wm fmt ap = Some (out, r)" and "mapped b buffer (min sz (length out + 1))"
  shows "\<exists>s. vsnprintf to_int b buffer sz m wm fmt ap =
      Some (if sz = 0 then b else put b buffer (take (sz - 1) out @ [0]), r, s) \<and> pf_mutex s = 0 \<and>
      (r = - 1 \<or> r = int (length out))"
proof -
  obtain t where t: "vfprintf collect to_int (Some []) m wm fmt ap = Some (t, r)" "pf_file t = Some out"
      "pf_mutex t = 0" "r = - 1 \<or> r = int (length out)"
    using formatted_reference [OF assms(1)] by metis
  let ?f = "\<lparr>write_base = buffer, write_ptr = buffer, write_end = buffer + sz, buf_mem = b\<rparr>"
  have "mapped b buffer (min sz (length out))" using assms(2) by (rule mapped_mono) auto
  then obtain s f where s: "vfprintf str_file_write to_int (Some ?f) m wm fmt ap = Some (s, r)"
      "sink_rel (buffer_holds b buffer sz) s t" "pf_file s = Some f" "buffer_holds b buffer sz f out"
    using str_sink.vfprintf_refines [OF t(1,2), of b buffer sz ?f] by (auto simp: buffer_holds_def)
  then show ?thesis using terminate_buffer [OF s(4) assms(2)] t(3,4)
    by (simp add: vsnprintf_def sink_rel_def)
qed

subsection \<open>Properties\<close>

text \<open>
  C25. \<open>vsnprintf\<close> writes the longest prefix of the full text that leaves room for the terminating zero and
  the zero, touches nothing else and with size 0 nothing at all, and returns the length of the
  full text (or -1 if formatting fails); it needs only the bytes it writes to be accessible.  \<open>vsprintf\<close>
  writes the full text and its zero.
\<close>

theorem vsnprintf_truncates:
  assumes "formatted to_int m wm fmt ap = Some (out, r)" and "mapped b buffer (min sz (length out + 1))"
  shows "\<exists>s. vsnprintf to_int b buffer sz m wm fmt ap =
      Some (if sz = 0 then b else put b buffer (take (sz - 1) out @ [0]), r, s) \<and> (r = - 1 \<or> r = int (length out)) \<and>
      (length out < sz \<and> sz \<le> SIZE_MAX \<longrightarrow>
         (\<exists>s'. vsprintf to_int b buffer m wm fmt ap = Some (put b buffer (out @ [0]), r, s')))"
proof -
  have "\<exists>s'. vsprintf to_int b buffer m wm fmt ap = Some (put b buffer (out @ [0]), r, s')" if "length out < sz" "sz \<le> SIZE_MAX"
  proof -
    have "mapped b buffer (min SIZE_MAX (length out + 1))" using assms(2) by (rule mapped_mono) (use that in auto)
    then show ?thesis using vsnprintf_of_text [OF assms(1), of b buffer SIZE_MAX] that unfolding vsprintf_def by auto
  qed
  then show ?thesis using vsnprintf_of_text [OF assms] by auto
qed

lemma formatted_sample: "formatted (\<lambda>_. (0, 0)) Map.empty Map.empty (bytes ''n=%d%%'') [VInt 1234] = Some (bytes ''n=1234%'', 7)"
  by code_simp

theorem vsnprintf_truncates_witness:
  "\<exists>s. vsnprintf (\<lambda>_. (0, 0)) (mem_of 0 [9, 9, 9, 9, 9, 9]) 0 5 Map.empty Map.empty (bytes ''n=%d%%'') [VInt 1234] =
     Some (put (mem_of 0 [9, 9, 9, 9, 9, 9]) 0 (bytes ''n=12'' @ [0]), 7, s)"
proof -
  have "mapped (mem_of 0 [9, 9, 9, 9, 9, 9 :: u8]) 0 (min 5 (length (bytes ''n=1234%'') + 1))"
    by (auto simp: mapped_def mem_of_simp bytes_def)
  then show ?thesis
    using vsnprintf_truncates [OF formatted_sample, of "mem_of 0 [9, 9, 9, 9, 9, 9]" 0 5] by (auto simp: bytes_def)
qed

end
