(* ===== verification/Stdio.thy ===== *)
theory Stdio
  imports Snprintf
begin

text \<open>
  Streams: the \<open>FILE\<close> structure of \<^verbatim>\<open>src/ansi/stdio_internal.hpp\<close>, its file descriptor and string
  back ends, push-back, positioning and the character, line and block functions of
  \<^verbatim>\<open>src/ansi/stdio.cpp\<close>, \<^verbatim>\<open>src/internal/stdio_unlocked.cpp\<close> and \<^verbatim>\<open>src/posix/stdio.cpp\<close>.

  The kernel is a state \<open>'k\<close> and the system calls are parameters; \<open>Inl\<close> is an error number.  The
  functions that go through the \<open>read\<close> or \<open>write\<close> member take it as the parameter \<open>rd\<close> or
  \<open>wr\<close> over a state \<open>'s\<close> that includes the \<open>FILE\<close>: \<open>rd s n\<close> returns the new state, the \<open>ssize_t\<close> result and the
  bytes stored at the destination.  \<open>ungetc_ptr\<close> is the offset into \<open>ungetc_buffer\<close>, and an access
  outside the buffer is undefined.  The locking wrappers are their \<open>_unlocked\<close> bodies here.
\<close>

subsection \<open>The structure\<close>

abbreviation FILE_EOF_FLAG :: u32 where "FILE_EOF_FLAG \<equiv> 0x10"
abbreviation FILE_ERR_FLAG :: u32 where "FILE_ERR_FLAG \<equiv> 0x20"
abbreviation UNGETC_MAX :: nat where "UNGETC_MAX \<equiv> 0x1000"
abbreviation EOF :: int where "EOF \<equiv> - 1"

record FILE =
  file_flags :: u32
  read_ptr :: nat
  read_end :: nat
  ungetc_buffer :: "u8 list"
  ungetc_ptr :: nat
  ungetc_size :: int
  file_error :: "errno option"
  file_fd :: int
  last_was_read :: bool
  no_destroy :: bool

definition create_fd_file :: "int \<Rightarrow> FILE" where
  "create_fd_file fd =
     \<lparr>file_flags = 0, read_ptr = 0, read_end = 0, ungetc_buffer = replicate UNGETC_MAX 0, ungetc_ptr = 0, ungetc_size = 0,
      file_error = None, file_fd = fd, last_was_read = False, no_destroy = False\<rparr>"

definition STDIN :: FILE where "STDIN = (create_fd_file 0)\<lparr>last_was_read := True, no_destroy := True\<rparr>"
definition STDOUT :: FILE where "STDOUT = (create_fd_file 1)\<lparr>no_destroy := True\<rparr>"
definition STDERR :: FILE where "STDERR = (create_fd_file 2)\<lparr>no_destroy := True\<rparr>"

type_synonym 'k sys_write = "'k \<Rightarrow> int \<Rightarrow> u8 list \<Rightarrow> 'k \<times> (errno + int)"
type_synonym 'k sys_read = "'k \<Rightarrow> int \<Rightarrow> nat \<Rightarrow> 'k \<times> (errno + u8 list)"
type_synonym 'k sys_lseek = "'k \<Rightarrow> int \<Rightarrow> int \<Rightarrow> int \<Rightarrow> 'k \<times> (errno + int)"
type_synonym 's reader = "'s \<Rightarrow> nat \<Rightarrow> ('s \<times> int \<times> u8 list) option"

subsection \<open>Back ends\<close>

definition fd_file_write :: "'k sys_write \<Rightarrow> ('k \<times> FILE) sink" where
  "fd_file_write sys_write s data =
     (case s of (k, f) \<Rightarrow>
        case sys_write k (file_fd f) data of
          (k', Inl e) \<Rightarrow> Some ((k', f\<lparr>file_error := Some e, file_flags := file_flags f OR FILE_ERR_FLAG\<rparr>), - 1)
        | (k', Inr written) \<Rightarrow> Some ((k', f\<lparr>last_was_read := False\<rparr>), written))"

text \<open>The loop that takes pushed back characters: the file, the characters and the size that is left.\<close>

fun unget_loop :: "FILE \<Rightarrow> nat \<Rightarrow> (FILE \<times> u8 list \<times> nat) option" where
  "unget_loop f 0 = Some (f, [], 0)"
| "unget_loop f (Suc n) =
     (if ungetc_size f = 0 then Some (f, [], Suc n)
      else if ungetc_ptr f = 0 \<or> length (ungetc_buffer f) < ungetc_ptr f then None
      else do { (f', cs, rest) \<leftarrow>
                  unget_loop (f\<lparr>ungetc_ptr := ungetc_ptr f - 1, ungetc_size := ungetc_size f - 1\<rparr>) n;
                Some (f', ungetc_buffer f ! (ungetc_ptr f - 1) # cs, rest) })"

definition fd_file_read :: "'k sys_read \<Rightarrow> ('k \<times> FILE) reader" where
  "fd_file_read sys_read s sz =
     (case s of (k, f) \<Rightarrow>
        do { (f1, cs, sz1) \<leftarrow> unget_loop f sz;
             case sys_read k (file_fd f1) sz1 of
               (k', Inl e) \<Rightarrow>
                 Some ((k', f1\<lparr>file_error := Some e, file_flags := file_flags f1 OR FILE_ERR_FLAG\<rparr>), - 1, cs)
             | (k', Inr bs) \<Rightarrow>
                 Some ((k', f1\<lparr>file_flags := (if length bs < sz1 then file_flags f1 OR FILE_EOF_FLAG else file_flags f1),
                               last_was_read := True\<rparr>),
                       int (length bs) + int (length cs), cs @ bs) })"

definition str_file_read :: "u8 mem \<Rightarrow> FILE reader" where
  "str_file_read m f sz =
     do { (f1, cs, sz1) \<leftarrow> unget_loop f sz;
          let can_copy = min (read_end f1 - read_ptr f1) sz1;
          bs \<leftarrow> read_cells m (read_ptr f1) can_copy;
          Some (f1\<lparr>read_ptr := read_ptr f1 + can_copy\<rparr>, int can_copy + int (length cs), cs @ bs) }"

definition ungetc :: "int \<Rightarrow> FILE \<Rightarrow> (FILE \<times> int) option" where
  "ungetc c f =
     (if ungetc_size f = int UNGETC_MAX then Some (f, EOF)
      else if ungetc_ptr f < length (ungetc_buffer f) then
        Some (f\<lparr>ungetc_buffer := (ungetc_buffer f)[ungetc_ptr f := word_of_int c], ungetc_ptr := ungetc_ptr f + 1,
                ungetc_size := ungetc_size f + 1\<rparr>, c)
      else None)"

subsection \<open>Output\<close>

definition fputc :: "'s sink \<Rightarrow> int \<Rightarrow> 's \<Rightarrow> ('s \<times> int) option" where
  "fputc wr c s = do { (s', r) \<leftarrow> wr s [word_of_int c]; Some (s', if r < 0 then EOF else c) }"

definition fputs :: "'s sink \<Rightarrow> u8 mem \<Rightarrow> nat \<Rightarrow> 's \<Rightarrow> ('s \<times> int) option" where
  "fputs wr m str s =
     do { n \<leftarrow> strlen m str; bs \<leftarrow> read_cells m str n; (s', r) \<leftarrow> wr s bs; Some (s', if r < 0 then EOF else 0) }"

definition puts :: "'s sink \<Rightarrow> u8 mem \<Rightarrow> nat \<Rightarrow> 's \<Rightarrow> ('s \<times> int) option" where
  "puts wr m str s =
     do { (s1, e1) \<leftarrow> fputs wr m str s;
          if e1 < 0 then Some (s1, e1)
          else do { (s2, e2) \<leftarrow> fputc wr 10 s1; Some (s2, if e2 < 0 then e2 else 0) } }"

definition fwrite_unlocked :: "'s sink \<Rightarrow> u8 mem \<Rightarrow> nat \<Rightarrow> u64 \<Rightarrow> u64 \<Rightarrow> 's \<Rightarrow> ('s \<times> u64) option" where
  "fwrite_unlocked wr m buffer sz cnt s =
     (if sz = 0 \<or> cnt = 0 then Some (s, 0)
      else do { bs \<leftarrow> read_cells m buffer (unat (sz * cnt)); (s', r) \<leftarrow> wr s bs;
                Some (s', if r < 0 then 0 else word_of_int r div sz) })"

subsection \<open>Input\<close>

fun fread_loop :: "'s reader \<Rightarrow> nat \<Rightarrow> nat \<Rightarrow> 's \<Rightarrow> nat \<Rightarrow> ('s \<times> nat \<times> u8 list) option" where
  "fread_loop rd sz 0 s progress = Some (s, progress, [])"
| "fread_loop rd sz (Suc n) s progress =
     do { (s1, r, bs) \<leftarrow> rd s sz;
          if r < 0 \<or> r < int sz then Some (s1, progress, bs)
          else do { (s2, p, cs) \<leftarrow> fread_loop rd sz n s1 (progress + 1); Some (s2, p, bs @ cs) } }"

definition fread_unlocked :: "'s reader \<Rightarrow> nat \<Rightarrow> nat \<Rightarrow> 's \<Rightarrow> ('s \<times> nat \<times> u8 list) option" where
  "fread_unlocked rd sz cnt s = (if sz = 0 \<or> cnt = 0 then Some (s, 0, []) else fread_loop rd sz cnt s 0)"

definition fgetc_unlocked :: "'s reader \<Rightarrow> 's \<Rightarrow> ('s \<times> int) option" where
  "fgetc_unlocked rd s =
     do { (s', r, bs) \<leftarrow> rd s 1;
          if r \<noteq> 1 then Some (s', EOF) else (case bs of c # _ \<Rightarrow> Some (s', uint c) | [] \<Rightarrow> None) }"

partial_function (option) fgets_loop ::
    "'s reader \<Rightarrow> nat \<Rightarrow> int \<Rightarrow> int \<Rightarrow> 's \<Rightarrow> u8 mem \<Rightarrow> ('s \<times> u8 mem \<times> nat option) option" where
  "fgets_loop rd str cnt i s m =
     do { last \<leftarrow> ck32 (cnt - 1);
      if i = last then do { m' \<leftarrow> store m (str + nat i) 0; Some (s, m', Some str) }
      else do { (s', c) \<leftarrow> fgetc_unlocked rd s;
                if c = EOF then
                  (if i \<noteq> 0 then do { m' \<leftarrow> store m (str + nat i) 0; Some (s', m', Some str) }
                   else Some (s', m, None))
                else do { m1 \<leftarrow> store m (str + nat i) (word_of_int c);
                          if c = 10 then do { m2 \<leftarrow> store m1 (str + nat (i + 1)) 0; Some (s', m2, Some str) }
                          else do { i' \<leftarrow> ck32 (i + 1); fgets_loop rd str cnt i' s' m1 } } } }"

definition fgets_unlocked ::
    "'s reader \<Rightarrow> u8 mem \<Rightarrow> nat \<Rightarrow> int \<Rightarrow> 's \<Rightarrow> ('s \<times> u8 mem \<times> nat option \<times> errno option) option" where
  "fgets_unlocked rd m str cnt s =
     (if cnt = 0 then Some (s, m, None, Some EINVAL)
      else do { (s', m', p) \<leftarrow> fgets_loop rd str cnt 0 s m; Some (s', m', p, None) })"

text \<open>
  \<open>getdelim\<close>: the buffer is a list of its characters, \<open>malloc\<close> and \<open>realloc\<close> are parameters that yield
  one or fail.  \<open>has_size\<close> says that the caller passed a size pointer, which holds the length of the
  buffer.
\<close>

partial_function (option) getdelim_loop ::
    "'s reader \<Rightarrow> (u8 list \<Rightarrow> nat \<Rightarrow> u8 list option) \<Rightarrow> int \<Rightarrow> nat \<Rightarrow> 's \<Rightarrow> u8 list \<Rightarrow> ('s \<times> u8 list \<times> int \<times> errno option) option" where
  "getdelim_loop rd realloc delim cnt s buf =
     do { (s', c) \<leftarrow> fgetc_unlocked rd s;
          if c = EOF then Some (s', buf, - 1, Some EIO)
          else do {
            let buf_size = length buf;
            let new_size = (if buf_size < 512 then 512 else buf_size + buf_size div 2);
            case (if buf_size \<le> cnt + 1 then realloc buf new_size else Some buf) of
              None \<Rightarrow> Some (s', buf, - 1, None)
            | Some buf1 \<Rightarrow>
                if length buf1 \<le> cnt then None
                else do {
                  let buf2 = buf1[cnt := word_of_int c];
                  if c = delim then
                    (if cnt + 1 < length buf2 then Some (s', buf2[cnt + 1 := 0], int (cnt + 1), None) else None)
                  else getdelim_loop rd realloc delim (cnt + 1) s' buf2 } } }"

definition getdelim ::
    "'s reader \<Rightarrow> (nat \<Rightarrow> u8 list option) \<Rightarrow> (u8 list \<Rightarrow> nat \<Rightarrow> u8 list option) \<Rightarrow> int \<Rightarrow> u8 list option \<Rightarrow> bool \<Rightarrow> 's \<Rightarrow>
     ('s \<times> u8 list option \<times> int \<times> errno option) option" where
  "getdelim rd malloc realloc delim line has_size s =
     (if line \<noteq> None \<and> \<not> has_size then Some (s, line, - 1, Some EINVAL)
      else case (case line of None \<Rightarrow> malloc 8 | Some buf \<Rightarrow> Some buf) of
        None \<Rightarrow> Some (s, None, - 1, None)
      | Some buf \<Rightarrow>
          do { (s', buf', r, e) \<leftarrow> getdelim_loop rd realloc delim 0 s buf; Some (s', Some buf', r, e) })"

subsection \<open>State and position\<close>

definition ferror_unlocked :: "FILE \<Rightarrow> u32" where "ferror_unlocked f = file_flags f AND FILE_ERR_FLAG"
definition feof_unlocked :: "FILE \<Rightarrow> u32" where "feof_unlocked f = file_flags f AND FILE_EOF_FLAG"
definition clearerr_unlocked :: "FILE \<Rightarrow> FILE" where
  "clearerr_unlocked f = f\<lparr>file_flags := file_flags f AND NOT FILE_ERR_FLAG\<rparr>"
definition fileno :: "FILE \<Rightarrow> int" where "fileno f = file_fd f"

definition fseek :: "'k sys_lseek \<Rightarrow> int \<Rightarrow> int \<Rightarrow> 'k \<times> FILE \<Rightarrow> ('k \<times> FILE) \<times> int \<times> errno option" where
  "fseek sys_lseek off origin s =
     (case s of (k, f) \<Rightarrow>
        case sys_lseek k (file_fd f) off origin of
          (k', Inl e) \<Rightarrow> ((k', f\<lparr>file_flags := file_flags f OR FILE_ERR_FLAG\<rparr>), - 1, Some e)
        | (k', Inr _) \<Rightarrow> ((k', f\<lparr>ungetc_ptr := 0\<rparr>), 0, None))"

definition ftell :: "'k sys_lseek \<Rightarrow> 'k \<times> FILE \<Rightarrow> ('k \<times> FILE) \<times> int \<times> errno option" where
  "ftell sys_lseek s =
     (case s of (k, f) \<Rightarrow>
        case sys_lseek k (file_fd f) 0 1 of
          (k', Inl e) \<Rightarrow> ((k', f\<lparr>file_flags := file_flags f OR FILE_ERR_FLAG\<rparr>), - 1, Some e)
        | (k', Inr tmp) \<Rightarrow> if LONG_MAX < tmp then ((k', f), - 1, Some EOVERFLOW) else ((k', f), tmp, None))"

definition rewind :: "'k sys_lseek \<Rightarrow> 'k \<times> FILE \<Rightarrow> ('k \<times> FILE) \<times> errno option" where
  "rewind sys_lseek s =
     (case s of (k, f) \<Rightarrow>
        case sys_lseek k (file_fd f) 0 0 of (k', res) \<Rightarrow>
          ((k', f\<lparr>file_flags := file_flags f AND NOT (FILE_ERR_FLAG OR FILE_EOF_FLAG), ungetc_ptr := 0, ungetc_size := 0\<rparr>),
           case res of Inl e \<Rightarrow> Some e | Inr _ \<Rightarrow> None))"

definition fsetpos :: "'k sys_lseek \<Rightarrow> int \<Rightarrow> 'k \<times> FILE \<Rightarrow> ('k \<times> FILE) \<times> int \<times> errno option" where
  "fsetpos sys_lseek pos s =
     (case s of (k, f) \<Rightarrow>
        case sys_lseek k (file_fd f) pos 0 of
          (k', Inl e) \<Rightarrow> ((k', f\<lparr>file_flags := file_flags f OR FILE_ERR_FLAG\<rparr>), - 1, Some e)
        | (k', Inr _) \<Rightarrow> ((k', f\<lparr>ungetc_ptr := 0, ungetc_size := 0\<rparr>), 0, None))"

definition fgetpos :: "'k sys_lseek \<Rightarrow> 'k \<times> FILE \<Rightarrow> ('k \<times> FILE) \<times> int option \<times> int \<times> errno option" where
  "fgetpos sys_lseek s =
     (case s of (k, f) \<Rightarrow>
        case sys_lseek k (file_fd f) 0 1 of
          (k', Inl e) \<Rightarrow> ((k', f\<lparr>file_flags := file_flags f OR FILE_ERR_FLAG\<rparr>), None, - 1, Some e)
        | (k', Inr tmp) \<Rightarrow>
            if LONG_MAX < tmp then ((k', f\<lparr>file_flags := file_flags f OR FILE_ERR_FLAG\<rparr>), None, - 1, Some EOVERFLOW)
            else ((k', f), Some tmp, 0, None))"

definition fseeko :: "'k sys_lseek \<Rightarrow> int \<Rightarrow> int \<Rightarrow> 'k \<times> FILE \<Rightarrow> ('k \<times> FILE) \<times> int \<times> errno option" where
  "fseeko sys_lseek off whence s =
     (case s of (k, f) \<Rightarrow>
        case sys_lseek k (file_fd f) off whence of
          (k', Inl e) \<Rightarrow> ((k', f), - 1, Some e)
        | (k', Inr _) \<Rightarrow> ((k', f), 0, None))"

subsection \<open>Opening\<close>

text \<open>\<open>contains\<close> is the search of \<open>hz::string_view\<close>.  The result is the flags, or \<open>EINVAL\<close>.\<close>

abbreviation O_RDONLY :: u32 where "O_RDONLY \<equiv> 0"
abbreviation O_WRONLY :: u32 where "O_WRONLY \<equiv> 1"
abbreviation O_RDWR :: u32 where "O_RDWR \<equiv> 2"
abbreviation O_CREAT :: u32 where "O_CREAT \<equiv> 0x40"
abbreviation O_TRUNC :: u32 where "O_TRUNC \<equiv> 0x200"
abbreviation O_APPEND :: u32 where "O_APPEND \<equiv> 0x400"
abbreviation O_CLOEXEC :: u32 where "O_CLOEXEC \<equiv> 0x80000"

fun mode_letters :: "u8 list \<Rightarrow> u32 \<Rightarrow> errno + u32" where
  "mode_letters [] flags = Inr flags"
| "mode_letters (c # cs) flags =
     (if c = ch CHR ''e'' then mode_letters cs (flags OR O_CLOEXEC)
      else if c \<noteq> ch CHR ''+'' \<and> c \<noteq> ch CHR ''b'' \<and> c \<noteq> ch CHR ''t'' then Inl EINVAL
      else mode_letters cs flags)"

definition parse_file_mode :: "(u8 list \<Rightarrow> u8 \<Rightarrow> bool) \<Rightarrow> u8 list \<Rightarrow> errno + u32" where
  "parse_file_mode contains mode =
     (let plus = contains mode (ch CHR ''+'') in
      if deref mode = ch CHR ''r'' then mode_letters (drop 1 mode) (if plus then O_RDWR else O_RDONLY)
      else if deref mode = ch CHR ''w'' then
        mode_letters (drop 1 mode) (if plus then O_RDWR OR O_CREAT OR O_TRUNC else O_WRONLY OR O_CREAT OR O_TRUNC)
      else if deref mode = ch CHR ''a'' then
        mode_letters (drop 1 mode) (if plus then O_RDWR OR O_CREAT OR O_APPEND else O_WRONLY OR O_CREAT OR O_APPEND)
      else Inl EINVAL)"

type_synonym 'k sys_openat = "'k \<Rightarrow> int \<Rightarrow> u8 list \<Rightarrow> u32 \<Rightarrow> u32 \<Rightarrow> 'k \<times> (errno + int)"
type_synonym 'k sys_close = "'k \<Rightarrow> int \<Rightarrow> 'k \<times> errno option"

definition fopen :: "(u8 list \<Rightarrow> u8 \<Rightarrow> bool) \<Rightarrow> 'k sys_openat \<Rightarrow> u8 list \<Rightarrow> u8 list \<Rightarrow> 'k \<Rightarrow> 'k \<times> (errno + FILE)" where
  "fopen contains sys_openat filename mode k =
     (case parse_file_mode contains mode of
        Inl e \<Rightarrow> (k, Inl e)
      | Inr flags \<Rightarrow>
          (case sys_openat k (- 100) filename flags 0x1B6 of
             (k', Inl e) \<Rightarrow> (k', Inl e)
           | (k', Inr fd) \<Rightarrow> (k', Inr (create_fd_file fd))))"

text \<open>\<open>freopen\<close> for a file with a descriptor; the \<open>FILE\<close> is gone (\<open>None\<close>) when closing fails.\<close>

definition freopen ::
    "(u8 list \<Rightarrow> u8 \<Rightarrow> bool) \<Rightarrow> 'k sys_openat \<Rightarrow> 'k sys_close \<Rightarrow> u8 list \<Rightarrow> u8 list \<Rightarrow> 'k \<times> FILE \<Rightarrow>
     'k \<times> FILE option \<times> (errno + unit)" where
  "freopen contains sys_openat sys_close filename mode s =
     (case s of (k, f) \<Rightarrow>
        case (if 0 \<le> file_fd f then sys_close k (file_fd f) else (k, None)) of
          (k1, Some e) \<Rightarrow> (k1, None, Inl e)
        | (k1, None) \<Rightarrow>
            (case parse_file_mode contains mode of
               Inl e \<Rightarrow> (k1, Some f, Inl e)
             | Inr flags \<Rightarrow>
                 (case sys_openat k1 (- 100) filename flags 0x1B6 of
                    (k2, Inl e) \<Rightarrow> (k2, Some f, Inl e)
                  | (k2, Inr fd) \<Rightarrow> (k2, Some (f\<lparr>file_fd := fd\<rparr>), Inr ()))))"

definition fclose :: "'k sys_close \<Rightarrow> 'k \<Rightarrow> FILE option \<Rightarrow> 'k \<times> FILE option \<times> int \<times> errno option" where
  "fclose sys_close k file =
     (case file of
        None \<Rightarrow> (k, None, EOF, Some EINVAL)
      | Some f \<Rightarrow>
          if no_destroy f then (k, Some f, 0, None)
          else if 0 \<le> file_fd f then
            (case sys_close k (file_fd f) of (k', Some e) \<Rightarrow> (k', None, EOF, Some e) | (k', None) \<Rightarrow> (k', None, 0, None))
          else (k, None, 0, None))"

text \<open>\<open>vdprintf\<close> formats to a file made for the call.\<close>

definition vdprintf ::
    "'k sys_write \<Rightarrow> to_integer \<Rightarrow> int \<Rightarrow> u8 mem \<Rightarrow> u32 mem \<Rightarrow> u8 list \<Rightarrow> va list \<Rightarrow> 'k \<Rightarrow> (('k \<times> FILE) pf \<times> int) option" where
  "vdprintf sys_write to_int fd m wm fmt ap k =
     vfprintf (fd_file_write sys_write) to_int (Some (k, create_fd_file fd)) m wm fmt ap"

subsection \<open>Push-back\<close>

text \<open>
  The invariant of the push-back buffer, and the characters it holds in the order they will be read.
\<close>

definition unget_inv :: "FILE \<Rightarrow> bool" where
  "unget_inv f \<longleftrightarrow> length (ungetc_buffer f) = UNGETC_MAX \<and> ungetc_ptr f \<le> UNGETC_MAX \<and> ungetc_size f = int (ungetc_ptr f)"

definition pushed :: "FILE \<Rightarrow> u8 list" where
  "pushed f = rev (take (ungetc_ptr f) (ungetc_buffer f))"

lemma unget_inv_create [simp]: "unget_inv (create_fd_file fd)" "pushed (create_fd_file fd) = []"
  by (simp_all add: unget_inv_def create_fd_file_def pushed_def)

lemma unget_inv_other [simp]:
  "unget_inv (f\<lparr>file_flags := a\<rparr>) = unget_inv f" "unget_inv (f\<lparr>file_error := b\<rparr>) = unget_inv f"
  "unget_inv (f\<lparr>last_was_read := c\<rparr>) = unget_inv f" "unget_inv (f\<lparr>read_ptr := d\<rparr>) = unget_inv f"
  "pushed (f\<lparr>file_flags := a\<rparr>) = pushed f" "pushed (f\<lparr>file_error := b\<rparr>) = pushed f"
  "pushed (f\<lparr>last_was_read := c\<rparr>) = pushed f" "pushed (f\<lparr>read_ptr := d\<rparr>) = pushed f"
  by (simp_all add: unget_inv_def pushed_def)

lemma length_pushed: "unget_inv f \<Longrightarrow> length (pushed f) = ungetc_ptr f"
  by (simp add: unget_inv_def pushed_def)

definition pop_pushed :: "nat \<Rightarrow> FILE \<Rightarrow> FILE" where
  "pop_pushed n f = f\<lparr>ungetc_ptr := ungetc_ptr f - n, ungetc_size := ungetc_size f - int (min n (ungetc_ptr f))\<rparr>"

lemma pop_pushed_inv: "unget_inv f \<Longrightarrow> unget_inv (pop_pushed n f) \<and> pushed (pop_pushed n f) = drop n (pushed f)"
  by (auto simp: unget_inv_def pop_pushed_def pushed_def drop_rev min_def)

lemma unget_loop_eq:
  "unget_inv f \<Longrightarrow> unget_loop f n = Some (pop_pushed n f, take n (pushed f), n - length (pushed f))"
proof (induction n arbitrary: f)
  case 0
  then show ?case by (simp add: pop_pushed_def)
next
  case (Suc n)
  show ?case
  proof (cases "ungetc_ptr f")
    case 0
    then show ?thesis using Suc by (simp add: unget_inv_def pop_pushed_def pushed_def)
  next
    case (Suc k)
    let ?f = "f\<lparr>ungetc_ptr := ungetc_ptr f - 1, ungetc_size := ungetc_size f - 1\<rparr>"
    have inv: "unget_inv ?f" using Suc.prems Suc by (auto simp: unget_inv_def)
    have "k < length (ungetc_buffer f)" using Suc.prems Suc by (simp add: unget_inv_def)
    then have p: "pushed f = ungetc_buffer f ! k # pushed ?f"
      using Suc by (simp add: pushed_def take_Suc_conv_app_nth)
    have "pop_pushed n ?f = pop_pushed (Suc n) f" using Suc.prems Suc by (auto simp: pop_pushed_def unget_inv_def min_def)
    then show ?thesis using Suc.IH [OF inv] Suc.prems Suc p by (simp add: unget_inv_def)
  qed
qed

lemma ungetc_push:
  assumes "unget_inv f" and "ungetc_ptr f < UNGETC_MAX"
  shows "\<exists>f'. ungetc c f = Some (f', c) \<and> unget_inv f' \<and> pushed f' = word_of_int c # pushed f \<and>
    read_ptr f' = read_ptr f \<and> read_end f' = read_end f \<and> file_fd f' = file_fd f \<and> file_flags f' = file_flags f"
  using assms by (simp add: ungetc_def unget_inv_def pushed_def take_Suc_conv_app_nth [of "ungetc_ptr f"])

lemma ungetc_full: "unget_inv f \<Longrightarrow> ungetc_ptr f = UNGETC_MAX \<Longrightarrow> ungetc c f = Some (f, EOF)"
  by (simp add: ungetc_def unget_inv_def)

subsection \<open>The contract of a source of bytes\<close>

text \<open>
  What the input functions rely on: \<open>pend s\<close> are the bytes still to come, and a read takes as many of
  them as it was asked for and there are.
\<close>

locale byte_source =
  fixes rd :: "'s reader" and pend :: "'s \<Rightarrow> u8 list" and ok :: "'s \<Rightarrow> bool"
  assumes read_law: "ok s \<Longrightarrow>
    \<exists>s'. rd s n = Some (s', int (length (take n (pend s))), take n (pend s)) \<and> ok s' \<and> pend s' = drop n (pend s)"
begin

lemma fgetc_eq:
  assumes "ok s"
  shows "\<exists>s'. fgetc_unlocked rd s = Some (s', case pend s of [] \<Rightarrow> EOF | c # _ \<Rightarrow> uint c) \<and> ok s' \<and> pend s' = tl (pend s)"
proof -
  obtain s' where "rd s 1 = Some (s', int (length (take 1 (pend s))), take 1 (pend s))" "ok s'" "pend s' = drop 1 (pend s)"
    using read_law [OF assms] by blast
  then show ?thesis by (cases "pend s") (simp_all add: fgetc_unlocked_def)
qed

lemma fread_loop_eq:
  "ok s \<Longrightarrow> 0 < sz \<Longrightarrow>
    \<exists>s'. fread_loop rd sz n s p = Some (s', p + min n (length (pend s) div sz), take (sz * n) (pend s)) \<and>
      ok s' \<and> pend s' = drop (sz * n) (pend s)"
proof (induction n arbitrary: s p)
  case (Suc n)
  obtain s1 where s1: "rd s sz = Some (s1, int (length (take sz (pend s))), take sz (pend s))" "ok s1"
      "pend s1 = drop sz (pend s)"
    using read_law [OF Suc(2)] by blast
  show ?case
  proof (cases "length (pend s) < sz")
    case True
    then have "sz * Suc n \<ge> length (pend s)" by simp
    then show ?thesis using True s1 by simp
  next
    case False
    have d: "length (pend s) div sz = Suc (length (pend s1) div sz)"
      using False Suc(3) s1(3) by (simp add: le_div_geq)
    obtain s2 where "fread_loop rd sz n s1 (p + 1) = Some (s2, p + 1 + min n (length (pend s1) div sz), take (sz * n) (pend s1))"
        "ok s2" "pend s2 = drop (sz * n) (pend s1)"
      using Suc.IH [OF s1(2) Suc(3), of "p + 1"] by blast
    then show ?thesis using False s1 d by (simp add: take_add add.commute)
  qed
qed simp

end

text \<open>The bytes up to and including the first delimiter, or all of them.\<close>

fun line_of :: "u8 \<Rightarrow> u8 list \<Rightarrow> u8 list" where
  "line_of d [] = []"
| "line_of d (c # cs) = (if c = d then [c] else c # line_of d cs)"

lemma line_of_prefix: "\<exists>r. bs = line_of d bs @ r"
  by (induction bs) auto

lemma length_line_of: "length (line_of d bs) \<le> length bs"
  by (induction bs) auto

lemma uint_u8_eq_10: "uint (c :: u8) = 10 \<longleftrightarrow> c = 10" "uint (c :: u8) \<noteq> - 1"
proof -
  show "uint c = 10 \<longleftrightarrow> c = 10" by (simp add: word_uint_eq_iff)
  have "0 \<le> uint c" by simp
  then show "uint c \<noteq> - 1" by linarith
qed

lemma fgets_loop_step:
  assumes "ck32 (cnt - 1) = Some (cnt - 1)" and "i \<noteq> cnt - 1" and "fgetc_unlocked rd s = Some (s', c)"
  shows "fgets_loop rd str cnt i s m =
    (if c = EOF then
       (if i \<noteq> 0 then do { m' \<leftarrow> store m (str + nat i) 0; Some (s', m', Some str) } else Some (s', m, None))
     else do { m1 \<leftarrow> store m (str + nat i) (word_of_int c);
               if c = 10 then do { m2 \<leftarrow> store m1 (str + nat (i + 1)) 0; Some (s', m2, Some str) }
               else do { i' \<leftarrow> ck32 (i + 1); fgets_loop rd str cnt i' s' m1 } })"
  using assms(2) by (subst fgets_loop.simps) (simp add: assms(1,3))

context byte_source
begin

lemma fgets_loop_eq:
  "ok s \<Longrightarrow> 0 \<le> i \<Longrightarrow> cnt - 1 = i + int n \<Longrightarrow> cnt \<le> INT_MAX \<Longrightarrow>
    mapped m (str + nat i) (length (take n (line_of 10 (pend s))) + 1) \<Longrightarrow> i \<noteq> 0 \<or> n = 0 \<or> pend s \<noteq> [] \<Longrightarrow>
    \<exists>s'. fgets_loop rd str cnt i s m = Some (s', put m (str + nat i) (take n (line_of 10 (pend s)) @ [0]), Some str) \<and>
      ok s' \<and> pend s' = drop (length (take n (line_of 10 (pend s)))) (pend s)"
proof (induction n arbitrary: i s m)
  case 0
  then show ?case by (subst fgets_loop.simps) (simp add: ck32_def int32_ok_def mapped_Suc put_Cons)
next
  case (Suc n)
  obtain s1 where s1: "fgetc_unlocked rd s = Some (s1, case pend s of [] \<Rightarrow> EOF | c # _ \<Rightarrow> uint c)" "ok s1" "pend s1 = tl (pend s)"
    using fgetc_eq [OF Suc(2)] by blast
  have last: "ck32 (cnt - 1) = Some (cnt - 1)" "i \<noteq> cnt - 1" using Suc.prems by (simp_all add: ck32_def int32_ok_def)
  show ?case
  proof (cases "pend s")
    case Nil
    then have "fgetc_unlocked rd s = Some (s1, EOF)" using s1(1) by simp
    then show ?thesis unfolding fgets_loop_step [OF last \<open>fgetc_unlocked rd s = Some (s1, EOF)\<close>]
      using Nil s1(2,3) Suc.prems(5,6) by (auto simp: mapped_Suc put_Cons)
  next
    case (Cons c r)
    then have g: "fgetc_unlocked rd s = Some (s1, uint c)" using s1(1) by simp
    note step = fgets_loop_step [OF last g]
    have a: "m (str + nat i) \<noteq> None" using Suc.prems(5) Cons by (auto simp: mapped_Suc)
    show ?thesis
    proof (cases "c = 10")
      case True
      have "m (str + nat (i + 1)) \<noteq> None" using Suc.prems(2,5) Cons True by (auto simp: mapped_Suc nat_add_distrib)
      then show ?thesis unfolding step using True Cons s1(2,3) a Suc.prems(2) by (simp add: put_Cons nat_add_distrib fun_upd_def)
    next
      case False
      let ?m = "m(str + nat i \<mapsto> c)"
      have n: "nat (i + 1) = nat i + 1" using Suc.prems(2) by simp
      have map: "mapped ?m (str + nat (i + 1)) (length (take n (line_of 10 (pend s1))) + 1)"
        using Suc.prems(5) Cons False s1(3) n by (auto simp: mapped_Suc)
      have p: "0 \<le> i + 1" "cnt - 1 = i + 1 + int n" "i + 1 \<noteq> 0 \<or> n = 0 \<or> pend s1 \<noteq> []" using Suc.prems(2,3) by auto
      obtain s2 where s2: "fgets_loop rd str cnt (i + 1) s1 ?m =
            Some (s2, put ?m (str + nat (i + 1)) (take n (line_of 10 (pend s1)) @ [0]), Some str)"
          "ok s2" "pend s2 = drop (length (take n (line_of 10 (pend s1)))) (pend s1)"
        using Suc.IH [OF s1(2) p(1,2) Suc.prems(4) map p(3)] by blast
      have "fgets_loop rd str cnt i s m = fgets_loop rd str cnt (i + 1) s1 ?m"
        unfolding step using False a Suc.prems(2,3,4) uint_u8_eq_10 [of c] by (auto simp: ck32_def int32_ok_def)
      then show ?thesis using s2 Cons False s1(3) n by (simp add: put_Cons)
    qed
  qed
qed

lemma fgets_eq:
  assumes "ok s" and "0 < cnt" and "cnt \<le> INT_MAX"
  defines "data \<equiv> take (nat (cnt - 1)) (line_of 10 (pend s))"
  shows "cnt = 1 \<or> pend s \<noteq> [] \<Longrightarrow> mapped m str (length data + 1) \<Longrightarrow>
      \<exists>s'. fgets_unlocked rd m str cnt s = Some (s', put m str (data @ [0]), Some str, None) \<and>
        ok s' \<and> pend s' = drop (length data) (pend s)"
    and "cnt \<noteq> 1 \<Longrightarrow> pend s = [] \<Longrightarrow>
      \<exists>s'. fgets_unlocked rd m str cnt s = Some (s', m, None, None) \<and> ok s' \<and> pend s' = []"
proof -
  show "\<exists>s'. fgets_unlocked rd m str cnt s = Some (s', put m str (data @ [0]), Some str, None) \<and>
      ok s' \<and> pend s' = drop (length data) (pend s)" if "cnt = 1 \<or> pend s \<noteq> []" "mapped m str (length data + 1)"
    using fgets_loop_eq [OF assms(1), of 0 cnt "nat (cnt - 1)" m str] assms(2,3) that
    by (auto simp: fgets_unlocked_def data_def)
  show "\<exists>s'. fgets_unlocked rd m str cnt s = Some (s', m, None, None) \<and> ok s' \<and> pend s' = []" if "cnt \<noteq> 1" "pend s = []"
    using fgetc_eq [OF assms(1)] assms(2,3) that
    by (subst fgets_unlocked_def, subst fgets_loop.simps) (auto simp: ck32_def int32_ok_def)
qed


end

text \<open>What \<open>realloc\<close> promises when it succeeds: the new size and the old contents.\<close>

definition reallocates :: "(u8 list \<Rightarrow> nat \<Rightarrow> u8 list option) \<Rightarrow> bool" where
  "reallocates realloc \<longleftrightarrow> (\<forall>buf k. length buf \<le> k \<longrightarrow> (\<exists>ext. realloc buf k = Some (buf @ ext) \<and> length (buf @ ext) = k))"

definition grow_buffer :: "(u8 list \<Rightarrow> nat \<Rightarrow> u8 list option) \<Rightarrow> nat \<Rightarrow> u8 list \<Rightarrow> u8 list option" where
  "grow_buffer realloc cnt buf =
     (if length buf \<le> cnt + 1 then realloc buf (if length buf < 512 then 512 else length buf + length buf div 2) else Some buf)"

lemma grow_buffer_ok:
  assumes "reallocates realloc" and "cnt < length buf \<or> cnt = 0"
  shows "\<exists>ext. grow_buffer realloc cnt buf = Some (buf @ ext) \<and> cnt + 1 < length (buf @ ext)"
proof (cases "length buf \<le> cnt + 1")
  case True
  let ?k = "if length buf < 512 then 512 else length buf + length buf div 2"
  have "length buf \<le> ?k" by simp
  then obtain ext where "realloc buf ?k = Some (buf @ ext)" "length (buf @ ext) = ?k"
    using assms(1) unfolding reallocates_def by blast
  moreover have "cnt + 1 < ?k" using True assms(2) by auto
  ultimately show ?thesis using True by (simp add: grow_buffer_def)
qed (simp add: grow_buffer_def)

lemma upd_two: "i + 1 < length b \<Longrightarrow> b[i := x, i + 1 := y] = take i b @ [x, y] @ drop (i + 2) b"
proof -
  assume i: "i + 1 < length b"
  have "(l @ a # c # r)[length l := x, Suc (length l) := y] = l @ x # y # r" for l r and a c :: 'a
    by (simp add: list_update_append)
  from this [of "take i b" "b ! i" "b ! Suc i" "drop (Suc (Suc i)) b"] show ?thesis
    using i by (simp add: Cons_nth_drop_Suc id_take_nth_drop [symmetric])
qed

lemma getdelim_loop_step:
  assumes "fgetc_unlocked rd s = Some (s', uint c)" and "grow_buffer realloc cnt buf = Some buf1" and "cnt + 1 < length buf1"
  shows "getdelim_loop rd realloc delim cnt s buf =
    (if uint c = delim then Some (s', buf1[cnt := c, cnt + 1 := 0], int (cnt + 1), None)
     else getdelim_loop rd realloc delim (cnt + 1) s' (buf1[cnt := c]))"
proof -
  have g: "(if length buf \<le> cnt + 1 then realloc buf (if length buf < 512 then 512 else length buf + length buf div 2) else Some buf) = Some buf1"
    using assms(2) unfolding grow_buffer_def .
  have "uint c \<noteq> EOF" by (rule uint_u8_eq_10)
  then show ?thesis using assms(3)
    unfolding getdelim_loop.simps [of rd realloc delim cnt s buf] assms(1) Let_def g by auto
qed

context byte_source
begin

lemma getdelim_loop_eq:
  assumes re: "reallocates realloc"
  shows "ok s \<Longrightarrow> pend s = cs @ d # r \<Longrightarrow> d \<notin> set cs \<Longrightarrow> cnt < length buf \<or> cnt = 0 \<Longrightarrow>
    \<exists>s' ext. getdelim_loop rd realloc (uint d) cnt s buf =
        Some (s', take cnt buf @ cs @ [d, 0] @ ext, int (cnt + length cs + 1), None) \<and> ok s' \<and> pend s' = r"
proof (induction cs arbitrary: s cnt buf)
  case Nil
  obtain s1 where s1: "fgetc_unlocked rd s = Some (s1, uint d)" "ok s1" "pend s1 = r" using fgetc_eq [OF Nil(1)] Nil(2) by auto
  obtain ext where g: "grow_buffer realloc cnt buf = Some (buf @ ext)" "cnt + 1 < length (buf @ ext)"
    using grow_buffer_ok [OF re Nil(4)] by blast
  have "(buf @ ext)[cnt := d, cnt + 1 := 0] = take cnt buf @ [d, 0] @ drop (cnt + 2) (buf @ ext)"
    using upd_two [OF g(2), of d 0] Nil(4) by auto
  then show ?case using getdelim_loop_step [OF s1(1) g] s1 by simp
next
  case (Cons c cs)
  obtain s1 where s1: "fgetc_unlocked rd s = Some (s1, uint c)" "ok s1" "pend s1 = cs @ d # r"
    using fgetc_eq [OF Cons(2)] Cons(3) by auto
  obtain ext where g: "grow_buffer realloc cnt buf = Some (buf @ ext)" "cnt + 1 < length (buf @ ext)"
    using grow_buffer_ok [OF re Cons(5)] by blast
  have c: "uint c \<noteq> uint d" using Cons(4) by (auto simp: word_uint_eq_iff)
  obtain s2 ext2 where s2: "getdelim_loop rd realloc (uint d) (cnt + 1) s1 ((buf @ ext)[cnt := c]) =
      Some (s2, take (cnt + 1) ((buf @ ext)[cnt := c]) @ cs @ [d, 0] @ ext2, int (cnt + 1 + length cs + 1), None)" "ok s2" "pend s2 = r"
    using Cons.IH [OF s1(2,3), of "cnt + 1" "(buf @ ext)[cnt := c]"] Cons(4) g(2) by auto
  have "take (cnt + 1) ((buf @ ext)[cnt := c]) = take cnt buf @ [c]"
    using g(2) Cons(5) by (auto simp: take_Suc_conv_app_nth)
  then show ?case using getdelim_loop_step [OF s1(1) g, of "uint d"] c s2 by simp
qed

lemma getdelim_loop_eof:
  assumes re: "reallocates realloc"
  shows "ok s \<Longrightarrow> d \<notin> set (pend s) \<Longrightarrow> cnt < length buf \<or> cnt = 0 \<Longrightarrow>
    \<exists>s' buf'. getdelim_loop rd realloc (uint d) cnt s buf = Some (s', buf', - 1, Some EIO) \<and> ok s' \<and> pend s' = []"
proof (induction "pend s" arbitrary: s cnt buf)
  case Nil
  obtain s1 where s1: "fgetc_unlocked rd s = Some (s1, EOF)" "ok s1" "pend s1 = []" using fgetc_eq [OF Nil(2)] Nil(1) [symmetric] by auto
  then show ?case by (subst getdelim_loop.simps) simp
next
  case (Cons c cs)
  obtain s1 where s1: "fgetc_unlocked rd s = Some (s1, uint c)" "ok s1" "pend s1 = cs"
    using fgetc_eq [OF Cons(3)] Cons(2) [symmetric] by auto
  obtain ext where g: "grow_buffer realloc cnt buf = Some (buf @ ext)" "cnt + 1 < length (buf @ ext)"
    using grow_buffer_ok [OF re Cons(5)] by blast
  have c: "uint c \<noteq> uint d" using Cons(4) Cons(2) [symmetric] by (auto simp: word_uint_eq_iff)
  show ?case using getdelim_loop_step [OF s1(1) g, of "uint d"] c
      Cons(1) [OF s1(3) [symmetric] s1(2), of "cnt + 1" "(buf @ ext)[cnt := c]"] Cons(4) Cons(2) [symmetric] s1(3) g(2) by auto
qed

end

subsection \<open>String and descriptor files are sources\<close>

definition str_pend :: "u8 mem \<Rightarrow> FILE \<Rightarrow> u8 list" where
  "str_pend m f = pushed f @ map (\<lambda>i. the (m i)) [read_ptr f ..< read_end f]"

definition str_ok :: "u8 mem \<Rightarrow> FILE \<Rightarrow> bool" where
  "str_ok m f \<longleftrightarrow> unget_inv f \<and> mapped m (read_ptr f) (read_end f - read_ptr f)"

lemma read_cells_mapped: "mapped m p n \<Longrightarrow> read_cells m p n = Some (map (\<lambda>i. the (m i)) [p ..< p + n])"
proof (induction n arbitrary: p)
  case (Suc n)
  have "[p ..< p + Suc n] = p # [Suc p ..< Suc p + n]" by (simp add: upt_conv_Cons)
  then show ?case using Suc by (auto simp: mapped_Suc)
qed simp

lemma read_cells_at: "cells_at m p xs \<Longrightarrow> read_cells m p (length xs) = Some xs"
  by (induction xs arbitrary: p) auto

interpretation str_source: byte_source "str_file_read m" "str_pend m" "str_ok m" for m
proof
  fix f n
  assume ok: "str_ok m f"
  let ?f = "pop_pushed n f" and ?z = "n - length (pushed f)"
  let ?k = "min (read_end f - read_ptr f) ?z"
  have rp: "read_ptr ?f = read_ptr f" "read_end ?f = read_end f" by (simp_all add: pop_pushed_def)
  have m: "mapped m (read_ptr f) ?k" using ok by (auto simp: str_ok_def intro: mapped_mono)
  have u: "unget_loop f n = Some (?f, take n (pushed f), ?z)" using ok unget_loop_eq by (simp add: str_ok_def)
  let ?l = "map (\<lambda>i. the (m i))"
  have e: "?l [read_ptr f ..< read_ptr f + ?k] = take ?z (?l [read_ptr f ..< read_end f])"
    by (cases "read_ptr f \<le> read_end f") (simp_all add: take_map min_def)
  have rd: "str_file_read m f n = Some (?f\<lparr>read_ptr := read_ptr f + ?k\<rparr>, int ?k + int (length (take n (pushed f))),
      take n (pushed f) @ take ?z (?l [read_ptr f ..< read_end f]))"
    using read_cells_mapped [OF m] unfolding e by (simp add: str_file_read_def u rp Let_def)
  have "mapped m (read_ptr f + ?k) (read_end f - (read_ptr f + ?k))"
    using ok by (auto simp: str_ok_def intro!: mapped_shift)
  then have "str_ok m (?f\<lparr>read_ptr := read_ptr f + ?k\<rparr>)"
    using ok pop_pushed_inv by (simp add: str_ok_def rp)
  moreover have "str_pend m (?f\<lparr>read_ptr := read_ptr f + ?k\<rparr>) = drop n (str_pend m f)"
    using ok pop_pushed_inv [of f n] by (auto simp: str_ok_def str_pend_def rp drop_map min_def)
  ultimately show "\<exists>f'. str_file_read m f n = Some (f', int (length (take n (str_pend m f))), take n (str_pend m f)) \<and>
      str_ok m f' \<and> str_pend m f' = drop n (str_pend m f)"
    unfolding rd by (auto simp: str_pend_def min_def)
qed

text \<open>
  A regular file as the kernel documents it: a read returns the bytes at the offset, fewer only at
  the end, and a write takes all bytes.  \<open>rest\<close> are the bytes after the offset of descriptor \<open>fd\<close>,
  \<open>contents\<close> what was written to it.
\<close>

definition reads_file :: "'k sys_read \<Rightarrow> int \<Rightarrow> ('k \<Rightarrow> u8 list) \<Rightarrow> bool" where
  "reads_file sys_read fd rest \<longleftrightarrow>
     (\<forall>k n. \<exists>k'. sys_read k fd n = (k', Inr (take n (rest k))) \<and> rest k' = drop n (rest k))"

definition writes_file :: "'k sys_write \<Rightarrow> int \<Rightarrow> ('k \<Rightarrow> u8 list) \<Rightarrow> bool" where
  "writes_file sys_write fd contents \<longleftrightarrow>
     (\<forall>k bs. \<exists>k'. sys_write k fd bs = (k', Inr (int (length bs))) \<and> contents k' = contents k @ bs)"

definition fd_pend :: "('k \<Rightarrow> u8 list) \<Rightarrow> 'k \<times> FILE \<Rightarrow> u8 list" where
  "fd_pend rest s = pushed (snd s) @ rest (fst s)"

definition fd_ok :: "int \<Rightarrow> 'k \<times> FILE \<Rightarrow> bool" where
  "fd_ok fd s \<longleftrightarrow> unget_inv (snd s) \<and> file_fd (snd s) = fd"

lemma fd_file_read_eq:
  assumes "reads_file sys_read fd rest" and "unget_inv f" and "file_fd f = fd"
  shows "\<exists>k' f'. fd_file_read sys_read (k, f) n =
      Some ((k', f'), int (length (take n (pushed f @ rest k))), take n (pushed f @ rest k)) \<and>
    unget_inv f' \<and> file_fd f' = fd \<and> pushed f' = drop n (pushed f) \<and> rest k' = drop (n - length (pushed f)) (rest k) \<and>
    (feof_unlocked f' \<noteq> 0 \<longleftrightarrow> feof_unlocked f \<noteq> 0 \<or> length (pushed f @ rest k) < n)"
proof -
  let ?z = "n - length (pushed f)" and ?f = "pop_pushed n f"
  obtain k' where k': "sys_read k fd ?z = (k', Inr (take ?z (rest k)))" "rest k' = drop ?z (rest k)"
    using assms(1) unfolding reads_file_def by blast
  have fd: "file_fd ?f = fd" "file_flags ?f = file_flags f" using assms(3) by (simp_all add: pop_pushed_def)
  have len: "length (take ?z (rest k)) < ?z \<longleftrightarrow> length (pushed f @ rest k) < n" by auto
  have bits: "(x OR FILE_EOF_FLAG) AND FILE_EOF_FLAG \<noteq> 0" for x :: u32
    by (simp add: bit.conj_disj_distrib2)
  show ?thesis using unget_loop_eq [OF assms(2), of n] pop_pushed_inv [OF assms(2), of n] k' fd len
    by (auto simp: fd_file_read_def feof_unlocked_def bits)
qed

lemma fd_source:
  fixes sys_read :: "'k sys_read"
  assumes "reads_file sys_read fd rest"
  shows "byte_source (fd_file_read sys_read) (fd_pend rest) (fd_ok fd)"
proof
  fix s :: "'k \<times> FILE" and n
  assume "fd_ok fd s"
  moreover obtain k f where s: "s = (k, f)" by (cases s)
  ultimately have "unget_inv f" "file_fd f = fd" by (simp_all add: fd_ok_def)
  from fd_file_read_eq [OF assms this, of k n]
  show "\<exists>s'. fd_file_read sys_read s n = Some (s', int (length (take n (fd_pend rest s))), take n (fd_pend rest s)) \<and>
      fd_ok fd s' \<and> fd_pend rest s' = drop n (fd_pend rest s)"
    unfolding s by (auto simp: fd_ok_def fd_pend_def)
qed

definition fd_holds :: "('k \<Rightarrow> u8 list) \<Rightarrow> int \<Rightarrow> u8 list \<Rightarrow> 'k \<times> FILE \<Rightarrow> u8 list \<Rightarrow> bool" where
  "fd_holds contents fd start s out \<longleftrightarrow> file_fd (snd s) = fd \<and> contents (fst s) = start @ out"

lemma fd_sink:
  fixes sys_write :: "'k sys_write"
  assumes "writes_file sys_write fd contents"
  shows "byte_sink (fd_file_write sys_write) (fd_holds contents fd start) (\<lambda>_. True)"
proof
  fix s :: "'k \<times> FILE" and out bs
  assume h: "fd_holds contents fd start s out"
  obtain k f where s: "s = (k, f)" by (cases s)
  obtain k' where "sys_write k fd bs = (k', Inr (int (length bs)))" "contents k' = contents k @ bs"
    using assms unfolding writes_file_def by blast
  then show "\<exists>s'. fd_file_write sys_write s bs = Some (s', int (length bs)) \<and> fd_holds contents fd start s' (out @ bs)"
    using h by (simp add: s fd_file_write_def fd_holds_def)
qed simp

subsection \<open>A file is a byte stream with push-back\<close>

text \<open>The operations of a client, their results, and the stream as two lists: pushed back characters and the rest.\<close>

datatype file_op = OGetc | OUngetc u8 | ORead nat nat
datatype op_result = RChar int | RData nat "u8 list"

fun stream_op :: "file_op \<Rightarrow> u8 list \<times> u8 list \<Rightarrow> (u8 list \<times> u8 list) \<times> op_result" where
  "stream_op OGetc (p, r) =
     (case p @ r of [] \<Rightarrow> ((p, r), RChar EOF) | c # _ \<Rightarrow> ((drop 1 p, drop (1 - length p) r), RChar (uint c)))"
| "stream_op (OUngetc c) (p, r) =
     (if length p = UNGETC_MAX then ((p, r), RChar EOF) else ((c # p, r), RChar (uint c)))"
| "stream_op (ORead sz n) (p, r) =
     (if sz = 0 \<or> n = 0 then ((p, r), RData 0 [])
      else ((drop (sz * n) p, drop (sz * n - length p) r),
            RData (min n (length (p @ r) div sz)) (take (sz * n) (p @ r))))"

fun run_stream :: "file_op list \<Rightarrow> u8 list \<times> u8 list \<Rightarrow> (u8 list \<times> u8 list) \<times> op_result list" where
  "run_stream [] st = (st, [])"
| "run_stream (op # ops) st =
     (case stream_op op st of (st1, r) \<Rightarrow> case run_stream ops st1 of (st2, rs) \<Rightarrow> (st2, r # rs))"

definition run_op :: "'k sys_read \<Rightarrow> file_op \<Rightarrow> 'k \<times> FILE \<Rightarrow> (('k \<times> FILE) \<times> op_result) option" where
  "run_op sys_read op s =
     (case op of
        OGetc \<Rightarrow> do { (s', c) \<leftarrow> fgetc_unlocked (fd_file_read sys_read) s; Some (s', RChar c) }
      | OUngetc c \<Rightarrow> do { (f', r) \<leftarrow> ungetc (uint c) (snd s); Some ((fst s, f'), RChar r) }
      | ORead sz n \<Rightarrow> do { (s', k, bs) \<leftarrow> fread_unlocked (fd_file_read sys_read) sz n s; Some (s', RData k bs) })"

fun run_file :: "'k sys_read \<Rightarrow> file_op list \<Rightarrow> 'k \<times> FILE \<Rightarrow> (('k \<times> FILE) \<times> op_result list) option" where
  "run_file sys_read [] s = Some (s, [])"
| "run_file sys_read (op # ops) s =
     do { (s1, r) \<leftarrow> run_op sys_read op s; (s2, rs) \<leftarrow> run_file sys_read ops s1; Some (s2, r # rs) }"

lemma fread_loop_parts:
  assumes reg: "reads_file sys_read fd rest"
  shows "unget_inv f \<Longrightarrow> file_fd f = fd \<Longrightarrow> 0 < sz \<Longrightarrow>
    \<exists>k' f'. fread_loop (fd_file_read sys_read) sz n (k, f) p =
      Some ((k', f'), p + min n (length (pushed f @ rest k) div sz), take (sz * n) (pushed f @ rest k)) \<and>
    unget_inv f' \<and> file_fd f' = fd \<and> pushed f' = drop (sz * n) (pushed f) \<and> rest k' = drop (sz * n - length (pushed f)) (rest k)"
proof (induction n arbitrary: k f p)
  case (Suc n)
  define b where "b = pushed f @ rest k"
  obtain k1 f1 where s1: "fd_file_read sys_read (k, f) sz = Some ((k1, f1), int (length (take sz b)), take sz b)"
      "unget_inv f1" "file_fd f1 = fd" "pushed f1 = drop sz (pushed f)" "rest k1 = drop (sz - length (pushed f)) (rest k)"
    using fd_file_read_eq [OF reg Suc(2,3), of k sz] unfolding b_def by blast
  have b1: "pushed f1 @ rest k1 = drop sz b" using s1(4,5) by (simp add: b_def)
  show ?case
  proof (cases "length b < sz")
    case True
    moreover have "sz \<le> sz * Suc n" by simp
    ultimately show ?thesis using s1 unfolding b_def [symmetric] by (simp add: b_def)
  next
    case False
    have d: "length b div sz = Suc (length (drop sz b) div sz)" using False Suc(4) by (simp add: le_div_geq)
    obtain k2 f2 where s2: "fread_loop (fd_file_read sys_read) sz n (k1, f1) (p + 1) =
        Some ((k2, f2), p + 1 + min n (length (drop sz b) div sz), take (sz * n) (drop sz b))"
        "unget_inv f2" "file_fd f2 = fd" "pushed f2 = drop (sz * n) (pushed f1)" "rest k2 = drop (sz * n - length (pushed f1)) (rest k1)"
      using Suc.IH [OF s1(2,3) Suc(4), of k1 "p + 1"] b1 by metis
    have t: "take (sz * Suc n) b = take sz b @ take (sz * n) (drop sz b)"
      using take_add [of sz "sz * n" b] by (simp add: add.commute)
    have "sz * n - (length (pushed f) - sz) + (sz - length (pushed f)) = sz * Suc n - length (pushed f)" by simp
    then have "rest k2 = drop (sz * Suc n - length (pushed f)) (rest k)" using s1(4,5) s2(5) by (simp add: add.commute)
    then show ?thesis using False s1 s2 d unfolding b_def [symmetric] t by (simp add: add.commute)
  qed
qed simp

lemma run_op_stream:
  assumes reg: "reads_file sys_read fd rest" and "unget_inv f" and "file_fd f = fd"
  shows "\<exists>k' f'. run_op sys_read op (k, f) = Some ((k', f'), snd (stream_op op (pushed f, rest k))) \<and>
    unget_inv f' \<and> file_fd f' = fd \<and> (pushed f', rest k') = fst (stream_op op (pushed f, rest k))"
proof (cases op)
  case OGetc
  obtain k1 f1 where s1: "fd_file_read sys_read (k, f) 1 = Some ((k1, f1), int (length (take 1 (pushed f @ rest k))), take 1 (pushed f @ rest k))"
      "unget_inv f1" "file_fd f1 = fd" "pushed f1 = drop 1 (pushed f)" "rest k1 = drop (1 - length (pushed f)) (rest k)"
    using fd_file_read_eq [OF reg assms(2,3), of k 1] by blast
  then show ?thesis using OGetc
    by (cases "pushed f @ rest k") (auto simp: run_op_def fgetc_unlocked_def Cons_eq_append_conv)
next
  case (OUngetc c)
  show ?thesis
  proof (cases "ungetc_ptr f = UNGETC_MAX")
    case True
    then show ?thesis using OUngetc assms ungetc_full [OF assms(2) True] length_pushed [OF assms(2)] by (simp add: run_op_def)
  next
    case False
    then have "ungetc_ptr f < UNGETC_MAX" using assms(2) by (simp add: unget_inv_def)
    from ungetc_push [OF assms(2) this, of "uint c"] show ?thesis
      using False OUngetc assms(3) length_pushed [OF assms(2)] by (auto simp: run_op_def)
  qed
next
  case (ORead sz n)
  then show ?thesis using fread_loop_parts [OF reg assms(2,3), of sz n k 0] assms
    by (cases "sz = 0 \<or> n = 0") (auto simp: run_op_def fread_unlocked_def)
qed

subsection \<open>Properties\<close>

definition list_read :: "u8 list sys_read" where "list_read k fd n = (drop n k, Inr (take n k))"
definition list_write :: "u8 list sys_write" where "list_write k fd bs = (k @ bs, Inr (int (length bs)))"
definition zero_realloc :: "u8 list \<Rightarrow> nat \<Rightarrow> u8 list option" where "zero_realloc buf k = Some (buf @ replicate (k - length buf) 0)"

lemma list_file: "reads_file list_read fd (\<lambda>k. k)" "writes_file list_write fd (\<lambda>k. k)" "reallocates zero_realloc"
  by (simp_all add: reads_file_def list_read_def writes_file_def list_write_def reallocates_def zero_realloc_def)

text \<open>
  C26. A \<open>FILE\<close> over a regular file refines a byte stream with push-back: for every sequence of \<open>getc\<close>,
  \<open>ungetc\<close> and \<open>fread\<close> calls, the results are those of the abstract stream (the pushed back characters
  in reverse order before the rest of the file, a push-back failing exactly when 4096 characters are
  pending), no access leaves the push-back buffer, and the invariant of the buffer is kept.
\<close>

theorem file_refines_stream:
  assumes "reads_file sys_read fd rest" and "unget_inv f" and "file_fd f = fd"
  shows "\<exists>k' f'. run_file sys_read ops (k, f) = Some ((k', f'), snd (run_stream ops (pushed f, rest k))) \<and>
    unget_inv f' \<and> (pushed f', rest k') = fst (run_stream ops (pushed f, rest k))"
  using assms(2,3)
proof (induction ops arbitrary: k f)
  case (Cons op ops)
  obtain k1 f1 where s1: "run_op sys_read op (k, f) = Some ((k1, f1), snd (stream_op op (pushed f, rest k)))"
      "unget_inv f1" "file_fd f1 = fd" "(pushed f1, rest k1) = fst (stream_op op (pushed f, rest k))"
    using run_op_stream [OF assms(1) Cons(2,3), of op k] by blast
  obtain st r where st: "stream_op op (pushed f, rest k) = (st, r)" by (cases "stream_op op (pushed f, rest k)")
  obtain st2 rs where "run_stream ops st = (st2, rs)" by (cases "run_stream ops st")
  then show ?case using Cons.IH [OF s1(2,3), of k1] s1 st by auto
qed simp

theorem file_refines_stream_witness:
  "\<exists>k' f'. run_file list_read [OGetc, OUngetc 7, OUngetc 8, ORead 2 2, OGetc] ([1, 2, 3, 4], create_fd_file 5) =
     Some ((k', f'), [RChar 1, RChar 7, RChar 8, RData 2 [8, 7, 2, 3], RChar 4]) \<and> k' = [] \<and> pushed f' = []"
proof -
  let ?ops = "[OGetc, OUngetc 7, OUngetc 8, ORead 2 2, OGetc]"
  have "run_stream ?ops ([], [1, 2, 3, 4]) = (([], []), [RChar 1, RChar 7, RChar 8, RData 2 [8, 7, 2, 3], RChar 4])"
    by code_simp
  moreover have "file_fd (create_fd_file 5) = 5" by (simp add: create_fd_file_def)
  ultimately show ?thesis
    using file_refines_stream [OF list_file(1) [of 5], of "create_fd_file 5" ?ops "[1, 2, 3, 4]"]
    by (auto simp del: run_file.simps run_stream.simps)
qed

text \<open>
  \<open>fseek\<close> moves the push-back pointer to the start of its buffer but keeps the count of pushed back
  characters: after \<open>ungetc\<close> and a successful \<open>fseek\<close>, every read that asks for a byte reads before the buffer,
  which is undefined.  \<open>rewind\<close> and \<open>fsetpos\<close> reset both.
\<close>

theorem fseek_breaks_push_back:
  assumes "unget_inv f" and "ungetc_ptr f < UNGETC_MAX" and "ungetc c f = Some (f1, c)"
    and "sys_lseek k (file_fd f1) off origin = (k1, Inr pos)" and "fseek sys_lseek off origin (k, f1) = ((k2, f2), r)"
  shows "r = (0, None) \<and> fd_file_read sys_read (k2, f2) (Suc n) = None \<and>
    unget_inv (snd (fst (rewind sys_lseek (k, f1)))) \<and> pushed (snd (fst (rewind sys_lseek (k, f1)))) = []"
proof -
  have "ungetc_size f1 \<noteq> 0" using assms(1-3) by (auto simp: ungetc_def unget_inv_def split: if_splits)
  moreover have "length (ungetc_buffer f1) = UNGETC_MAX" using assms(1-3) by (auto simp: ungetc_def unget_inv_def split: if_splits)
  ultimately show ?thesis using assms(4,5)
    by (auto simp: fseek_def fd_file_read_def rewind_def unget_inv_def pushed_def split: prod.splits)
qed

theorem fseek_breaks_push_back_witness:
  "\<exists>f1 k2 f2. ungetc 65 (create_fd_file 3) = Some (f1, 65) \<and>
     fseek (\<lambda>k fd off origin. (k, Inr off)) 0 0 ([1, 2], f1) = ((k2, f2), (0, None)) \<and> fd_file_read list_read (k2, f2) 1 = None"
proof -
  obtain f1 where f1: "ungetc 65 (create_fd_file 3) = Some (f1, 65)"
    using ungetc_push [of "create_fd_file 3" 65] by (auto simp: create_fd_file_def unget_inv_def)
  obtain k2 f2 r where r: "fseek (\<lambda>k fd off origin. (k, Inr off)) 0 0 ([1, 2 :: u8], f1) = ((k2, f2), r)"
    by (metis surj_pair)
  show ?thesis
    using fseek_breaks_push_back [OF _ _ f1 _ r, of "[1, 2]" 0 list_read 0] f1 r by (auto simp: create_fd_file_def unget_inv_def)
qed

text \<open>
  C27. \<open>fgets\<close> on a regular file stores the next line up to and including its newline, cut to fit the buffer
  with its terminating zero, moves past exactly the bytes it stored, and returns a null pointer
  without touching the buffer when the file is at its end.
\<close>

theorem fgets_reads_line:
  assumes "reads_file sys_read fd rest" and "fd_ok fd s" and "1 < cnt" and "cnt \<le> INT_MAX"
    and "mapped m str (length (take (nat (cnt - 1)) (line_of 10 (fd_pend rest s))) + 1)"
  shows "\<exists>s'. fgets_unlocked (fd_file_read sys_read) m str cnt s =
      (if fd_pend rest s = [] then Some (s', m, None, None)
       else Some (s', put m str (take (nat (cnt - 1)) (line_of 10 (fd_pend rest s)) @ [0]), Some str, None)) \<and>
    fd_ok fd s' \<and> fd_pend rest s' = drop (length (take (nat (cnt - 1)) (line_of 10 (fd_pend rest s)))) (fd_pend rest s)"
proof -
  note src = fd_source [OF assms(1)]
  note eq = byte_source.fgets_eq [OF src assms(2) _ assms(4), where m = m and str = str]
  show ?thesis
  proof (cases "fd_pend rest s = []")
    case True
    then show ?thesis using eq(2) assms(3) by auto
  next
    case False
    then show ?thesis using eq(1) [OF _ _ assms(5)] assms(3) by simp
  qed
qed

theorem fgets_reads_line_witness:
  "\<exists>s'. fgets_unlocked (fd_file_read list_read) (mem_of 0 (replicate 8 0)) 0 8 ([104, 105, 10, 120], create_fd_file 3) =
      Some (s', put (mem_of 0 (replicate 8 0)) 0 [104, 105, 10, 0], Some 0, None) \<and> fd_pend (\<lambda>k. k) s' = [120]"
proof -
  have "mapped (mem_of 0 (replicate 8 (0 :: u8))) 0 (Suc (Suc (Suc (Suc 0))))" by (simp add: mapped_def mem_of_simp)
  moreover have "file_fd (create_fd_file 3) = 3" by (simp add: create_fd_file_def)
  ultimately show ?thesis
    using fgets_reads_line [OF list_file(1) [of 3], of "([104, 105, 10, 120], create_fd_file 3)" 8 "mem_of 0 (replicate 8 0)" 0]
    by (auto simp: fd_ok_def fd_pend_def)
qed

text \<open>
  C28. \<open>getdelim\<close> and \<open>getline\<close> return a line with its delimiter and a terminating zero, growing the buffer as
  needed.  A last line without delimiter is lost: the call reads it and reports an error as if nothing was there.
\<close>

theorem getdelim_line:
  assumes "reads_file sys_read fd rest" and "fd_ok fd s" and "reallocates realloc"
  shows "(fd_pend rest s = cs @ d # r \<and> d \<notin> set cs \<longrightarrow>
      (\<exists>s' ext. getdelim (fd_file_read sys_read) malloc realloc (uint d) (Some buf) True s =
         Some (s', Some (cs @ [d, 0] @ ext), int (length cs + 1), None) \<and> fd_ok fd s' \<and> fd_pend rest s' = r)) \<and>
    (d \<notin> set (fd_pend rest s) \<longrightarrow>
      (\<exists>s' buf'. getdelim (fd_file_read sys_read) malloc realloc (uint d) (Some buf) True s =
         Some (s', Some buf', - 1, Some EIO) \<and> fd_ok fd s' \<and> fd_pend rest s' = []))"
proof -
  note src = fd_source [OF assms(1)]
  have "\<exists>s' ext. getdelim (fd_file_read sys_read) malloc realloc (uint d) (Some buf) True s =
      Some (s', Some (cs @ [d, 0] @ ext), int (length cs + 1), None) \<and> fd_ok fd s' \<and> fd_pend rest s' = r"
    if "fd_pend rest s = cs @ d # r" "d \<notin> set cs"
    using byte_source.getdelim_loop_eq [OF src assms(3,2) that, of 0 buf] by (auto simp: getdelim_def)
  moreover have "\<exists>s' buf'. getdelim (fd_file_read sys_read) malloc realloc (uint d) (Some buf) True s =
      Some (s', Some buf', - 1, Some EIO) \<and> fd_ok fd s' \<and> fd_pend rest s' = []" if "d \<notin> set (fd_pend rest s)"
    using byte_source.getdelim_loop_eof [OF src assms(3,2) that, of 0 buf] by (auto simp: getdelim_def)
  ultimately show ?thesis by blast
qed

theorem getdelim_line_witness:
  "\<exists>s' buf'. getdelim (fd_file_read list_read) (\<lambda>n. None) zero_realloc 10 (Some []) True ([104, 105], create_fd_file 3) =
     Some (s', Some buf', - 1, Some EIO) \<and> fd_pend (\<lambda>k. k) s' = []"
  using getdelim_line [OF list_file(1) [of 3] _ list_file(3), of "([104, 105], create_fd_file 3)" "[]" 10 "[]" "\<lambda>n. None" "[]"]
  by (auto simp: fd_ok_def fd_pend_def create_fd_file_def unget_inv_def pushed_def)

text \<open>
  \<open>vdprintf\<close> to a file that takes all bytes appends exactly the text \<open>vsnprintf\<close> would format and returns
  the same value.
\<close>

theorem vdprintf_writes_text:
  assumes "writes_file sys_write fd contents" and "formatted to_int m wm fmt ap = Some (out, r)"
  shows "\<exists>s k f. vdprintf sys_write to_int fd m wm fmt ap k0 = Some (s, r) \<and> pf_file s = Some (k, f) \<and>
    contents k = contents k0 @ out"
proof -
  obtain t where t: "vfprintf collect to_int (Some []) m wm fmt ap = Some (t, r)" "pf_file t = Some out"
    using formatted_reference [OF assms(2)] by metis
  have "fd_holds contents fd (contents k0) (k0, create_fd_file fd) []" by (simp add: fd_holds_def create_fd_file_def)
  then show ?thesis using byte_sink.vfprintf_refines [OF fd_sink [OF assms(1)] t] unfolding vdprintf_def
    by (fastforce simp: fd_holds_def)
qed

theorem vdprintf_writes_text_witness:
  "\<exists>s k f. vdprintf list_write (\<lambda>_. (0, 0)) 1 Map.empty Map.empty (bytes ''n=%d%%'') [VInt 1234] [1] = Some (s, 7) \<and>
     pf_file s = Some (k, f) \<and> k = [1] @ bytes ''n=1234%''"
  using vdprintf_writes_text [OF list_file(2) formatted_sample] by blast

end
