(* ===== verification/Strtoint.thy ===== *)
theory Strtoint
  imports Wctype Cmem
begin

text \<open>
  Number parsing: the template \<open>str_to_int\<close> of \<^verbatim>\<open>src/ansi/str_to_int.hpp\<close>, its instances
  \<open>strtol\<close>, \<open>strtoul\<close> (and their \<open>long long\<close> twins) for \<open>char\<close> and \<open>wcstol\<close>, \<open>wcstoul\<close> for
  \<open>wchar_t\<close>, and \<open>atoi\<close>, \<open>atol\<close>, \<open>atoll\<close> of \<^verbatim>\<open>src/ansi/stdlib.cpp\<close>.

  The template is a definition with the character type as parameters: \<open>rd\<close> reads a character as a
  signed number, \<open>sp\<close> and \<open>lw\<close> are the template's \<open>isspace_helper\<close> and \<open>tolower_helper\<close>, and
  \<open>cst\<close> is the conversion to the character type.  The result is the value returned, the end
  pointer and the error stored in \<open>errno\<close>; \<open>None\<close> is undefined behaviour, such as
  the negation of the smallest value.
\<close>

subsection \<open>The template\<close>

definition isspace_char :: "int \<Rightarrow> int option" where "isspace_char c = isspace c"
definition isspace_wchar :: "int \<Rightarrow> int option" where "isspace_wchar c = iswspace (word_of_int c)"

definition to_char :: "int \<Rightarrow> int" where "to_char v = sint (word_of_int v :: u8)"
definition to_wchar :: "int \<Rightarrow> int" where "to_wchar v = sint (word_of_int v :: u32)"

definition tolower_char :: "int \<Rightarrow> int option" where "tolower_char c = map_option to_char (tolower c)"
definition tolower_wchar :: "int \<Rightarrow> int option" where
  "tolower_wchar c = map_option sint (towlower (word_of_int c))"

partial_function (option) skip_space :: "(int \<Rightarrow> int option) \<Rightarrow> (nat \<Rightarrow> int option) \<Rightarrow> nat \<Rightarrow> nat option" where
  "skip_space sp rd ptr =
     do { c \<leftarrow> rd ptr; s \<leftarrow> sp c; if s \<noteq> 0 then skip_space sp rd (ptr + 1) else Some ptr }"

definition read_sign :: "(nat \<Rightarrow> int option) \<Rightarrow> nat \<Rightarrow> (bool \<times> nat) option" where
  "read_sign rd ptr =
     do { c \<leftarrow> rd ptr;
          if c = 45 then Some (True, ptr + 1)
          else if c = 43 then Some (False, ptr + 1)
          else Some (False, ptr) }"

definition valid_char ::
    "(int \<Rightarrow> int option) \<Rightarrow> (int \<Rightarrow> int) \<Rightarrow> int \<Rightarrow> int \<Rightarrow> bool option" where
  "valid_char lw cst c base =
     (if base \<le> 10 then Some (48 \<le> c \<and> c \<le> cst (48 + base - 1))
      else if 48 \<le> c \<and> c \<le> 57 then Some True
      else do { l \<leftarrow> lw c; Some (97 \<le> l \<and> l \<le> cst (97 + (base - 10 - 1))) })"

text \<open>The test for a two-character prefix such as \<^verbatim>\<open>0x\<close>, with the condition on the third character.\<close>

definition has_prefix ::
    "(int \<Rightarrow> int option) \<Rightarrow> (nat \<Rightarrow> int option) \<Rightarrow> nat \<Rightarrow> int \<Rightarrow> (int \<Rightarrow> bool option) \<Rightarrow> bool option" where
  "has_prefix lw rd ptr letter third =
     do { c0 \<leftarrow> rd ptr;
          if c0 = 48 then
            do { c1 \<leftarrow> rd (ptr + 1); l \<leftarrow> lw c1;
                 if l = letter then do { c2 \<leftarrow> rd (ptr + 2); third c2 } else Some False }
          else Some False }"

definition read_prefix ::
    "(int \<Rightarrow> int option) \<Rightarrow> (int \<Rightarrow> int) \<Rightarrow> (nat \<Rightarrow> int option) \<Rightarrow> nat \<Rightarrow> int \<Rightarrow> (int \<times> nat) option" where
  "read_prefix lw cst rd ptr base =
     (if base = 0 then
        do { hex \<leftarrow> has_prefix lw rd ptr 120 (\<lambda>c. valid_char lw cst c 16);
             if hex then Some (16, ptr + 2)
             else do { bin \<leftarrow> has_prefix lw rd ptr 98 (\<lambda>c. valid_char lw cst c 2);
                       if bin then Some (2, ptr + 2)
                       else do { c \<leftarrow> rd ptr; Some (if c = 48 then (8, ptr + 1) else (10, ptr)) } } }
      else if base = 2 then
        do { bin \<leftarrow> has_prefix lw rd ptr 98 (\<lambda>c. Some (c \<noteq> 0)); Some (base, if bin then ptr + 2 else ptr) }
      else if base = 8 then
        do { c \<leftarrow> rd ptr; Some (base, if c = 48 then ptr + 1 else ptr) }
      else if base = 16 then
        do { hex \<leftarrow> has_prefix lw rd ptr 120 (\<lambda>c. Some (c \<noteq> 0)); Some (base, if hex then ptr + 2 else ptr) }
      else Some (base, ptr))"

definition max_value :: "bool \<Rightarrow> bool \<Rightarrow> u64" where
  "max_value signed_type sign =
     (if signed_type then (if sign then word_of_int (- (LONG_MIN + 1)) + 1 else word_of_int LONG_MAX)
      else - 1)"

definition digit_value :: "(int \<Rightarrow> int option) \<Rightarrow> int \<Rightarrow> int option" where
  "digit_value lw c = (if c \<le> 57 then Some (c - 48) else do { l \<leftarrow> lw c; Some (l - 97 + 10) })"

partial_function (option) read_digits ::
    "(int \<Rightarrow> int option) \<Rightarrow> (int \<Rightarrow> int) \<Rightarrow> (nat \<Rightarrow> int option) \<Rightarrow> int \<Rightarrow> u64 \<Rightarrow> nat \<Rightarrow> u64 \<Rightarrow> bool \<Rightarrow>
     (nat \<times> u64 \<times> bool) option" where
  "read_digits lw cst rd base maxv ptr value overflow =
     do { c \<leftarrow> rd ptr; valid \<leftarrow> valid_char lw cst c base;
          if valid then
            do { let value1 = value * word_of_int base;
                 let overflow1 = (overflow \<or> value1 div word_of_int base \<noteq> value \<or> value1 > maxv);
                 d \<leftarrow> digit_value lw c;
                 let value2 = value1 + word_of_int d;
                 read_digits lw cst rd base maxv (ptr + 1) value2
                   (overflow1 \<or> value2 < value1 \<or> value2 > maxv) }
          else Some (ptr, value, overflow) }"

definition str_to_int ::
    "bool \<Rightarrow> (int \<Rightarrow> int option) \<Rightarrow> (int \<Rightarrow> int option) \<Rightarrow> (int \<Rightarrow> int) \<Rightarrow> (nat \<Rightarrow> int option) \<Rightarrow> nat \<Rightarrow> int \<Rightarrow>
     (int \<times> nat \<times> errno option) option" where
  "str_to_int signed_type sp lw cst rd start base =
     do { after_space \<leftarrow> skip_space sp rd start;
          (sign, ptr1) \<leftarrow> read_sign rd after_space;
          (base', ptr2) \<leftarrow> read_prefix lw cst rd ptr1 base;
          (ptr, value, overflow) \<leftarrow>
            (if base' \<le> 36 then read_digits lw cst rd base' (max_value signed_type sign) ptr2 0 False
             else Some (ptr2, 0, False));
          let end_ptr = (if after_space \<noteq> ptr then ptr else start);
          if overflow then
            Some (if sign then (if signed_type then LONG_MIN else 0)
                  else (if signed_type then LONG_MAX else 2 ^ 64 - 1), end_ptr, Some ERANGE)
          else if signed_type then
            do { v \<leftarrow> (if sign then ck64 (- sint value) else Some (sint value)); Some (v, end_ptr, None) }
          else Some (uint (if sign then - value else value), end_ptr, None) }"

subsection \<open>Its instances\<close>

definition rd_char :: "u8 mem \<Rightarrow> nat \<Rightarrow> int option" where "rd_char m p = map_option sint (m p)"
definition rd_wchar :: "u32 mem \<Rightarrow> nat \<Rightarrow> int option" where "rd_wchar m p = map_option sint (m p)"

definition strtol :: "u8 mem \<Rightarrow> nat \<Rightarrow> int \<Rightarrow> (int \<times> nat \<times> errno option) option" where
  "strtol m p base = str_to_int True isspace_char tolower_char to_char (rd_char m) p base"

definition strtoul :: "u8 mem \<Rightarrow> nat \<Rightarrow> int \<Rightarrow> (int \<times> nat \<times> errno option) option" where
  "strtoul m p base = str_to_int False isspace_char tolower_char to_char (rd_char m) p base"

definition strtoll :: "u8 mem \<Rightarrow> nat \<Rightarrow> int \<Rightarrow> (int \<times> nat \<times> errno option) option" where
  "strtoll m p base = str_to_int True isspace_char tolower_char to_char (rd_char m) p base"

definition strtoull :: "u8 mem \<Rightarrow> nat \<Rightarrow> int \<Rightarrow> (int \<times> nat \<times> errno option) option" where
  "strtoull m p base = str_to_int False isspace_char tolower_char to_char (rd_char m) p base"

definition wcstol :: "u32 mem \<Rightarrow> nat \<Rightarrow> int \<Rightarrow> (int \<times> nat \<times> errno option) option" where
  "wcstol m p base = str_to_int True isspace_wchar tolower_wchar to_wchar (rd_wchar m) p base"

definition wcstoul :: "u32 mem \<Rightarrow> nat \<Rightarrow> int \<Rightarrow> (int \<times> nat \<times> errno option) option" where
  "wcstoul m p base = str_to_int False isspace_wchar tolower_wchar to_wchar (rd_wchar m) p base"

definition wcstoll :: "u32 mem \<Rightarrow> nat \<Rightarrow> int \<Rightarrow> (int \<times> nat \<times> errno option) option" where
  "wcstoll m p base = str_to_int True isspace_wchar tolower_wchar to_wchar (rd_wchar m) p base"

definition wcstoull :: "u32 mem \<Rightarrow> nat \<Rightarrow> int \<Rightarrow> (int \<times> nat \<times> errno option) option" where
  "wcstoull m p base = str_to_int False isspace_wchar tolower_wchar to_wchar (rd_wchar m) p base"

text \<open>The digit loop of \<open>atoi\<close> and its twins; \<open>ck\<close> checks the overflow of their type.\<close>

partial_function (option) ato_digits :: "(int \<Rightarrow> int option) \<Rightarrow> (nat \<Rightarrow> int option) \<Rightarrow> nat \<Rightarrow> int \<Rightarrow> int option" where
  "ato_digits ck rd ptr value =
     do { c \<leftarrow> rd ptr; d \<leftarrow> isdigit c;
          if d \<noteq> 0 then do { v1 \<leftarrow> ck (value * 10); v2 \<leftarrow> ck (v1 + (c - 48)); ato_digits ck rd (ptr + 1) v2 }
          else Some value }"

definition ato :: "(int \<Rightarrow> int option) \<Rightarrow> (nat \<Rightarrow> int option) \<Rightarrow> nat \<Rightarrow> int option" where
  "ato ck rd str =
     do { ptr \<leftarrow> skip_space isspace rd str; (sign, ptr1) \<leftarrow> read_sign rd ptr;
          value \<leftarrow> ato_digits ck rd ptr1 0; if sign then ck (value * - 1) else Some value }"

definition atoi :: "u8 mem \<Rightarrow> nat \<Rightarrow> int option" where "atoi m str = ato ck32 (rd_char m) str"
definition atol :: "u8 mem \<Rightarrow> nat \<Rightarrow> int option" where "atol m str = ato ck64 (rd_char m) str"
definition atoll :: "u8 mem \<Rightarrow> nat \<Rightarrow> int option" where "atoll m str = ato ck64 (rd_char m) str"

subsection \<open>Digits\<close>

text \<open>The value of a digit character; 36 for a character that is a digit in no base.\<close>

definition digit_of :: "int \<Rightarrow> int" where
  "digit_of c =
     (if 48 \<le> c \<and> c \<le> 57 then c - 48
      else if 97 \<le> c \<and> c \<le> 122 then c - 87
      else if 65 \<le> c \<and> c \<le> 90 then c - 55 else 36)"

definition num_of :: "int \<Rightarrow> int \<Rightarrow> int list \<Rightarrow> int" where
  "num_of base n ds = foldl (\<lambda>v c. v * base + digit_of c) n ds"

primrec chars_at :: "(nat \<Rightarrow> int option) \<Rightarrow> nat \<Rightarrow> int list \<Rightarrow> bool" where
  "chars_at rd p [] \<longleftrightarrow> True"
| "chars_at rd p (c # cs) \<longleftrightarrow> rd p = Some c \<and> chars_at rd (p + 1) cs"

lemma chars_at_append: "chars_at rd p (xs @ ys) \<longleftrightarrow> chars_at rd p xs \<and> chars_at rd (p + length xs) ys"
  by (induction xs arbitrary: p) auto

lemma digit_of_nonneg: "0 \<le> digit_of c" by (simp add: digit_of_def)

lemma num_of_mono: "1 \<le> base \<Longrightarrow> 0 \<le> n \<Longrightarrow> n \<le> num_of base n ds"
proof (induction ds arbitrary: n)
  case (Cons c ds)
  have "n * 1 \<le> n * base" using Cons.prems by (intro mult_left_mono) auto
  then have "n \<le> n * base + digit_of c" using digit_of_nonneg [of c] by linarith
  moreover have "n * base + digit_of c \<le> num_of base (n * base + digit_of c) ds"
    by (rule Cons.IH) (use Cons.prems calculation in linarith)+
  ultimately show ?case by (simp add: num_of_def)
qed (simp add: num_of_def)

text \<open>One step of the overflow detection: the flag says that the exact value exceeds the maximum.\<close>

lemma overflow_step:
  fixes v maxv :: u64
  assumes val: "uint v = n" and "2 \<le> b" and "b \<le> 36" and "0 \<le> d" and "d < b"
  defines "v1 \<equiv> v * word_of_int b" and "v2 \<equiv> v * word_of_int b + word_of_int d"
  shows "(v1 div word_of_int b \<noteq> v \<or> v1 > maxv \<or> v2 < v1 \<or> v2 > maxv \<longleftrightarrow> n * b + d > uint maxv) \<and>
    (n * b + d \<le> uint maxv \<longrightarrow> uint v2 = n * b + d)"
proof -
  have n: "0 \<le> n" using val uint_ge_0 [of v] by simp
  have ub: "uint (word_of_int b :: u64) = b" and ud: "uint (word_of_int d :: u64) = d"
    using assms by (simp_all add: uint_word_of_int)
  have m: "uint maxv < 2 ^ 64" using uint_lt2p [of maxv] by simp
  have u1: "uint v1 = (n * b) mod 2 ^ 64" using val ub by (simp add: v1_def uint_word_ariths)
  have u2: "uint v2 = (uint v1 + d) mod 2 ^ 64" using ud by (simp add: v1_def v2_def uint_word_ariths)
  show ?thesis
  proof (cases "n * b < 2 ^ 64")
    case False
    have "uint v1 < n * b" using u1 False zmod_le_nonneg_dividend [of "n * b"] pos_mod_bound [of "2 ^ 64" "n * b"] n assms by simp
    then have "uint v1 div b < n" using assms by (intro int_div_less_mult) auto
    then have "v1 div word_of_int b \<noteq> v" using val ub by (auto simp: uint_div)
    then show ?thesis using False m assms(4) by auto
  next
    case True
    have nb: "0 \<le> n * b" using n assms by simp
    have u1': "uint v1 = n * b" using u1 True nb by simp
    have q: "v1 div word_of_int b = v"
      using u1' val ub assms by (intro word_uint_eqI) (simp add: uint_div)
    show ?thesis
    proof (cases "n * b + d < 2 ^ 64")
      case fits: True
      then have "uint v2 = n * b + d" using u2 u1' nb assms(4) by simp
      then show ?thesis using q u1' assms(4) by (auto simp: word_less_def)
    next
      case wraps: False
      have "(n * b + d) mod 2 ^ 64 = n * b + d - 2 ^ 64"
        by (rule int_mod_pos_eq [where q = 1]) (use wraps True assms in auto)
      then have "uint v2 < uint v1" using u2 u1' assms by simp
      then show ?thesis using wraps m by (simp add: word_less_def)
    qed
  qed
qed

subsection \<open>The contract of a character type\<close>

text \<open>
  What the parser needs of the helpers of its character type, for the characters between \<open>lo\<close> and
  \<open>hi\<close>: they answer, only ASCII spaces are spaces, exactly the ASCII letters have an ASCII letter as
  their lower case, and the conversion keeps ASCII values.
\<close>

locale number_chars =
  fixes sp lw :: "int \<Rightarrow> int option" and cst :: "int \<Rightarrow> int" and lo hi :: int
  assumes space_law: "lo \<le> c \<Longrightarrow> c \<le> hi \<Longrightarrow> \<exists>v. sp c = Some v \<and> (v \<noteq> 0 \<longleftrightarrow> c = 32 \<or> 9 \<le> c \<and> c \<le> 13)"
    and lower_law: "lo \<le> c \<Longrightarrow> c \<le> hi \<Longrightarrow> \<exists>l. lw c = Some l \<and>
      (if 65 \<le> c \<and> c \<le> 90 then l = c + 32 else if 97 \<le> c \<and> c \<le> 122 then l = c else l < 97 \<or> 122 < l)"
    and cst_law: "0 \<le> v \<Longrightarrow> v \<le> 127 \<Longrightarrow> cst v = v"
    and ascii_range: "lo \<le> 0" "127 \<le> hi"
begin

definition ok :: "int \<Rightarrow> bool" where "ok c \<longleftrightarrow> lo \<le> c \<and> c \<le> hi"

lemma valid_char_eq:
  assumes "ok c" and "2 \<le> base" and "base \<le> 36"
  shows "valid_char lw cst c base = Some (digit_of c < base)"
proof -
  obtain l where l: "lw c = Some l"
      "if 65 \<le> c \<and> c \<le> 90 then l = c + 32 else if 97 \<le> c \<and> c \<le> 122 then l = c else l < 97 \<or> 122 < l"
    using lower_law assms(1) unfolding ok_def by blast
  show ?thesis
  proof (cases "base \<le> 10")
    case True
    then have "cst (48 + base - 1) = 48 + base - 1" using assms by (intro cst_law) auto
    then show ?thesis using True assms by (auto simp: valid_char_def digit_of_def)
  next
    case False
    then have "cst (97 + (base - 10 - 1)) = 97 + (base - 10 - 1)" using assms by (intro cst_law) auto
    then show ?thesis using False assms l
      by (auto simp: valid_char_def digit_of_def split: if_splits)
  qed
qed

lemma digit_value_eq:
  assumes "ok c" and "digit_of c < 36"
  shows "digit_value lw c = Some (digit_of c)"
proof -
  obtain l where "lw c = Some l"
      "if 65 \<le> c \<and> c \<le> 90 then l = c + 32 else if 97 \<le> c \<and> c \<le> 122 then l = c else l < 97 \<or> 122 < l"
    using lower_law assms(1) unfolding ok_def by blast
  then show ?thesis using assms(2) by (auto simp: digit_value_def digit_of_def split: if_splits)
qed

lemma skip_space_eq:
  "chars_at rd p (ws @ [c]) \<Longrightarrow> \<forall>w \<in> set ws. w = 32 \<or> 9 \<le> w \<and> w \<le> 13 \<Longrightarrow> \<forall>w \<in> set ws. ok w \<Longrightarrow> ok c \<Longrightarrow>
   \<not> (c = 32 \<or> 9 \<le> c \<and> c \<le> 13) \<Longrightarrow> skip_space sp rd p = Some (p + length ws)"
proof (induction ws arbitrary: p)
  case Nil
  then obtain v where "sp c = Some v" "v = 0" using space_law [of c] unfolding ok_def by blast
  then show ?case using Nil by (subst skip_space.simps) simp
next
  case (Cons w ws)
  then obtain v where "sp w = Some v" "v \<noteq> 0" using space_law [of w] unfolding ok_def by (meson list.set_intros(1))
  then show ?case using Cons by (subst skip_space.simps) simp
qed

lemma read_digits_eq:
  assumes "2 \<le> base" and "base \<le> 36"
  shows "chars_at rd p (ds @ [stop]) \<Longrightarrow> \<forall>d \<in> set ds. ok d \<and> digit_of d < base \<Longrightarrow> ok stop \<Longrightarrow> base \<le> digit_of stop \<Longrightarrow>
    0 \<le> n \<Longrightarrow> (overflow \<longleftrightarrow> uint maxv < n) \<Longrightarrow> (\<not> overflow \<longrightarrow> uint v = n) \<Longrightarrow>
    \<exists>v'. read_digits lw cst rd base maxv p v overflow = Some (p + length ds, v', uint maxv < num_of base n ds) \<and>
      (num_of base n ds \<le> uint maxv \<longrightarrow> uint v' = num_of base n ds)"
proof (induction ds arbitrary: p v n overflow)
  case Nil
  then have "valid_char lw cst stop base = Some False" using valid_char_eq assms by simp
  then show ?case using Nil by (subst read_digits.simps) (auto simp: num_of_def)
next
  case (Cons d ds)
  let ?v1 = "v * word_of_int base" and ?v2 = "v * word_of_int base + word_of_int (digit_of d)"
  let ?ov = "(overflow \<or> ?v1 div word_of_int base \<noteq> v \<or> ?v1 > maxv) \<or> ?v2 < ?v1 \<or> ?v2 > maxv"
  let ?n = "n * base + digit_of d"
  have d: "ok d" "digit_of d < base" "0 \<le> digit_of d" using Cons.prems(2) digit_of_nonneg by auto
  have step: "read_digits lw cst rd base maxv p v overflow = read_digits lw cst rd base maxv (p + 1) ?v2 ?ov"
    using Cons.prems(1) d assms valid_char_eq [of d base] digit_value_eq [of d]
    by (subst read_digits.simps) (simp add: Let_def)
  have "(?ov \<longleftrightarrow> uint maxv < ?n) \<and> (\<not> ?ov \<longrightarrow> uint ?v2 = ?n)"
  proof (cases overflow)
    case True
    have "n * 1 \<le> n * base" using Cons.prems(5) assms by (intro mult_left_mono) auto
    then show ?thesis using True Cons.prems(6) d by auto
  next
    case False
    then show ?thesis
      using overflow_step [of v n base "digit_of d" maxv] Cons.prems(7) assms d by auto
  qed
  moreover have "0 \<le> ?n" using Cons.prems(5) assms d by simp
  ultimately obtain v' where
    "read_digits lw cst rd base maxv (p + 1) ?v2 ?ov = Some (p + 1 + length ds, v', uint maxv < num_of base ?n ds)"
    "num_of base ?n ds \<le> uint maxv \<longrightarrow> uint v' = num_of base ?n ds"
    using Cons.IH [of "p + 1" ?n ?ov ?v2] Cons.prems(1-4) by auto
  then show ?case unfolding step by (simp add: num_of_def)
qed

end

subsection \<open>What a number denotes\<close>

text \<open>
  The prefixes a number in the given base may have, and the base its digits are then read in.  Without
  a prefix the digits of base 0, 2, 8 and 16 do not start with a zero.
\<close>

definition number_prefix :: "int \<Rightarrow> int \<Rightarrow> int list \<Rightarrow> int list \<Rightarrow> bool" where
  "number_prefix base base' pre ds \<longleftrightarrow>
     2 \<le> base \<and> base \<le> 36 \<and> base \<notin> {2, 8, 16} \<and> base' = base \<and> pre = [] \<or>
     base \<in> {0, 16} \<and> base' = 16 \<and> pre \<in> {[48, 120], [48, 88]} \<or>
     base \<in> {0, 2} \<and> base' = 2 \<and> pre \<in> {[48, 98], [48, 66]} \<or>
     base \<in> {0, 8} \<and> base' = 8 \<and> pre = [48] \<or>
     base = 0 \<and> base' = 10 \<and> pre = [] \<and> hd ds \<noteq> 48 \<or>
     base \<in> {2, 8, 16} \<and> base' = base \<and> pre = [] \<and> hd ds \<noteq> 48"

text \<open>The value and the error for a sign and the exact value of the digits.\<close>

definition int_result :: "bool \<Rightarrow> bool \<Rightarrow> int \<Rightarrow> (int \<times> errno option) option" where
  "int_result signed_type sign n =
     (if signed_type then
        (if sign then
           (if n \<le> LONG_MAX then Some (- n, None)
            else if n = LONG_MAX + 1 then None
            else Some (LONG_MIN, Some ERANGE))
         else if n \<le> LONG_MAX then Some (n, None) else Some (LONG_MAX, Some ERANGE))
      else
        (if n < 2 ^ 64 then Some (if sign then (- n) mod 2 ^ 64 else n, None)
         else Some (if sign then 0 else 2 ^ 64 - 1, Some ERANGE)))"

definition sign_chars :: "int list \<Rightarrow> bool \<Rightarrow> bool" where
  "sign_chars sg sign \<longleftrightarrow> sg = [45] \<and> sign \<or> sg \<in> {[], [43]} \<and> \<not> sign"

lemma uint_max_value:
  "uint (max_value signed_type sign) =
    (if signed_type then (if sign then LONG_MAX + 1 else LONG_MAX) else 2 ^ 64 - 1)"
  using unsigned_minus_1_eq_mask [where 'a = int and 'b = 64] by (simp add: max_value_def mask_eq_exp_minus_1)

lemma finish_number:
  fixes v :: u64
  assumes "n \<le> uint (max_value signed_type sign) \<longrightarrow> uint v = n" and "0 \<le> n"
  shows "(if uint (max_value signed_type sign) < n then
            Some (if sign then (if signed_type then LONG_MIN else 0)
                  else (if signed_type then LONG_MAX else 2 ^ 64 - 1), e, Some ERANGE)
          else if signed_type then
            do { r \<leftarrow> (if sign then ck64 (- sint v) else Some (sint v)); Some (r, e, None) }
          else Some (uint (if sign then - v else v), e, None)) =
    map_option (\<lambda>(r, err). (r, e, err)) (int_result signed_type sign n)"
proof (cases "uint (max_value signed_type sign) < n")
  case True
  then show ?thesis using assms(2)
    by (auto simp: uint_max_value int_result_def split: if_splits)
next
  case False
  then have v: "uint v = n" using assms(1) by simp
  show ?thesis
  proof (cases signed_type)
    case True
    have s: "sint v = (if n \<le> LONG_MAX then n else n - 2 ^ 64)"
      using v by (simp add: sint_u64_eq)
    show ?thesis using False True s assms(2)
      by (auto simp: uint_max_value int_result_def ck64_def int64_ok_def split: if_splits)
  next
    case unsigned: False
    have "uint (- v) = (- n) mod 2 ^ 64" using v by (simp add: uint_word_ariths)
    then show ?thesis using False unsigned v by (auto simp: uint_max_value int_result_def)
  qed
qed

context number_chars
begin

lemma has_prefix_eq:
  assumes "rd p = Some 48" and "rd (p + 1) = Some c1" and "ok c1" and "rd (p + 2) = Some c2" and "letter \<in> {98, 120}"
  shows "has_prefix lw rd p letter third = (if c1 = letter \<or> c1 = letter - 32 then third c2 else Some False)"
proof -
  obtain l where "lw c1 = Some l"
      "if 65 \<le> c1 \<and> c1 \<le> 90 then l = c1 + 32 else if 97 \<le> c1 \<and> c1 \<le> 122 then l = c1 else l < 97 \<or> 122 < l"
    using lower_law assms(3) unfolding ok_def by blast
  then show ?thesis using assms by (auto simp: has_prefix_def split: if_splits)
qed

lemma has_prefix_no: "rd p = Some c \<Longrightarrow> c \<noteq> 48 \<Longrightarrow> has_prefix lw rd p letter third = Some False"
  by (simp add: has_prefix_def)

lemma read_prefix_eq:
  assumes "chars_at rd p (pre @ ds @ [stop])" and "number_prefix base base' pre ds" and "ds \<noteq> []"
    and "\<forall>d \<in> set ds. ok d \<and> digit_of d < base'" and "ok stop"
  shows "read_prefix lw cst rd p base = Some (base', p + length pre)"
proof -
  obtain d es where ds: "ds = d # es" using assms(3) by (cases ds) auto
  obtain c2 where c2: "chars_at rd (p + length pre) [d, c2]" "ok c2"
    using assms(1,4,5) ds by (cases es) (auto simp: chars_at_append)
  have pre: "chars_at rd p pre" using assms(1) by (simp add: chars_at_append)
  have d: "ok d" "digit_of d < base'" using assms(4) ds by auto
  have x: "ok 120" "ok 98" "ok 88" "ok 66" using ascii_range by (auto simp: ok_def)
  have v: "valid_char lw cst d 16 = Some (digit_of d < 16)" "valid_char lw cst d 2 = Some (digit_of d < 2)"
    using valid_char_eq [OF d(1)] by auto
  have nul: "d \<noteq> 0" using d(2) assms(2) by (auto simp: digit_of_def number_prefix_def)
  consider "base \<notin> {0, 2, 8, 16}" "base' = base" "pre = []"
    | "base \<in> {0, 16}" "base' = 16" "pre \<in> {[48, 120], [48, 88]}"
    | "base \<in> {0, 2}" "base' = 2" "pre \<in> {[48, 98], [48, 66]}"
    | "base \<in> {0, 8}" "base' = 8" "pre = [48]"
    | "base' = (if base = 0 then 10 else base)" "pre = []" "d \<noteq> 48" "base \<in> {0, 2, 8, 16}"
    using assms(2) ds by (auto simp: number_prefix_def)
  then show ?thesis
  proof cases
    case 1
    then show ?thesis by (simp add: read_prefix_def)
  next
    case 2
    have "has_prefix lw rd p 120 third = third d" for third
      using has_prefix_eq [of rd p "pre ! 1" d 120 third] pre c2(1) x 2(3) by (auto simp: numeral_2_eq_2)
    then show ?thesis using 2 v d(2) nul by (auto simp: read_prefix_def)
  next
    case 3
    have "has_prefix lw rd p 98 third = third d" "has_prefix lw rd p 120 third = Some False" for third
      using has_prefix_eq [of rd p "pre ! 1" d 98 third] has_prefix_eq [of rd p "pre ! 1" d 120 third] pre c2(1) x 3(3)
      by (auto simp: numeral_2_eq_2)
    then show ?thesis using 3 v d(2) nul by (auto simp: read_prefix_def)
  next
    case 4
    have "d \<notin> {120, 98, 88, 66}" using d(2) 4 by (auto simp: digit_of_def)
    then have "has_prefix lw rd p 120 third = Some False" "has_prefix lw rd p 98 third = Some False" for third
      using has_prefix_eq [of rd p d c2 120 third] has_prefix_eq [of rd p d c2 98 third] pre c2(1) d(1) 4(3)
      by (auto simp: numeral_2_eq_2)
    then show ?thesis using 4 pre by (auto simp: read_prefix_def)
  next
    case 5
    then have "rd p = Some d" using c2(1) by simp
    then show ?thesis using 5 has_prefix_no [of rd p d] by (auto simp: read_prefix_def)
  qed
qed

end

text \<open>
  A number in memory: white space, an optional sign, an optional prefix, at least one digit, and a
  character that does not continue it.
\<close>

definition number_at ::
    "(nat \<Rightarrow> int option) \<Rightarrow> nat \<Rightarrow> int \<Rightarrow> int list \<Rightarrow> int list \<Rightarrow> int list \<Rightarrow> int list \<Rightarrow> int \<Rightarrow> int \<Rightarrow> bool" where
  "number_at rd p base ws sg pre ds stop base' \<longleftrightarrow>
     chars_at rd p (ws @ sg @ pre @ ds @ [stop]) \<and>
     list_all (\<lambda>w. w = 32 \<or> 9 \<le> w \<and> w \<le> 13) ws \<and> number_prefix base base' pre ds \<and>
     ds \<noteq> [] \<and> list_all (\<lambda>d. digit_of d < base') ds \<and> base' \<le> digit_of stop"

lemma chars_at_all: "chars_at rd p cs \<Longrightarrow> \<forall>p c. rd p = Some c \<longrightarrow> P c \<Longrightarrow> list_all P cs"
  by (induction cs arbitrary: p) auto

lemma number_prefix_base: "number_prefix base base' pre ds \<Longrightarrow> 2 \<le> base' \<and> base' \<le> 36"
  by (auto simp: number_prefix_def)

lemma digit_of_cases: "digit_of d < 36 \<Longrightarrow> 48 \<le> d \<and> d \<le> 57 \<or> 65 \<le> d \<and> d \<le> 90 \<or> 97 \<le> d \<and> d \<le> 122"
  by (auto simp: digit_of_def split: if_splits)

lemma first_of_number:
  assumes "number_prefix base base' pre ds" and "ds \<noteq> []" and "list_all (\<lambda>d. digit_of d < base') ds"
  shows "\<exists>c cs. pre @ ds @ [stop] = c # cs \<and> (48 \<le> c \<and> c \<le> 57 \<or> 65 \<le> c \<and> c \<le> 90 \<or> 97 \<le> c \<and> c \<le> 122)"
proof -
  obtain d es where ds: "ds = d # es" using assms(2) by (cases ds) auto
  have "digit_of d < 36" using assms(3) ds number_prefix_base [OF assms(1)] by simp
  then show ?thesis using assms(1) ds digit_of_cases [of d] by (auto simp: number_prefix_def)
qed

context number_chars
begin

lemma skip_and_sign:
  assumes num: "number_at rd p base ws sg pre ds stop base'" and sg: "sign_chars sg sign"
    and rd: "\<forall>p c. rd p = Some c \<longrightarrow> ok c"
  shows "skip_space sp rd p = Some (p + length ws)"
    and "read_sign rd (p + length ws) = Some (sign, p + length ws + length sg)"
proof -
  have oks: "list_all ok (ws @ sg @ pre @ ds @ [stop])"
    using num rd chars_at_all [where P = ok] unfolding number_at_def by blast
  note N = num [unfolded number_at_def]
  obtain c cs where c: "pre @ ds @ [stop] = c # cs" "48 \<le> c \<and> c \<le> 57 \<or> 65 \<le> c \<and> c \<le> 90 \<or> 97 \<le> c \<and> c \<le> 122"
    using first_of_number [of base base' pre ds stop] N by blast
  obtain f fs where f: "sg @ pre @ ds @ [stop] = f # fs" "f \<in> {43, 45} \<or> f = c" "f = 45 \<longleftrightarrow> sg = [45]" "f = 43 \<longleftrightarrow> sg = [43]"
    using sg c by (auto simp: sign_chars_def)
  have "chars_at rd (p + length ws) (sg @ pre @ ds @ [stop])" and ws: "chars_at rd p ws"
    using num by (simp_all add: number_at_def chars_at_append)
  then have rf: "rd (p + length ws) = Some f" unfolding f(1) by simp
  have "list_all ok (sg @ pre @ ds @ [stop])" using oks by simp
  then have okf: "ok f" unfolding f(1) by simp
  have spaces: "\<forall>w \<in> set ws. w = 32 \<or> 9 \<le> w \<and> w \<le> 13" "\<forall>w \<in> set ws. ok w"
    using num oks by (auto simp: number_at_def list_all_iff)
  have "\<not> (f = 32 \<or> 9 \<le> f \<and> f \<le> 13)" using f(2) c(2) by auto
  then show "skip_space sp rd p = Some (p + length ws)"
    using skip_space_eq [of rd p ws f] ws rf spaces okf by (simp add: chars_at_append)
  show "read_sign rd (p + length ws) = Some (sign, p + length ws + length sg)"
    using rf f(3,4) sg by (auto simp: read_sign_def sign_chars_def)
qed

lemma str_to_int_eq:
  assumes num: "number_at rd p base ws sg pre ds stop base'" and sg: "sign_chars sg sign"
    and rd: "\<forall>p c. rd p = Some c \<longrightarrow> ok c"
  shows "str_to_int signed_type sp lw cst rd p base =
    map_option (\<lambda>(r, err). (r, p + length (ws @ sg @ pre @ ds), err)) (int_result signed_type sign (num_of base' 0 ds))"
proof -
  have oks: "list_all ok (ws @ sg @ pre @ ds @ [stop])"
    using num rd chars_at_all [where P = ok] unfolding number_at_def by blast
  note N = num [unfolded number_at_def] oks [unfolded list_all_append]
  note skip = skip_and_sign(1) [OF num sg rd] and sign = skip_and_sign(2) [OF num sg rd]
  have b: "2 \<le> base'" "base' \<le> 36" using N number_prefix_base by blast+
  have prefix: "read_prefix lw cst rd (p + length ws + length sg) base =
      Some (base', p + length ws + length sg + length pre)"
    by (rule read_prefix_eq [of _ _ _ ds stop]) (use N in \<open>auto simp: chars_at_append list_all_iff add.assoc\<close>)
  obtain v where v: "read_digits lw cst rd base' (max_value signed_type sign) (p + length ws + length sg + length pre) 0 False =
      Some (p + length ws + length sg + length pre + length ds, v, uint (max_value signed_type sign) < num_of base' 0 ds)"
      "num_of base' 0 ds \<le> uint (max_value signed_type sign) \<longrightarrow> uint v = num_of base' 0 ds"
    using read_digits_eq [OF b, of rd "p + length ws + length sg + length pre" ds stop 0 False "max_value signed_type sign" 0] N
    by (auto simp: chars_at_append list_all_iff add.assoc)
  have ne: "p + length ws \<noteq> p + length ws + length sg + length pre + length ds" using N by simp
  have nn: "0 \<le> num_of base' 0 ds" using num_of_mono [of base' 0 ds] b by simp
  define q0 q1 q2 q3 where "q0 = p + length ws" and "q1 = q0 + length sg" and "q2 = q1 + length pre" and "q3 = q2 + length ds"
  note q = q0_def q1_def q2_def q3_def
  have steps: "skip_space sp rd p = Some q0" "read_sign rd q0 = Some (sign, q1)" "read_prefix lw cst rd q1 base = Some (base', q2)"
      "read_digits lw cst rd base' (max_value signed_type sign) q2 0 False =
        Some (q3, v, uint (max_value signed_type sign) < num_of base' 0 ds)" "q0 \<noteq> q3"
    using skip sign prefix v(1) ne by (simp_all only: q not_False_eq_True)
  have "str_to_int signed_type sp lw cst rd p base =
      map_option (\<lambda>(r, err). (r, q3, err)) (int_result signed_type sign (num_of base' 0 ds))"
    unfolding finish_number [OF v(2) nn, symmetric] str_to_int_def steps(1-3) bind.bind_lunit prod.case
    using b(2) steps(4,5) by (simp add: Let_def)
  moreover have "q3 = p + length (ws @ sg @ pre @ ds)" by (simp add: q)
  ultimately show ?thesis by (simp only:)
qed

end

interpretation char: number_chars isspace_char tolower_char to_char "- 128" 127
proof
  fix c :: int
  assume c: "- 128 \<le> c" "c \<le> 127"
  then show "\<exists>v. isspace_char c = Some v \<and> (v \<noteq> 0 \<longleftrightarrow> c = 32 \<or> 9 \<le> c \<and> c \<le> 13)"
    by (simp add: isspace_char_def isspace_eq)
  have "to_char v = (if v < 128 then v else v - 256)" if "0 \<le> v" "v < 256" for v
    using that by (auto simp: to_char_def sint_u8_eq uint_word_of_int)
  moreover have "to_char (- 1) = - 1" by (simp add: to_char_def)
  ultimately show "\<exists>l. tolower_char c = Some l \<and>
      (if 65 \<le> c \<and> c \<le> 90 then l = c + 32 else if 97 \<le> c \<and> c \<le> 122 then l = c else l < 97 \<or> 122 < l)"
    using c by (cases "c = - 1") (auto simp: tolower_char_def tolower_eq)
next
  fix v :: int
  assume "0 \<le> v" "v \<le> 127"
  then show "to_char v = v" by (simp add: to_char_def sint_u8_eq uint_word_of_int)
qed simp_all

interpretation wchar: number_chars isspace_wchar tolower_wchar to_wchar "- 0x80000000" "0x7FFFFFFF"
proof
  fix c :: int
  assume c: "- 0x80000000 \<le> c" "c \<le> 0x7FFFFFFF"
  then show "\<exists>v. isspace_wchar c = Some v \<and> (v \<noteq> 0 \<longleftrightarrow> c = 32 \<or> 9 \<le> c \<and> c \<le> 13)"
    by (simp add: isspace_wchar_def iswspace_int)
  have "sint (word_of_int v :: u32) = v" if "0 \<le> v" "v \<le> 127" for v
    using that by (simp add: sint_u32_eq uint_word_of_int)
  then show "\<exists>l. tolower_wchar c = Some l \<and>
      (if 65 \<le> c \<and> c \<le> 90 then l = c + 32 else if 97 \<le> c \<and> c \<le> 122 then l = c else l < 97 \<or> 122 < l)"
    using c by (auto simp: tolower_wchar_def towlower_int simp del: of_int_add)
next
  fix v :: int
  assume "0 \<le> v" "v \<le> 127"
  then show "to_wchar v = v" by (simp add: to_wchar_def sint_u32_eq uint_word_of_int)
qed simp_all

lemma rd_char_ok: "rd_char m p = Some c \<Longrightarrow> char.ok c"
  by (auto simp: rd_char_def char.ok_def sint_u8_range)

lemma rd_wchar_ok: "rd_wchar m p = Some c \<Longrightarrow> wchar.ok c"
  using sint_range_size [of "the (m p)"] by (auto simp: rd_wchar_def wchar.ok_def word_size)

subsection \<open>The decimal loops\<close>

lemma ato_digits_eq:
  assumes ck: "\<And>x. 0 \<le> x \<Longrightarrow> ck x = (if x \<le> bnd then Some x else None)"
  shows "chars_at rd p (ds @ [stop]) \<Longrightarrow> \<forall>d \<in> set (ds @ [stop]). - 128 \<le> d \<and> d \<le> 127 \<Longrightarrow>
    \<forall>d \<in> set ds. digit_of d < 10 \<Longrightarrow> 10 \<le> digit_of stop \<Longrightarrow> 0 \<le> n \<Longrightarrow> n \<le> bnd \<Longrightarrow>
    ato_digits ck rd p n = (if num_of 10 n ds \<le> bnd then Some (num_of 10 n ds) else None)"
proof (induction ds arbitrary: p n)
  case Nil
  then show ?case by (subst ato_digits.simps) (auto simp: isdigit_eq num_of_def digit_of_def split: if_splits)
next
  case (Cons d ds)
  then have d: "48 \<le> d" "d \<le> 57" "digit_of d = d - 48" by (auto simp: digit_of_def split: if_splits)
  let ?n = "n * 10 + digit_of d"
  have mono: "?n \<le> num_of 10 ?n ds" using Cons.prems(5) d by (intro num_of_mono) auto
  have num: "num_of 10 n (d # ds) = num_of 10 ?n ds" by (simp add: num_of_def)
  show ?case
  proof (cases "?n \<le> bnd")
    case True
    then have "ato_digits ck rd (p + 1) ?n = (if num_of 10 ?n ds \<le> bnd then Some (num_of 10 ?n ds) else None)"
      using Cons.IH [of "p + 1" ?n] Cons.prems d by simp
    then show ?thesis
      using True Cons.prems d unfolding num by (subst ato_digits.simps) (simp add: isdigit_eq ck)
  next
    case False
    then have "\<not> num_of 10 ?n ds \<le> bnd" using mono by linarith
    then show ?thesis
      using False Cons.prems d unfolding num by (subst ato_digits.simps) (simp add: isdigit_eq ck)
  qed
qed

lemma ato_eq:
  assumes ck: "\<And>x. 0 \<le> x \<Longrightarrow> ck x = (if x \<le> bnd then Some x else None)" and neg: "\<And>x. 0 \<le> x \<Longrightarrow> x \<le> bnd \<Longrightarrow> ck (- x) = Some (- x)"
    and num: "number_at (rd_char m) p 10 ws sg [] ds stop 10" and sg: "sign_chars sg sign" and "0 \<le> bnd"
  shows "ato ck (rd_char m) p =
    (if num_of 10 0 ds \<le> bnd then Some (if sign then - num_of 10 0 ds else num_of 10 0 ds) else None)"
proof -
  have sp: "isspace_char = isspace" by (simp add: fun_eq_iff isspace_char_def)
  have rd: "\<forall>p c. rd_char m p = Some c \<longrightarrow> char.ok c" using rd_char_ok by blast
  note skip = char.skip_and_sign(1) [OF num sg rd, unfolded sp] and sign = char.skip_and_sign(2) [OF num sg rd]
  have c: "chars_at (rd_char m) (p + length ws + length sg) (ds @ [stop])" "\<forall>d \<in> set ds. digit_of d < 10" "10 \<le> digit_of stop"
    using num by (auto simp: number_at_def chars_at_append list_all_iff add.assoc)
  have r: "\<forall>d \<in> set (ds @ [stop]). - 128 \<le> d \<and> d \<le> 127"
    using chars_at_all [OF c(1) rd] by (auto simp: list_all_iff char.ok_def)
  have "ato_digits ck (rd_char m) (p + length ws + length sg) 0 =
      (if num_of 10 0 ds \<le> bnd then Some (num_of 10 0 ds) else None)"
    by (rule ato_digits_eq [OF ck c(1) r c(2,3)]) (use assms(5) in auto)
  moreover have "0 \<le> num_of 10 0 ds" by (rule num_of_mono) auto
  ultimately show ?thesis using neg unfolding ato_def skip by (simp add: sign)
qed

subsection \<open>Properties\<close>

text \<open>
  C39. \<open>strtol\<close> and \<open>strtoul\<close> on a number with optional white space, sign and base prefix, in every base
  from 2 to 36 or with the base taken from the prefix: the result is the exact value of the
  digits with its sign, the end pointer is just behind the last digit, and a value outside the
  type gives \<open>ERANGE\<close> and the nearest limit, except that \<open>strtoul\<close> of a too large negated number gives
  zero.  The text of \<open>LONG_MIN\<close> is the one case where \<open>strtol\<close> has undefined behaviour: it
  negates \<open>LONG_MIN\<close>.
\<close>

theorem strtol_strtoul_value:
  assumes "number_at (rd_char m) p base ws sg pre ds stop base'" and "sign_chars sg sign"
  shows "strtol m p base = map_option (\<lambda>(r, err). (r, p + length (ws @ sg @ pre @ ds), err))
      (int_result True sign (num_of base' 0 ds)) \<and>
    strtoul m p base = map_option (\<lambda>(r, err). (r, p + length (ws @ sg @ pre @ ds), err))
      (int_result False sign (num_of base' 0 ds))"
proof -
  have rd: "\<forall>p c. rd_char m p = Some c \<longrightarrow> char.ok c" using rd_char_ok by blast
  show ?thesis unfolding strtol_def strtoul_def using char.str_to_int_eq [OF assms rd] by blast
qed

theorem strtol_strtoul_value_witness:
  "strtol (mem_of 0 [32, 45, 0x30, 0x78, 0x46, 0x66, 0]) 0 0 = Some (- 255, 6, None) \<and>
   strtoul (mem_of 0 [32, 45, 0x30, 0x78, 0x46, 0x66, 0]) 0 0 = Some (18446744073709551361, 6, None)"
proof -
  let ?m = "mem_of 0 [32, 45, 0x30, 0x78, 0x46, 0x66, 0 :: u8]"
  have "number_at (rd_char ?m) 0 0 [32] [45] [48, 120] [70, 102] 0 16"
    by (simp add: number_at_def number_prefix_def digit_of_def rd_char_def mem_of_simp)
  moreover have "sign_chars [45] True" by (simp add: sign_chars_def)
  ultimately show ?thesis
    using strtol_strtoul_value [of ?m 0 0 "[32]" "[45]" "[48, 120]" "[70, 102]" 0 16 True]
    by (simp add: int_result_def num_of_def digit_of_def)
qed

text \<open>
  The wide functions \<open>wcstol\<close> and \<open>wcstoul\<close> read the same numbers from wide strings.
\<close>

theorem wcstol_wcstoul_value:
  assumes "number_at (rd_wchar m) p base ws sg pre ds stop base'" and "sign_chars sg sign"
  shows "wcstol m p base = map_option (\<lambda>(r, err). (r, p + length (ws @ sg @ pre @ ds), err))
      (int_result True sign (num_of base' 0 ds)) \<and>
    wcstoul m p base = map_option (\<lambda>(r, err). (r, p + length (ws @ sg @ pre @ ds), err))
      (int_result False sign (num_of base' 0 ds))"
proof -
  have rd: "\<forall>p c. rd_wchar m p = Some c \<longrightarrow> wchar.ok c" using rd_wchar_ok by blast
  show ?thesis unfolding wcstol_def wcstoul_def using wchar.str_to_int_eq [OF assms rd] by blast
qed

theorem wcstol_wcstoul_value_witness:
  "wcstol (mem_of 0 [0x39, 0x39, 0xE9]) 0 10 = Some (99, 2, None)"
proof -
  let ?m = "mem_of 0 [0x39, 0x39, 0xE9 :: u32]"
  have "number_at (rd_wchar ?m) 0 10 [] [] [] [57, 57] 0xE9 10"
    by (simp add: number_at_def number_prefix_def digit_of_def rd_wchar_def mem_of_simp)
  moreover have "sign_chars [] False" by (simp add: sign_chars_def)
  ultimately show ?thesis
    using wcstol_wcstoul_value [of ?m 0 10 "[]" "[]" "[]" "[57, 57]" "0xE9" 10 False]
    by (simp add: int_result_def num_of_def digit_of_def)
qed

text \<open>
  \<open>atoi\<close>, \<open>atol\<close> and \<open>atoll\<close> return the value of a decimal number whenever its digits fit
  the type, and overflow, which is undefined, otherwise; the text of the smallest value is
  such a case.
\<close>

theorem atoi_atol_atoll_value:
  assumes "number_at (rd_char m) p 10 ws sg [] ds stop 10" and "sign_chars sg sign"
  defines "n \<equiv> num_of 10 0 ds"
  shows "atoi m p = (if n \<le> INT_MAX then Some (if sign then - n else n) else None) \<and>
    atol m p = (if n \<le> LONG_MAX then Some (if sign then - n else n) else None) \<and>
    atoll m p = (if n \<le> LONG_MAX then Some (if sign then - n else n) else None)"
proof -
  have "ato ck32 (rd_char m) p = (if n \<le> INT_MAX then Some (if sign then - n else n) else None)"
    unfolding n_def by (rule ato_eq [OF _ _ assms(1,2)]) (auto simp: ck32_def int32_ok_def)
  moreover have "ato ck64 (rd_char m) p = (if n \<le> LONG_MAX then Some (if sign then - n else n) else None)"
    unfolding n_def by (rule ato_eq [OF _ _ assms(1,2)]) (auto simp: ck64_def int64_ok_def)
  ultimately show ?thesis by (simp add: atoi_def atol_def atoll_def)
qed

theorem atoi_atol_atoll_value_witness:
  "atoi (mem_of 0 [45, 0x34, 0x32, 0]) 0 = Some (- 42)"
proof -
  let ?m = "mem_of 0 [45, 0x34, 0x32, 0 :: u8]"
  have "number_at (rd_char ?m) 0 10 [] [45] [] [52, 50] 0 10"
    by (simp add: number_at_def number_prefix_def digit_of_def rd_char_def mem_of_simp)
  moreover have "sign_chars [45] True" by (simp add: sign_chars_def)
  ultimately show ?thesis
    using atoi_atol_atoll_value [of ?m 0 "[]" "[45]" "[52, 50]" 0 True] by (simp add: num_of_def digit_of_def)
qed

text \<open>
  Where no digits follow, \<open>strtol\<close> does not always report that nothing was read: a lone sign, and a
  hexadecimal prefix before a character that is not a digit, move the end pointer.
\<close>

theorem strtol_end_pointer_without_digits:
  "strtol (mem_of 0 [45, 0]) 0 10 = Some (0, 1, None) \<and>
   strtol (mem_of 0 [0x30, 0x78, 0x67, 0]) 0 16 = Some (0, 2, None)"
proof
  let ?r = "rd_char (mem_of 0 [45, 0 :: u8])"
  have "skip_space isspace_char ?r 0 = Some 0"
    by (subst skip_space.simps) (simp add: rd_char_def mem_of_simp isspace_char_def isspace_eq)
  moreover have "read_digits tolower_char to_char ?r 10 maxv 1 0 False = Some (1, 0, False)" for maxv
    by (subst read_digits.simps) (simp add: rd_char_def mem_of_simp valid_char_def)
  ultimately show "strtol (mem_of 0 [45, 0]) 0 10 = Some (0, 1, None)"
    by (simp add: strtol_def str_to_int_def read_sign_def read_prefix_def rd_char_def mem_of_simp ck64_in_range Let_def)
next
  let ?r = "rd_char (mem_of 0 [0x30, 0x78, 0x67, 0 :: u8])"
  have "skip_space isspace_char ?r 0 = Some 0"
    by (subst skip_space.simps) (simp add: rd_char_def mem_of_simp isspace_char_def isspace_eq)
  moreover have "has_prefix tolower_char ?r 0 120 (\<lambda>c. Some (c \<noteq> 0)) = Some True"
    by (subst char.has_prefix_eq [of _ _ 120 103]) (simp_all add: rd_char_def mem_of_simp char.ok_def)
  moreover have "read_digits tolower_char to_char ?r 16 maxv (Suc (Suc 0)) 0 False = Some (2, 0, False)" for maxv
    by (subst read_digits.simps)
      (simp add: rd_char_def mem_of_simp char.valid_char_eq [of 103 16] char.ok_def digit_of_def)
  ultimately show "strtol (mem_of 0 [0x30, 0x78, 0x67, 0]) 0 16 = Some (0, 2, None)"
    by (simp add: strtol_def str_to_int_def read_sign_def read_prefix_def rd_char_def mem_of_simp Let_def)
qed

end
