(* ===== verification/Format_Int.thy ===== *)
theory Format_Int
  imports Snprintf Strtoint
begin

text \<open>
  The text of the integer conversions of \<open>vfprintf\<close>: the digits of a number, the field \<open>write_int\<close>
  makes of them, the directives that ask for it, and the way back through \<open>strtol\<close> and
  \<open>strtoul\<close>.
\<close>

subsection \<open>Digits\<close>

function digits_of :: "nat \<Rightarrow> nat \<Rightarrow> nat list" where
  "digits_of b n = (if b < 2 \<or> n < b then [n] else digits_of b (n div b) @ [n mod b])"
  by auto
termination by (relation "measure snd") auto

declare digits_of.simps [simp del]

lemma digits_of_small: "n < b \<Longrightarrow> digits_of b n = [n]"
  by (simp add: digits_of.simps)

lemma digits_of_step: "2 \<le> b \<Longrightarrow> b \<le> n \<Longrightarrow> digits_of b n = digits_of b (n div b) @ [n mod b]"
  by (simp add: digits_of.simps)

lemma digits_of_ne [simp]: "digits_of b n \<noteq> []"
  by (subst digits_of.simps) simp

lemma digits_of_less: "2 \<le> b \<Longrightarrow> d \<in> set (digits_of b n) \<Longrightarrow> d < b"
proof (induction b n rule: digits_of.induct)
  case (1 b n)
  then show ?case by (subst (asm) (2) digits_of.simps) (auto split: if_splits)
qed

lemma digits_of_value: "2 \<le> b \<Longrightarrow> foldl (\<lambda>v d. v * b + d) 0 (digits_of b n) = n"
proof (induction b n rule: digits_of.induct)
  case (1 b n)
  then show ?case by (subst digits_of.simps) auto
qed

lemma digits_of_length: "2 \<le> b \<Longrightarrow> n < b ^ k \<Longrightarrow> 0 < k \<Longrightarrow> length (digits_of b n) \<le> k"
proof (induction k arbitrary: n)
  case (Suc k)
  show ?case
  proof (cases "n < b")
    case False
    then have "n div b < b ^ k" using Suc(3) by (intro less_mult_imp_div_less) (simp add: mult.commute)
    moreover have "0 < k" using False Suc(3) by (cases k) auto
    ultimately show ?thesis using Suc False by (simp add: digits_of_step)
  qed (simp add: digits_of_small)
qed simp

lemma digits_of_hd: "2 \<le> b \<Longrightarrow> 0 < n \<Longrightarrow> hd (digits_of b n) \<noteq> 0"
proof (induction b n rule: digits_of.induct)
  case (1 b n)
  show ?case
  proof (cases "n < b")
    case False
    then have "hd (digits_of b (n div b)) \<noteq> 0" using 1 by (simp add: div_greater_zero_iff)
    then show ?thesis using 1 False by (simp add: digits_of_step)
  qed (use 1 in \<open>simp add: digits_of_small\<close>)
qed

lemma digit_loop_eq:
  assumes "2 \<le> unat base"
  shows "length (digits_of (unat base) (unat val)) + length buf \<le> 64 \<Longrightarrow>
    digit_loop chars base val buf = Some (map ((!) chars) (digits_of (unat base) (unat val)) @ buf)"
proof (induction "unat val" arbitrary: val buf rule: less_induct)
  case less
  have b: "base \<noteq> 0" using assms by auto
  have l: "length buf < 64" using less(2) digits_of_ne [of "unat base" "unat val"] by (cases "digits_of (unat base) (unat val)") auto
  have u: "unat (val div base) = unat val div unat base" "unat (val mod base) = unat val mod unat base"
    by (simp_all add: unat_div unat_mod)
  show ?case
  proof (cases "unat val < unat base")
    case True
    then have "unat (val div base) = 0" using u(1) by simp
    then have z: "val div base = 0" by (simp only: unsigned_eq_0_iff)
    show ?thesis using True b l z u(2) by (subst digit_loop.simps) (simp add: digits_of_small Let_def)
  next
    case False
    then have "0 < unat (val div base)" using assms u(1) by (simp add: div_greater_zero_iff)
    then have q: "unat (val div base) < unat val" "val div base \<noteq> 0" using False assms u(1) by auto
    have d: "digits_of (unat base) (unat val) = digits_of (unat base) (unat (val div base)) @ [unat (val mod base)]"
      using False assms u by (simp add: digits_of_step)
    have "digit_loop chars base (val div base) (chars ! unat (val mod base) # buf) =
        Some (map ((!) chars) (digits_of (unat base) (unat (val div base))) @ chars ! unat (val mod base) # buf)"
      using less(1) [OF q(1), of "chars ! unat (val mod base) # buf"] less(2) d by simp
    then show ?thesis using b l q(2) unfolding d by (subst digit_loop.simps) (simp add: Let_def)
  qed
qed

text \<open>The digit characters of a number.\<close>

definition digit_chars :: "bool \<Rightarrow> nat \<Rightarrow> nat \<Rightarrow> u8 list" where
  "digit_chars up b n = map ((!) (if up then CHARS else LOWER_CHARS)) (digits_of b n)"

lemma int_digits_eq:
  assumes "base \<in> {2, 8, 10, 16}"
  shows "int_digits val base opts =
    Some (if val = 0 \<and> precision opts = 0 then [] else digit_chars (upper opts) (nat base) (unat val))"
proof -
  have u: "unat (word_of_int base :: u64) = nat base" using assms by auto
  have "unat val < 2 ^ 64" by (rule unat_u64_less)
  also have "(2 :: nat) ^ 64 \<le> nat base ^ 64" using assms by (intro power_mono) auto
  finally have "length (digits_of (nat base) (unat val)) \<le> 64" using assms by (intro digits_of_length) auto
  then show ?thesis using assms u digit_loop_eq [of "word_of_int base" val "[]"]
    by (auto simp: int_digits_def digit_chars_def)
qed

lemma all_less_16: "(\<forall>d < (16::nat). P d) \<longleftrightarrow> list_all P [0..<16]"
  by (auto simp: list_all_iff)

lemma digit_of_chars: "d < 16 \<Longrightarrow> digit_of (sint (CHARS ! d)) = int d \<and> digit_of (sint (LOWER_CHARS ! d)) = int d"
proof -
  have "\<forall>d < (16::nat). digit_of (sint (CHARS ! d)) = int d \<and> digit_of (sint (LOWER_CHARS ! d)) = int d"
    unfolding all_less_16 by code_simp
  then show "d < 16 \<Longrightarrow> ?thesis" by blast
qed

lemma num_of_digits:
  "list_all (\<lambda>d. d < 16) ds \<Longrightarrow>
    num_of (int b) (int n) (map (\<lambda>d. sint ((if up then CHARS else LOWER_CHARS) ! d)) ds) =
      int (foldl (\<lambda>v d. v * b + d) n ds)"
proof (induction ds arbitrary: n)
  case (Cons d ds)
  then show ?case using Cons.IH [of "n * b + d"] digit_of_chars [of d] by (cases up) (simp_all add: num_of_def)
qed (simp add: num_of_def)

lemma num_of_digit_chars:
  assumes "2 \<le> b" and "b \<le> 16"
  shows "num_of (int b) 0 (map sint (digit_chars up b n)) = int n"
proof -
  have "list_all (\<lambda>d. d < 16) (digits_of b n)" using digits_of_less assms by (fastforce simp: list_all_iff)
  then show ?thesis using num_of_digits [of "digits_of b n" b 0 up] digits_of_value assms
    by (simp add: digit_chars_def comp_def)
qed

subsection \<open>The field of an integer\<close>

definition int_text :: "u64 \<Rightarrow> int \<Rightarrow> IntOpts \<Rightarrow> u8 list option" where
  "int_text val base opts =
     do { digits \<leftarrow> int_digits val base opts;
          aw \<leftarrow> actual_width (int (length digits)) base opts;
          Some (concat (int_chunks digits aw base opts)) }"

lemma write_all_collect:
  "pf_file t = Some out \<Longrightarrow> int (pf_written t + length (concat bs)) \<le> INT_MAX \<Longrightarrow>
     write_all collect t bs =
       Some (t\<lparr>pf_file := Some (out @ concat bs), pf_written := pf_written t + length (concat bs)\<rparr>, True)"
proof (induction bs arbitrary: t out)
  case (Cons b bs)
  let ?t = "t\<lparr>pf_file := Some (out @ b), pf_written := pf_written t + length b\<rparr>"
  have "pf_write collect t b = Some (?t, True)"
    using Cons.prems by (simp add: pf_write_def collect_def pf_count_def Let_def)
  then show ?case using Cons.IH [of ?t "out @ b"] Cons.prems by (simp add: add.assoc)
qed simp

lemma write_int_collect:
  assumes "pf_file t = Some out" and "int_text val base opts = Some txt" and "int (pf_written t + length txt) \<le> INT_MAX"
  shows "write_int collect t val base opts =
    Some (t\<lparr>pf_file := Some (out @ txt), pf_written := pf_written t + length txt\<rparr>, True)"
  using assms write_all_collect [OF assms(1)] by (auto simp: write_int_eq int_text_def bind_eq_Some_conv)

lemma concat_singletons: "concat (replicate n [c]) = replicate n c"
  by (induction n) simp_all

text \<open>
  The same field in parts: padding on the left, sign, prefix, zeros up to the precision, digits,
  padding on the right.
\<close>

lemma int_text_parts:
  assumes "base \<in> {2, 8, 10, 16}" and "int_text val base opts = Some txt"
  defines "digits \<equiv> if val = 0 \<and> precision opts = 0 then [] else digit_chars (upper opts) (nat base) (unat val)"
  shows "\<exists>aw. actual_width (int (length digits)) base opts = Some aw \<and>
    txt = (if right_pad opts = 0 then replicate (nat (min_width opts - aw)) (pad_char opts) else []) @
      sign_text opts @ prefix_text base (digits \<noteq> []) opts @
      replicate (nat (precision opts - int (length digits))) (ch CHR ''0'') @ digits @
      (if right_pad opts = 0 then [] else replicate (nat (min_width opts - aw)) (pad_char opts))"
  using assms(2) int_digits_eq [OF assms(1)] unfolding digits_def
  by (auto simp: int_text_def bind_eq_Some_conv int_chunks_def Let_def concat_singletons)

subsection \<open>Directives\<close>

definition dec_text :: "nat \<Rightarrow> u8 list" where
  "dec_text n = digit_chars True 10 n"

definition is_dec :: "u8 \<Rightarrow> bool" where
  "is_dec c \<longleftrightarrow> 48 \<le> sint c \<and> sint c \<le> 57"

text \<open>
  What \<open>vfprintf\<close> relies on in \<open>hz::to_integer\<close>: on the decimal text of an \<open>int\<close> it returns the number and
  how many characters it has.
\<close>

definition decimal_reader :: "to_integer \<Rightarrow> bool" where
  "decimal_reader to_int \<longleftrightarrow>
     (\<forall>n rest. int n \<le> INT_MAX \<longrightarrow> (rest = [] \<or> \<not> is_dec (hd rest)) \<longrightarrow>
        to_int (dec_text n @ rest) = (int n, length (dec_text n)))"

definition flag_chars :: "u8 list" where "flag_chars = bytes ''-+ #0''"

definition flag_step :: "u32 \<Rightarrow> u8 \<Rightarrow> u32" where
  "flag_step flags c =
     (if c = ch CHR ''-'' then flags OR LJUST
      else if c = ch CHR ''+'' then flags OR SIGN
      else if c = ch CHR '' '' then (if flags AND SIGN = 0 then flags OR SPACE else flags)
      else if c = ch CHR ''#'' then flags OR ALT
      else if flags AND LJUST = 0 then flags OR ZERO else flags)"

fun state_text :: "State \<Rightarrow> u8 list" where
  "state_text SNone = []" | "state_text Shh = bytes ''hh''" | "state_text Sh = bytes ''h''"
| "state_text Sl = bytes ''l''" | "state_text Sll = bytes ''ll''" | "state_text Sj = bytes ''j''"
| "state_text Sz = bytes ''z''" | "state_text St = bytes ''t''" | "state_text SL = bytes ''L''"

definition opt_text :: "u8 list \<Rightarrow> nat option \<Rightarrow> u8 list" where
  "opt_text pre n = (case n of None \<Rightarrow> [] | Some k \<Rightarrow> pre @ dec_text k)"

definition directive_text :: "u8 list \<Rightarrow> nat option \<Rightarrow> nat option \<Rightarrow> State \<Rightarrow> u8 list" where
  "directive_text fl w p st = fl @ opt_text [] w @ opt_text (bytes ''.'') p @ state_text st"

definition directive_spec :: "u8 list \<Rightarrow> nat option \<Rightarrow> nat option \<Rightarrow> State \<Rightarrow> conv_spec" where
  "directive_spec fl w p st =
     (let flags = foldl flag_step 0 fl in
      \<lparr>sp_flags = (if p = None then flags else flags AND NOT ZERO),
       sp_width = int (case w of None \<Rightarrow> 0 | Some n \<Rightarrow> n), sp_has_width = (w \<noteq> None),
       sp_precision = int (case p of None \<Rightarrow> 0 | Some n \<Rightarrow> n), sp_has_precision = (p \<noteq> None), sp_state = st\<rparr>)"

definition directive_ok :: "u8 list \<Rightarrow> nat option \<Rightarrow> nat option \<Rightarrow> bool" where
  "directive_ok fl w p \<longleftrightarrow>
     set fl \<subseteq> set flag_chars \<and> pred_option (\<lambda>n. 0 < n \<and> int n \<le> INT_MAX) w \<and> pred_option (\<lambda>n. int n \<le> INT_MAX) p"

definition conversion_chars :: "u8 list" where "conversion_chars = bytes ''diuxXobBpcsn''"

lemma CHARS_dec: "d < 10 \<Longrightarrow> CHARS ! d = word_of_nat (48 + d)"
proof -
  have "\<forall>d < (10::nat). CHARS ! d = word_of_nat (48 + d)"
    by (simp add: CHARS_def bytes_def numeral_eq_Suc All_less_Suc)
  then show "d < 10 \<Longrightarrow> ?thesis" by blast
qed

lemma dec_text_chars: "c \<in> set (dec_text n) \<Longrightarrow> is_dec c"
proof -
  have "\<forall>d < (10::nat). is_dec (CHARS ! d)"
    by (simp add: CHARS_def bytes_def is_dec_def numeral_eq_Suc All_less_Suc)
  then show "c \<in> set (dec_text n) \<Longrightarrow> ?thesis"
    using digits_of_less [of 10 _ n] by (auto simp: dec_text_def digit_chars_def)
qed

lemma isdigit_u8: "isdigit (sint (c :: u8)) = Some (if is_dec c then 2048 else 0)"
  using sint_u8_range [of c] by (simp add: isdigit_eq is_dec_def)

lemma dec_text_hd: "\<exists>c cs. dec_text n = c # cs \<and> is_dec c \<and> (0 < n \<longrightarrow> c \<noteq> ch CHR ''0'')"
proof -
  obtain d ds where d: "digits_of 10 n = d # ds" by (cases "digits_of 10 n") simp_all
  have "d < 10" using digits_of_less [of 10 d n] d by simp
  moreover have "0 < n \<longrightarrow> d \<noteq> 0" using digits_of_hd [of 10 n] d by auto
  moreover have "list_all (\<lambda>d. d \<noteq> 0 \<longrightarrow> CHARS ! d \<noteq> ch CHR ''0'') [0..<10]" by code_simp
  ultimately show ?thesis using d dec_text_chars [of _ n] by (auto simp: dec_text_def digit_chars_def list_all_iff)
qed

lemma parse_flags_eq:
  "set fl \<subseteq> set flag_chars \<Longrightarrow> rest = [] \<or> hd rest \<notin> set flag_chars \<and> hd rest \<noteq> 39 \<Longrightarrow>
    parse_flags (fl @ rest) f = Some (rest, foldl flag_step f fl)"
proof (induction fl arbitrary: f)
  case Nil
  then show ?case by (cases rest) (auto simp: flag_chars_def bytes_def)
next
  case (Cons c fl)
  have "parse_flags (c # fl @ rest) f = parse_flags (fl @ rest) (flag_step f c)"
    using Cons.prems by (auto simp: flag_chars_def bytes_def flag_step_def)
  then show ?case using Cons by simp
qed

definition no_number :: "u8 list \<Rightarrow> bool" where
  "no_number rest \<longleftrightarrow> rest = [] \<or> \<not> is_dec (hd rest) \<and> hd rest \<noteq> ch CHR ''*''"

lemma deref_hd: "deref xs = (if xs = [] then 0 else hd xs)"
  by (simp add: deref_def split: list.split)

lemma not_dec: "\<not> is_dec 0" "\<not> is_dec 42" "\<not> is_dec 46" "\<not> is_dec 36"
  by (simp_all add: is_dec_def)

lemma read_number_eq:
  "decimal_reader to_int \<Longrightarrow> int n \<le> INT_MAX \<Longrightarrow> rest = [] \<or> \<not> is_dec (hd rest) \<Longrightarrow>
    read_number to_int (dec_text n @ rest) = Some (int n, rest)"
  unfolding decimal_reader_def read_number_def by (elim allE [where x = n] allE [where x = rest]) auto

lemma parse_width_eq:
  assumes "decimal_reader to_int" and "pred_option (\<lambda>n. int n \<le> INT_MAX) w" and "no_number rest"
  shows "parse_width to_int (opt_text [] w @ rest) fl ap =
    Some (rest, int (case w of None \<Rightarrow> 0 | Some n \<Rightarrow> n), w \<noteq> None, fl, ap)"
proof (cases w)
  case None
  then show ?thesis using assms(3) by (auto simp: parse_width_def opt_text_def isdigit_u8 no_number_def deref_hd not_dec)
next
  case (Some n)
  obtain c cs where c: "dec_text n = c # cs" "is_dec c" using dec_text_hd by blast
  then show ?thesis using Some assms read_number_eq [OF assms(1), of n rest]
    by (auto simp: parse_width_def opt_text_def isdigit_u8 no_number_def deref_hd)
qed

lemma parse_precision_eq:
  assumes "decimal_reader to_int" and "pred_option (\<lambda>n. int n \<le> INT_MAX) p" and "no_number rest"
    and "rest = [] \<or> hd rest \<noteq> ch CHR ''.''"
  shows "parse_precision to_int (opt_text (bytes ''.'') p @ rest) fl ap =
    Some (rest, int (case p of None \<Rightarrow> 0 | Some n \<Rightarrow> n), p \<noteq> None, if p = None then fl else fl AND NOT ZERO, ap)"
proof (cases p)
  case None
  then show ?thesis using assms(4) by (auto simp: parse_precision_def opt_text_def deref_hd)
next
  case (Some n)
  obtain c cs where c: "dec_text n = c # cs" "is_dec c" using dec_text_hd by blast
  then show ?thesis using Some assms read_number_eq [OF assms(1), of n rest]
    by (auto simp: parse_precision_def opt_text_def isdigit_u8 no_number_def deref_hd bytes_def)
qed

lemma parse_length_eq:
  "c \<notin> set (bytes ''hljztL'') \<Longrightarrow> parse_length (state_text st @ c # rest) SNone = (c # rest, st)"
  by (cases st) (auto simp: bytes_def)

lemma state_text_chars: "set (state_text st) \<subseteq> set (bytes ''hljztL'')"
  by (cases st) (auto simp: bytes_def)

lemma conversion_chars_class:
  "c \<in> set conversion_chars \<or> c \<in> set (bytes ''hljztL'') \<Longrightarrow>
    \<not> is_dec c \<and> c \<noteq> ch CHR ''*'' \<and> c \<noteq> ch CHR ''.'' \<and> c \<noteq> ch CHR ''$'' \<and> c \<noteq> ch CHR ''%'' \<and> c \<noteq> 39 \<and> c \<notin> set flag_chars"
  by (auto simp: conversion_chars_def bytes_def is_dec_def flag_chars_def)

lemma conversion_not_length: "c \<in> set conversion_chars \<Longrightarrow> c \<notin> set (bytes ''hljztL'')"
  by (auto simp: conversion_chars_def bytes_def)

lemma positional_no:
  "ch CHR ''$'' \<notin> set (ys @ [c]) \<Longrightarrow> \<not> is_dec c \<Longrightarrow> positional (ys @ c # rest) = Some False"
  by (cases ys; cases "tl ys") (auto simp: positional_def isdigit_u8 deref_hd)

lemma directive_chars:
  assumes "directive_ok fl w p"
  shows "ch CHR ''$'' \<notin> set (directive_text fl w p st)"
proof -
  have "is_dec 36 = False" by (simp add: is_dec_def)
  then have "36 \<notin> set (dec_text n)" for n using dec_text_chars [of 36 n] by blast
  moreover have "36 \<notin> set fl" using assms by (auto simp: directive_ok_def flag_chars_def bytes_def)
  moreover have "36 \<notin> set (state_text st)" by (cases st) (simp_all add: bytes_def)
  ultimately show ?thesis by (auto simp: directive_text_def opt_text_def bytes_def split: option.splits)
qed

lemma parse_spec_directive:
  assumes "decimal_reader to_int" and "directive_ok fl w p" and c: "c \<in> set conversion_chars"
  shows "parse_spec to_int (directive_text fl w p st @ c # rest) ap = Some (c # rest, directive_spec fl w p st, ap)"
proof -
  let ?C = "state_text st @ c # rest"
  let ?B = "opt_text (bytes ''.'') p @ ?C"
  let ?A = "opt_text [] w @ ?B"
  have cc: "hd ?C \<in> set conversion_chars \<or> hd ?C \<in> set (bytes ''hljztL'')"
    using state_text_chars [of st] c by (cases "state_text st") auto
  note hC = conversion_chars_class [OF cc]
  have C: "no_number ?C" "hd ?C \<noteq> ch CHR ''.''" using hC by (auto simp: no_number_def)
  have hB: "hd ?B = ch CHR ''.'' \<or> hd ?B = hd ?C"
    by (cases p) (auto simp: opt_text_def bytes_def)
  then have B: "no_number ?B" using C(1) hC not_dec by (auto simp: no_number_def)
  have "w \<noteq> None \<Longrightarrow> is_dec (hd ?A) \<and> hd ?A \<noteq> ch CHR ''0''"
    using dec_text_hd [of "the w"] assms(2) by (auto simp: opt_text_def directive_ok_def)
  moreover have "w = None \<Longrightarrow> hd ?A = hd ?B" by (simp add: opt_text_def)
  ultimately have A: "hd ?A \<notin> set flag_chars \<and> hd ?A \<noteq> 39"
    using hB hC by (cases "w = None") (auto simp: flag_chars_def bytes_def is_dec_def)
  have fl: "parse_flags (fl @ ?A) 0 = Some (?A, foldl flag_step 0 fl)"
    using assms(2) A by (intro parse_flags_eq) (auto simp: directive_ok_def)
  have wd: "pred_option (\<lambda>n. int n \<le> INT_MAX) w" "pred_option (\<lambda>n. int n \<le> INT_MAX) p"
    using assms(2) by (auto simp: directive_ok_def option.pred_set)
  have "positional (directive_text fl w p st @ c # rest) = Some False"
    using directive_chars [OF assms(2)] conversion_chars_class [of c] c by (intro positional_no) auto
  then show ?thesis
    using parse_width_eq [OF assms(1) wd(1) B] parse_precision_eq [OF assms(1) wd(2) C(1)] C(2) fl
      parse_length_eq [OF conversion_not_length [OF c]]
    by (simp add: parse_spec_def directive_spec_def directive_text_def Let_def)
qed

lemma scan_text_directive: "d \<noteq> ch CHR ''%'' \<Longrightarrow> scan_text (ch CHR ''%'' # d # fmt) = (0, ch CHR ''%'' # d # fmt)"
  by (simp add: scan_text_def)

text \<open>A format that consists of one directive.\<close>

definition one_directive :: "u8 list \<Rightarrow> nat option \<Rightarrow> nat option \<Rightarrow> State \<Rightarrow> char \<Rightarrow> u8 list" where
  "one_directive fl w p st c = bytes ''%'' @ directive_text fl w p st @ [ch c]"

definition start_state :: "u8 mem \<Rightarrow> u32 mem \<Rightarrow> va list \<Rightarrow> u8 list pf" where
  "start_state m wm ap = \<lparr>pf_file = Some [], pf_written = 0, pf_mutex = 1, pf_errno = None, pf_mem = m, pf_wmem = wm, pf_args = ap\<rparr>"

lemma formatted_directive:
  assumes "decimal_reader to_int" and "directive_ok fl w p" and c: "ch c \<in> set conversion_chars"
    and conv: "convert collect (ch c) (directive_spec fl w p st) (start_state m wm ap) = Some (t, True)"
    and out: "pf_file t = Some out"
  shows "formatted to_int m wm (one_directive fl w p st c) ap = Some (out, int (pf_written t))"
proof -
  let ?f = "directive_text fl w p st @ [ch c]"
  have "hd ?f \<noteq> ch CHR ''%''"
  proof (cases "directive_text fl w p st")
    case Nil
    then show ?thesis using conversion_chars_class c by auto
  next
    case (Cons d ds)
    have "37 \<notin> set fl" using assms(2) by (auto simp: directive_ok_def flag_chars_def bytes_def)
    moreover have "37 \<notin> set (dec_text n)" for n using dec_text_chars [of 37 n] by (auto simp: is_dec_def)
    moreover have "37 \<notin> set (state_text st)" by (cases st) (simp_all add: bytes_def)
    ultimately have "37 \<notin> set (directive_text fl w p st)"
      by (auto simp: directive_text_def opt_text_def bytes_def split: option.splits)
    then show ?thesis using Cons by auto
  qed
  then have scan: "scan_text (one_directive fl w p st c) = (0, ch CHR ''%'' # ?f)"
    using scan_text_directive [of "hd ?f" "tl ?f"] by (simp add: one_directive_def bytes_def)
  have "(start_state m wm ap)\<lparr>pf_args := ap\<rparr> = start_state m wm ap" by (simp add: start_state_def)
  then have "vfprintf_loop collect to_int (one_directive fl w p st c) (start_state m wm ap) = vfprintf_loop collect to_int [] t"
    using parse_spec_directive [OF assms(1,2) c, of st "[]" ap] conv scan
    by (subst vfprintf_loop.simps) (simp add: start_state_def Let_def)
  also have "\<dots> = Some (pf_unlock t, int (pf_written t))"
    by (subst vfprintf_loop.simps) (simp add: scan_text_def)
  finally have "vfprintf_loop collect to_int (one_directive fl w p st c) (start_state m wm ap) = Some (pf_unlock t, int (pf_written t))" .
  moreover have "pf_lock \<lparr>pf_file = Some [], pf_written = 0, pf_mutex = 0, pf_errno = None, pf_mem = m, pf_wmem = wm, pf_args = ap\<rparr> =
      start_state m wm ap" by (simp add: pf_lock_def start_state_def)
  moreover have "pf_file (pf_unlock t) = Some out" using out by (simp add: pf_unlock_def)
  ultimately show ?thesis by (simp add: formatted_def vfprintf_def)
qed

subsection \<open>The integer conversions\<close>

definition field_bound :: "nat option \<Rightarrow> nat option \<Rightarrow> int" where
  "field_bound w p = max (int (case w of None \<Rightarrow> 0 | Some n \<Rightarrow> n)) (max (int (case p of None \<Rightarrow> 1 | Some n \<Rightarrow> n)) 64 + 3) + 1"

lemma digit_chars_length: "b \<in> {2, 8, 10, 16} \<Longrightarrow> length (digit_chars up b (unat (v :: u64))) \<le> 64"
proof -
  assume b: "b \<in> {2, 8, 10, 16}"
  have "unat v < 2 ^ 64" by (rule unat_u64_less)
  also have "(2 :: nat) ^ 64 \<le> b ^ 64" using b by (intro power_mono) auto
  finally show ?thesis using b digits_of_length [of b "unat v" 64] by (auto simp: digit_chars_def)
qed

lemma actual_width_eq:
  assumes "max len (precision opts) + 3 \<le> INT_MAX" and "0 \<le> len"
  shows "actual_width len base opts =
    Some (max len (precision opts) + (if negative opts \<or> always_write_sign opts \<noteq> 0 then 1 else 0) +
      (if write_prefix opts \<noteq> 0 \<and> len \<noteq> 0 then (if base = 2 \<or> base = 16 then 2 else if base = 8 then 1 else 0) else 0))"
  using assms by (auto simp: actual_width_def Let_def ck32_def int32_ok_def)

lemma prefix_length:
  "int (length (prefix_text base (digits \<noteq> []) opts)) =
    (if write_prefix opts \<noteq> 0 \<and> digits \<noteq> [] then (if base = 2 \<or> base = 16 then 2 else if base = 8 then 1 else 0) else 0)"
  by (auto simp: prefix_text_def bytes_def)

lemma int_text_bound:
  assumes "base \<in> {2, 8, 10, 16}" and "precision opts + 3 \<le> INT_MAX" and "0 \<le> precision opts"
  shows "\<exists>tx. int_text val base opts = Some tx \<and>
    int (length tx) \<le> max (min_width opts) (max (precision opts) 64 + 3) + 1"
proof -
  define digits where "digits = (if val = 0 \<and> precision opts = 0 then [] else digit_chars (upper opts) (nat base) (unat val))"
  have d: "int_digits val base opts = Some digits" using int_digits_eq [OF assms(1)] by (simp add: digits_def)
  have l: "length digits \<le> 64" using digit_chars_length [of "nat base" "upper opts" val] assms(1) by (auto simp: digits_def)
  define aw where "aw = max (int (length digits)) (precision opts) +
    (if negative opts \<or> always_write_sign opts \<noteq> 0 then 1 else 0) + int (length (prefix_text base (digits \<noteq> []) opts))"
  have aw: "actual_width (int (length digits)) base opts = Some aw"
    using actual_width_eq [of "int (length digits)" opts base] l assms(2,3) by (simp add: aw_def prefix_length)
  then obtain tx where tx: "int_text val base opts = Some tx" using d by (simp add: int_text_def)
  obtain aw' where "actual_width (int (length digits)) base opts = Some aw'"
      "tx = (if right_pad opts = 0 then replicate (nat (min_width opts - aw')) (pad_char opts) else []) @
        sign_text opts @ prefix_text base (digits \<noteq> []) opts @
        replicate (nat (precision opts - int (length digits))) (ch CHR ''0'') @ digits @
        (if right_pad opts = 0 then [] else replicate (nat (min_width opts - aw')) (pad_char opts))"
    using int_text_parts [OF assms(1) tx] unfolding digits_def by blast
  moreover have "length (sign_text opts) \<le> 1" "length (prefix_text base (digits \<noteq> []) opts) \<le> 2"
    "negative opts \<or> always_write_sign opts \<noteq> 0 \<Longrightarrow> length (sign_text opts) = 1"
    by (auto simp: sign_text_def prefix_text_def bytes_def)
  ultimately have "int (length tx) \<le> max (min_width opts) (max (precision opts) 64 + 3) + 1"
    using aw l by (auto simp: aw_def max_def)
  then show ?thesis using tx by blast
qed

lemma directive_opts:
  "min_width (int_opts (directive_spec fl w p st) neg up pre) = int (case w of None \<Rightarrow> 0 | Some n \<Rightarrow> n)"
  "precision (int_opts (directive_spec fl w p st) neg up pre) = int (case p of None \<Rightarrow> 1 | Some n \<Rightarrow> n)"
  "negative (int_opts sp neg up pre) = neg" "upper (int_opts sp neg up pre) = up" "write_prefix (int_opts sp neg up pre) = pre"
  "pad_with_zero (int_opts sp neg up pre) = sp_flags sp AND ZERO" "right_pad (int_opts sp neg up pre) = sp_flags sp AND LJUST"
  by (auto simp: int_opts_def directive_spec_def Let_def split: option.splits)

lemma directive_text_exists:
  assumes "base \<in> {2, 8, 10, 16}" and "field_bound w p \<le> INT_MAX"
  obtains tx where "int_text val base (int_opts (directive_spec fl w p st) neg up pre) = Some tx"
    "int (length tx) \<le> field_bound w p"
  using int_text_bound [of base "int_opts (directive_spec fl w p st) neg up pre" val] assms
  by (auto simp: directive_opts field_bound_def)

text \<open>The unsigned conversions: base, upper case, and whether they take a prefix.\<close>

definition unsigned_conv :: "char \<Rightarrow> int \<Rightarrow> bool \<Rightarrow> bool \<Rightarrow> bool" where
  "unsigned_conv c base up prefixed \<longleftrightarrow>
     (c, base, up, prefixed) \<in> {(CHR ''u'', 10, False, False), (CHR ''x'', 16, False, True), (CHR ''X'', 16, True, True),
       (CHR ''o'', 8, False, True), (CHR ''b'', 2, False, True), (CHR ''B'', 2, True, True)}"

lemma formatted_signed:
  assumes "decimal_reader to_int" and "directive_ok fl w p" and "field_bound w p \<le> INT_MAX" and "c \<in> {CHR ''d'', CHR ''i''}"
    and arg: "pop_signed_int st (a # ap) = Some (v, ap)" and "v \<noteq> LONG_MIN"
  obtains tx where "formatted to_int m wm (one_directive fl w p st c) (a # ap) = Some (tx, int (length tx))"
    "int_text (word_of_int \<bar>v\<bar>) 10 (int_opts (directive_spec fl w p st) (v < 0) False 0) = Some tx"
    "int (length tx) \<le> field_bound w p"
proof -
  obtain tx where tx: "int_text (word_of_int \<bar>v\<bar>) 10 (int_opts (directive_spec fl w p st) (v < 0) False 0) = Some tx"
      "int (length tx) \<le> field_bound w p"
    using directive_text_exists [of 10 w p "word_of_int \<bar>v\<bar>" fl st "v < 0" False 0] assms(3) by auto
  have "LONG_MIN \<le> sint x \<and> sint x \<le> LONG_MAX" "LONG_MIN \<le> sint y \<and> sint y \<le> LONG_MAX" for x :: u32 and y :: u64
    using sint_range_size [of x] sint_range_size [of y] by (simp_all add: word_size)
  then have "LONG_MIN \<le> v" "v \<le> LONG_MAX"
    using arg by (auto simp: pop_signed_int_def split: va.splits if_splits)
  then have neg: "(if v < 0 then ck64 (v * - 1) else Some v) = Some \<bar>v\<bar>" using assms(6) by (simp add: ck64_def int64_ok_def)
  let ?t = "(start_state m wm ap)\<lparr>pf_file := Some tx, pf_written := length tx\<rparr>"
  have "convert collect (ch c) (directive_spec fl w p st) (start_state m wm (a # ap)) = Some (?t, True)"
    using write_int_collect [OF _ tx(1), of "start_state m wm ap" "[]"] tx(2) assms(3,4) arg neg
    by (auto simp: convert_def conv_d_def start_state_def directive_spec_def Let_def)
  moreover have "ch c \<in> set conversion_chars" using assms(4) by (auto simp: conversion_chars_def bytes_def)
  ultimately show thesis using formatted_directive [OF assms(1,2), of c st m wm "a # ap" ?t tx] tx that by simp
qed

lemma formatted_unsigned:
  assumes "decimal_reader to_int" and "directive_ok fl w p" and "field_bound w p \<le> INT_MAX"
    and conv: "unsigned_conv c base up prefixed" and arg: "pop_unsigned_int st (a # ap) = Some (v, ap)"
  defines "opts \<equiv> int_opts (directive_spec fl w p st) False up (if prefixed then sp_flags (directive_spec fl w p st) AND ALT else 0)"
  obtains tx where "formatted to_int m wm (one_directive fl w p st c) (a # ap) = Some (tx, int (length tx))"
    "int_text v base opts = Some tx" "int (length tx) \<le> field_bound w p"
proof -
  have "base \<in> {2, 8, 10, 16}" using conv by (auto simp: unsigned_conv_def)
  then obtain tx where tx: "int_text v base opts = Some tx" "int (length tx) \<le> field_bound w p"
    unfolding opts_def using directive_text_exists [OF _ assms(3)] by metis
  let ?t = "(start_state m wm ap)\<lparr>pf_file := Some tx, pf_written := length tx\<rparr>"
  have w: "write_int collect (start_state m wm ap) v base opts = Some (?t, True)"
    using write_int_collect [OF _ tx(1), of "start_state m wm ap" "[]"] tx(2) assms(3) by (simp add: start_state_def)
  have s: "(start_state m wm (a # ap))\<lparr>pf_args := ap\<rparr> = start_state m wm ap" "pf_args (start_state m wm (a # ap)) = a # ap"
    "sp_state (directive_spec fl w p st) = st" by (simp_all add: start_state_def directive_spec_def Let_def)
  have "convert collect (ch c) (directive_spec fl w p st) (start_state m wm (a # ap)) = Some (?t, True)"
    using w conv arg unfolding opts_def
    by (auto simp: convert_def conv_u_def conv_x_def conv_o_def conv_b_def unsigned_conv_def s bytes_def)
  moreover have "ch c \<in> set conversion_chars" using conv by (auto simp: unsigned_conv_def conversion_chars_def bytes_def)
  ultimately show thesis using formatted_directive [OF assms(1,2), of c st m wm "a # ap" ?t tx] tx that by simp
qed

subsection \<open>Reading the text back\<close>

lemma digit_chars_class:
  assumes "2 \<le> b" and "b \<le> 16" and "c \<in> set (digit_chars up b n)"
  shows "digit_of (sint c) < int b"
  using assms digits_of_less [of b _ n] digit_of_chars by (fastforce simp: digit_chars_def)

lemma num_of_zeros: "num_of base 0 (replicate k 48 @ ds) = num_of base 0 ds"
  by (induction k) (simp_all add: num_of_def digit_of_def)

lemma digit_of_zero: "digit_of 48 = 0"
  by (simp add: digit_of_def)

definition is_number :: "int list \<Rightarrow> int \<Rightarrow> int \<Rightarrow> bool \<Rightarrow> int \<Rightarrow> bool \<Rightarrow> bool" where
  "is_number cs base base' sign n whole \<longleftrightarrow>
     (\<exists>ws sg pre ds stop more. cs = ws @ sg @ pre @ ds @ stop # more \<and>
        list_all (\<lambda>w. w = 32 \<or> 9 \<le> w \<and> w \<le> 13) ws \<and> sign_chars sg sign \<and> number_prefix base base' pre ds \<and>
        ds \<noteq> [] \<and> list_all (\<lambda>d. digit_of d < base') ds \<and> base' \<le> digit_of stop \<and> num_of base' 0 ds = n \<and>
        (whole \<longrightarrow> more = []))"

lemma text_is_number:
  assumes base: "base \<in> {2, 8, 10, 16}" and tx: "int_text val base opts = Some tx" and "pad_with_zero opts = 0"
    and pre: "base \<noteq> 10 \<longrightarrow> write_prefix opts \<noteq> 0" and nz: "val \<noteq> 0 \<or> precision opts \<noteq> 0"
  shows "is_number (map sint (tx @ [0])) (if base = 10 then 10 else 0) base (negative opts) (uint val) (right_pad opts = 0)"
proof -
  define digits where "digits = digit_chars (upper opts) (nat base) (unat val)"
  have dne: "digits \<noteq> []" by (simp add: digits_def digit_chars_def)
  obtain aw where t: "tx = (if right_pad opts = 0 then replicate (nat (min_width opts - aw)) (pad_char opts) else []) @
        sign_text opts @ prefix_text base True opts @
        replicate (nat (precision opts - int (length digits))) (ch CHR ''0'') @ digits @
        (if right_pad opts = 0 then [] else replicate (nat (min_width opts - aw)) (pad_char opts))"
    using int_text_parts [OF base tx] nz dne unfolding digits_def by auto
  have pad: "pad_char opts = 32" using assms(3) by (simp add: pad_char_def)
  define l r where "l = (if right_pad opts = 0 then nat (min_width opts - aw) else 0)"
    and "r = (if right_pad opts = 0 then 0 else nat (min_width opts - aw))"
  define sg where "sg = (if negative opts then [45] else if always_write_sign opts \<noteq> 0 then [43] else [] :: int list)"
  define ws where "ws = replicate l (32 :: int) @
    (if negative opts \<or> always_write_sign opts \<noteq> 0 \<or> plus_as_space opts = 0 then [] else [32])"
  define ds where "ds = replicate (nat (precision opts - int (length digits))) 48 @ map sint digits"
  let ?pre = "map sint (prefix_text base True opts)"
  obtain stop more where sm: "map sint (replicate r (32 :: u8) @ [0]) = stop # more" "stop \<in> {32, 0}" "r = 0 \<longrightarrow> more = []"
    by (cases r) auto
  have eq: "map sint (tx @ [0]) = ws @ sg @ ?pre @ ds @ stop # more"
    unfolding t sm(1) [symmetric] pad by (simp add: ws_def sg_def ds_def l_def r_def sign_text_def bytes_def)
  have "num_of base 0 ds = uint val" using num_of_digit_chars [of "nat base" "upper opts" "unat val"] base
    by (auto simp: ds_def num_of_zeros digits_def)
  moreover have "list_all (\<lambda>d. digit_of d < base) ds"
    using digit_chars_class [of "nat base" _ "upper opts" "unat val"] base
    by (auto simp: ds_def list_all_iff digits_def digit_of_zero)
  moreover have "number_prefix (if base = 10 then 10 else 0) base ?pre ds"
    using base pre by (auto simp: number_prefix_def prefix_text_def bytes_def)
  moreover have "base \<le> digit_of stop" using sm(2) base by (auto simp: digit_of_def)
  moreover have "ds \<noteq> []" "sign_chars sg (negative opts)" "list_all (\<lambda>w. w = 32 \<or> 9 \<le> w \<and> w \<le> 13) ws"
    using dne by (simp_all add: ds_def sg_def sign_chars_def ws_def list_all_iff)
  moreover have "right_pad opts = 0 \<longrightarrow> more = []" using sm(3) by (simp add: r_def)
  ultimately show ?thesis unfolding is_number_def eq by blast
qed

lemma chars_at_put: "chars_at (rd_char (put b a xs)) a (map sint xs)"
proof -
  have "cells_at m a xs \<Longrightarrow> chars_at (rd_char m) a (map sint xs)" for m
    by (induction xs arbitrary: a) (auto simp: rd_char_def)
  then show ?thesis using cells_at_put by blast
qed

lemma parse_number:
  fixes b :: "u8 mem" and a :: nat
  assumes "is_number (map sint (tx @ [0])) base base' sign n whole"
  defines "b' \<equiv> put b a (tx @ [0])"
  shows "\<exists>e. strtol b' a base = map_option (\<lambda>(r, err). (r, e, err)) (int_result True sign n) \<and>
    strtoul b' a base = map_option (\<lambda>(r, err). (r, e, err)) (int_result False sign n) \<and>
    (whole \<longrightarrow> e = a + length tx)"
proof -
  obtain ws sg pre ds stop more where N: "map sint (tx @ [0]) = ws @ sg @ pre @ ds @ stop # more"
      "list_all (\<lambda>w. w = 32 \<or> 9 \<le> w \<and> w \<le> 13) ws" "sign_chars sg sign" "number_prefix base base' pre ds"
      "ds \<noteq> []" "list_all (\<lambda>d. digit_of d < base') ds" "base' \<le> digit_of stop" "num_of base' 0 ds = n" "whole \<longrightarrow> more = []"
    using assms(1) unfolding is_number_def by blast
  have "chars_at (rd_char b') a ((ws @ sg @ pre @ ds @ [stop]) @ more)"
    using chars_at_put [of b a "tx @ [0]"] N(1) by (simp add: b'_def)
  then have "chars_at (rd_char b') a (ws @ sg @ pre @ ds @ [stop])" unfolding chars_at_append by blast
  then have num: "number_at (rd_char b') a base ws sg pre ds stop base'" using N by (simp add: number_at_def)
  have rd: "\<forall>p c. rd_char b' p = Some c \<longrightarrow> char.ok c" using rd_char_ok by blast
  have "length (map sint (tx @ [0]) :: int list) = length (ws @ sg @ pre @ ds) + 1 + length more" unfolding N(1) by simp
  then have e: "whole \<longrightarrow> a + length (ws @ sg @ pre @ ds) = a + length tx" using N(9) by auto
  show ?thesis unfolding strtol_def strtoul_def char.str_to_int_eq [OF num N(3) rd] N(8)
    by (intro exI [of _ "a + length (ws @ sg @ pre @ ds)"] conjI e refl)
qed

lemma vsnprintf_fits:
  assumes "formatted to_int m wm fmt ap = Some (out, int (length out))" and "mapped b buffer sz" and "length out < sz"
  shows "\<exists>s. vsnprintf to_int b buffer sz m wm fmt ap = Some (put b buffer (out @ [0]), int (length out), s)"
proof -
  have "mapped b buffer (min sz (length out + 1))" using assms(2) by (rule mapped_mono) simp
  then obtain s where "vsnprintf to_int b buffer sz m wm fmt ap =
      Some (if sz = 0 then b else put b buffer (take (sz - 1) out @ [0]), int (length out), s)"
    using vsnprintf_of_text [OF assms(1)] by blast
  then show ?thesis using assms(3) by simp
qed

lemma flags_without:
  "set fl \<subseteq> set flag_chars \<Longrightarrow> ch CHR ''0'' \<notin> set fl \<Longrightarrow> foldl flag_step f fl AND ZERO = f AND ZERO"
  "set fl \<subseteq> set flag_chars \<Longrightarrow> ch CHR ''-'' \<notin> set fl \<Longrightarrow> foldl flag_step f fl AND LJUST = f AND LJUST"
proof -
  have step: "c \<in> set flag_chars \<Longrightarrow> c \<noteq> 48 \<Longrightarrow> flag_step f c AND ZERO = f AND ZERO"
    "c \<in> set flag_chars \<Longrightarrow> c \<noteq> 45 \<Longrightarrow> flag_step f c AND LJUST = f AND LJUST" for f c
    by (auto simp: flag_step_def flag_chars_def bytes_def bit.conj_disj_distrib2)
  show "set fl \<subseteq> set flag_chars \<Longrightarrow> ch CHR ''0'' \<notin> set fl \<Longrightarrow> foldl flag_step f fl AND ZERO = f AND ZERO"
    by (induction fl arbitrary: f) (auto simp: step(1))
  show "set fl \<subseteq> set flag_chars \<Longrightarrow> ch CHR ''-'' \<notin> set fl \<Longrightarrow> foldl flag_step f fl AND LJUST = f AND LJUST"
    by (induction fl arbitrary: f) (auto simp: step(2))
qed

lemma flags_with_alt:
  "set fl \<subseteq> set flag_chars \<Longrightarrow> ch CHR ''#'' \<in> set fl \<or> f AND ALT \<noteq> 0 \<Longrightarrow> foldl flag_step f fl AND ALT \<noteq> 0"
proof (induction fl arbitrary: f)
  case (Cons c fl)
  have "c \<in> set flag_chars \<Longrightarrow> c = 35 \<or> f AND ALT \<noteq> 0 \<Longrightarrow> flag_step f c AND ALT \<noteq> 0"
    by (auto simp: flag_step_def flag_chars_def bytes_def bit.conj_disj_distrib2)
  then show ?case using Cons by auto
qed auto

subsection \<open>The field in terms of the options\<close>

text \<open>
  The usual layout of a number with the options of \<open>write_int\<close>: sign, prefix, zeros up to the precision, digits, and padding to the
  width on the right, with zeros behind the prefix, or on the left.
\<close>

definition opts_field :: "u64 \<Rightarrow> int \<Rightarrow> IntOpts \<Rightarrow> u8 list" where
  "opts_field val base opts =
     (let digits = (if val = 0 \<and> precision opts = 0 then [] else digit_chars (upper opts) (nat base) (unat val));
          body = replicate (nat (precision opts - int (length digits))) (ch CHR ''0'') @ digits;
          prefix = (if base = 8 then (if write_prefix opts \<noteq> 0 \<and> (body = [] \<or> hd body \<noteq> ch CHR ''0'') then bytes ''0'' else [])
                    else if val = 0 then [] else prefix_text base True opts);
          n = nat (min_width opts - int (length (sign_text opts @ prefix @ body))) in
      if right_pad opts \<noteq> 0 then sign_text opts @ prefix @ body @ replicate n (ch CHR '' '')
      else if pad_with_zero opts \<noteq> 0 then sign_text opts @ prefix @ replicate n (ch CHR ''0'') @ body
      else replicate n (ch CHR '' '') @ sign_text opts @ prefix @ body)"

text \<open>The options for which the code makes that field.\<close>

definition regular_opts :: "u64 \<Rightarrow> int \<Rightarrow> IntOpts \<Rightarrow> bool" where
  "regular_opts val base opts \<longleftrightarrow>
     0 \<le> precision opts \<and> precision opts + 3 \<le> INT_MAX \<and>
     (plus_as_space opts = 0 \<or> negative opts \<or> always_write_sign opts \<noteq> 0 \<or> min_width opts \<le> 0) \<and>
     (pad_with_zero opts \<noteq> 0 \<longrightarrow> right_pad opts = 0 \<and> sign_text opts = [] \<and> write_prefix opts = 0) \<and>
     (write_prefix opts \<noteq> 0 \<longrightarrow> val \<noteq> 0 \<and> (base = 8 \<longrightarrow> precision opts \<le> 1))"

lemma nth_LOWER_ne: "0 < d \<Longrightarrow> d < 16 \<Longrightarrow> (if up then CHARS else LOWER_CHARS) ! d \<noteq> ch CHR ''0''"
proof -
  have "list_all (\<lambda>d. d \<noteq> 0 \<longrightarrow> CHARS ! d \<noteq> ch CHR ''0'' \<and> LOWER_CHARS ! d \<noteq> ch CHR ''0'') [0..<16]" by code_simp
  then show "0 < d \<Longrightarrow> d < 16 \<Longrightarrow> ?thesis" by (auto simp: list_all_iff)
qed

lemma hd_digit_chars: "2 \<le> b \<Longrightarrow> b \<le> 16 \<Longrightarrow> 0 < n \<Longrightarrow> hd (digit_chars up b n) \<noteq> ch CHR ''0''"
  using digits_of_hd [of b n] digits_of_less [of b "hd (digits_of b n)" n] nth_LOWER_ne [of "hd (digits_of b n)" up]
  by (simp add: digit_chars_def hd_map)

lemma int_text_standard:
  assumes base: "base \<in> {2, 8, 10, 16}" and reg: "regular_opts val base opts"
  shows "int_text val base opts = Some (opts_field val base opts)"
proof -
  define digits where "digits = (if val = 0 \<and> precision opts = 0 then [] else digit_chars (upper opts) (nat base) (unat val))"
  note R = reg [unfolded regular_opts_def]
  obtain tx where tx: "int_text val base opts = Some tx" using int_text_bound [OF base] R by blast
  obtain aw where aw: "actual_width (int (length digits)) base opts = Some aw"
      "tx = (if right_pad opts = 0 then replicate (nat (min_width opts - aw)) (pad_char opts) else []) @
        sign_text opts @ prefix_text base (digits \<noteq> []) opts @
        replicate (nat (precision opts - int (length digits))) (ch CHR ''0'') @ digits @
        (if right_pad opts = 0 then [] else replicate (nat (min_width opts - aw)) (pad_char opts))"
    using int_text_parts [OF base tx] unfolding digits_def by blast
  have "length digits \<le> 64" using digit_chars_length [of "nat base" "upper opts" val] base by (auto simp: digits_def)
  then have "aw = max (int (length digits)) (precision opts) + (if negative opts \<or> always_write_sign opts \<noteq> 0 then 1 else 0) +
      int (length (prefix_text base (digits \<noteq> []) opts))"
    using actual_width_eq [of "int (length digits)" opts base] aw(1) R by (simp add: prefix_length)
  then have n: "nat (min_width opts - aw) = nat (min_width opts - int (length (sign_text opts @ prefix_text base (digits \<noteq> []) opts @
      replicate (nat (precision opts - int (length digits))) (ch CHR ''0'') @ digits)))"
    using R by (auto simp: sign_text_def bytes_def)
  have v: "unat val = 0 \<longleftrightarrow> val = 0" by (rule unsigned_eq_0_iff)
  have dne: "val \<noteq> 0 \<Longrightarrow> digits \<noteq> []" by (simp add: digits_def digit_chars_def)
  have oct: "hd digits \<noteq> 48 \<and> nat (precision opts - int (length digits)) = 0" if "write_prefix opts \<noteq> 0" "base = 8"
  proof -
    have "val \<noteq> 0" "precision opts \<le> 1" using that R by auto
    then have "digits = digit_chars (upper opts) 8 (unat val)" "0 < unat val" using that v by (auto simp: digits_def)
    moreover have "precision opts \<le> int (length digits)" using dne \<open>val \<noteq> 0\<close> \<open>precision opts \<le> 1\<close> by (cases digits) auto
    ultimately show ?thesis using hd_digit_chars [of 8 "unat val" "upper opts"] by simp
  qed
  have pre: "prefix_text base (digits \<noteq> []) opts =
    (if base = 8 then (if write_prefix opts \<noteq> 0 \<and> (replicate (nat (precision opts - int (length digits))) (ch CHR ''0'') @ digits = [] \<or>
         hd (replicate (nat (precision opts - int (length digits))) (ch CHR ''0'') @ digits) \<noteq> ch CHR ''0'') then bytes ''0'' else [])
     else if val = 0 then [] else prefix_text base True opts)"
    using R dne oct by (auto simp: prefix_text_def)
  have "tx = opts_field val base opts"
    unfolding aw(2) n opts_field_def Let_def digits_def [symmetric] pre [symmetric]
    using R by (auto simp: pad_char_def prefix_text_def)
  then show ?thesis using tx by simp
qed

subsection \<open>Properties\<close>

text \<open>A reader that meets the contract of \<open>hz::to_integer\<close>, for the concrete instances below.\<close>

definition sample_reader :: to_integer where
  "sample_reader xs = (let ds = takeWhile is_dec xs in (num_of 10 0 (map sint ds), length ds))"

lemma sample_reader: "decimal_reader sample_reader"
  unfolding decimal_reader_def
proof (intro allI impI)
  fix n and rest :: "u8 list"
  assume "rest = [] \<or> \<not> is_dec (hd rest)"
  then have "takeWhile is_dec rest = []" by (cases rest) auto
  then have "takeWhile is_dec (dec_text n @ rest) = dec_text n"
    using dec_text_chars [of _ n] by (simp add: takeWhile_append2)
  then show "sample_reader (dec_text n @ rest) = (int n, length (dec_text n))"
    using num_of_digit_chars [of 10 True n] by (simp add: sample_reader_def Let_def dec_text_def)
qed

lemma mapped_mem_of: "mapped (mem_of a xs) a (length xs)"
  by (simp add: mapped_def mem_of_simp)

lemma pop_signed_range: "pop_signed_int st ap = Some (v, ap') \<Longrightarrow> LONG_MIN \<le> v \<and> v \<le> LONG_MAX"
proof -
  have "LONG_MIN \<le> sint x \<and> sint x \<le> LONG_MAX" "LONG_MIN \<le> sint y \<and> sint y \<le> LONG_MAX" for x :: u32 and y :: u64
    using sint_range_size [of x] sint_range_size [of y] by (simp_all add: word_size)
  then show "pop_signed_int st ap = Some (v, ap') \<Longrightarrow> ?thesis"
    by (auto simp: pop_signed_int_def split: va.splits if_splits list.splits)
qed

lemma directive_flags:
  "sp_flags (directive_spec fl w p st) AND LJUST = foldl flag_step 0 fl AND LJUST"
  "sp_flags (directive_spec fl w p st) AND ALT = foldl flag_step 0 fl AND ALT"
  "foldl flag_step 0 fl AND ZERO = 0 \<Longrightarrow> sp_flags (directive_spec fl w p st) AND ZERO = 0"
  by (auto simp: directive_spec_def Let_def and.assoc)

lemma printed_number:
  assumes tx: "int_text (word_of_int \<bar>v\<bar>) 10 (int_opts (directive_spec fl w p st) (v < 0) False 0) = Some tx"
    and "directive_ok fl w p" and "ch CHR ''0'' \<notin> set fl"
    and "pop_signed_int st [a] = Some (v, [])" and "v \<noteq> LONG_MIN" and "v \<noteq> 0 \<or> p \<noteq> Some 0"
  shows "is_number (map sint (tx @ [0])) 10 10 (v < 0) \<bar>v\<bar>
    (right_pad (int_opts (directive_spec fl w p st) (v < 0) False 0) = 0)"
proof -
  let ?o = "int_opts (directive_spec fl w p st) (v < 0) False 0"
  have v: "\<bar>v\<bar> \<le> LONG_MAX" using pop_signed_range [OF assms(4)] assms(5) by auto
  then have u: "uint (word_of_int \<bar>v\<bar> :: u64) = \<bar>v\<bar>" by (simp add: uint_word_of_int)
  have "word_of_int \<bar>v\<bar> = (0 :: u64) \<longleftrightarrow> v = 0" using u by (metis abs_eq_0 uint_0_iff)
  then have nz: "word_of_int \<bar>v\<bar> \<noteq> (0 :: u64) \<or> precision ?o \<noteq> 0"
    using assms(6) by (auto simp: directive_opts split: option.splits)
  note F = flags_without [of fl 0] assms(2) [unfolded directive_ok_def]
  show "is_number (map sint (tx @ [0])) 10 10 (v < 0) \<bar>v\<bar> (right_pad ?o = 0)"
    using text_is_number [OF _ tx _ _ nz] F assms(3) u by (simp add: directive_opts directive_flags)
qed

text \<open>
  C21. What \<open>snprintf\<close> prints with \<^verbatim>\<open>%d\<close> or \<^verbatim>\<open>%i\<close>, with any length modifier, any width and precision that
  fit the buffer and any flags but zero, \<open>strtol\<close> reads back: every value but \<open>LONG_MIN\<close> returns, except for 0 with precision 0, which prints no digit, and
  unless the field is padded on the right the end pointer is at its end.
\<close>

theorem printf_strtol_round_trip:
  assumes "decimal_reader to_int" and "directive_ok fl w p" and "ch CHR ''0'' \<notin> set fl" and "c \<in> {CHR ''d'', CHR ''i''}"
    and "pop_signed_int st [a] = Some (v, [])" and "v \<noteq> LONG_MIN" and "v \<noteq> 0 \<or> p \<noteq> Some 0"
    and "mapped b buffer sz" and "field_bound w p < int sz" and "field_bound w p \<le> INT_MAX"
  shows "\<exists>b' r s e. vsnprintf to_int b buffer sz m wm (one_directive fl w p st c) [a] = Some (b', r, s) \<and>
    strtol b' buffer 10 = Some (v, e, None) \<and> (ch CHR ''-'' \<notin> set fl \<longrightarrow> e = buffer + nat r)"
proof -
  let ?o = "int_opts (directive_spec fl w p st) (v < 0) False 0"
  obtain tx where tx: "formatted to_int m wm (one_directive fl w p st c) [a] = Some (tx, int (length tx))"
      "int_text (word_of_int \<bar>v\<bar>) 10 ?o = Some tx" "int (length tx) \<le> field_bound w p"
    using formatted_signed [OF assms(1,2,10,4,5,6)] by blast
  then obtain s where s: "vsnprintf to_int b buffer sz m wm (one_directive fl w p st c) [a] =
      Some (put b buffer (tx @ [0]), int (length tx), s)"
    using vsnprintf_fits [OF tx(1) assms(8)] assms(9) by auto
  have v: "\<bar>v\<bar> \<le> LONG_MAX" using pop_signed_range [OF assms(5)] assms(6) by auto
  obtain e where e: "strtol (put b buffer (tx @ [0])) buffer 10 = map_option (\<lambda>(r, err). (r, e, err)) (int_result True (v < 0) \<bar>v\<bar>)"
      "right_pad ?o = 0 \<longrightarrow> e = buffer + length tx"
    using parse_number [OF printed_number [OF tx(2) assms(2,3,5,6,7)]] by blast
  moreover have "int_result True (v < 0) \<bar>v\<bar> = Some (v, None)" using v unfolding abs_if by (cases "v < 0") (simp_all add: int_result_def)
  moreover have "ch CHR ''-'' \<notin> set fl \<Longrightarrow> right_pad ?o = 0" using flags_without [of fl 0] assms(2) [unfolded directive_ok_def] by (simp add: directive_opts directive_flags)
  ultimately show ?thesis using s by auto
qed

theorem printf_strtol_round_trip_witness:
  "\<exists>b' r s e. vsnprintf sample_reader (mem_of 0 (replicate 80 0)) 0 80 Map.empty Map.empty
      (one_directive (bytes ''+'') (Some 12) (Some 3) Sl CHR ''d'') [VLong (- 42)] = Some (b', r, s) \<and>
    strtol b' 0 10 = Some (- 42, e, None) \<and> e = nat r"
proof -
  have "mapped (mem_of 0 (replicate 80 (0 :: u8))) 0 80" using mapped_mem_of [of 0 "replicate 80 (0 :: u8)"] by simp
  then show ?thesis
    using printf_strtol_round_trip [OF sample_reader, of "bytes ''+''" "Some 12" "Some 3" "CHR ''d''" Sl "VLong (- 42)" "- 42"
        "mem_of 0 (replicate 80 0)" 0 80 Map.empty Map.empty]
    by (simp add: directive_ok_def flag_chars_def bytes_def pop_signed_int_def field_bound_def)
qed

text \<open>
  C29. The unsigned conversions, with the \<^verbatim>\<open>#\<close> prefix for the bases other than ten, round-trip through
  \<open>strtoul\<close> for every 64-bit value, except for 0 with precision 0: the prefix \<open>snprintf\<close> writes tells \<open>strtoul\<close> the base.
\<close>

theorem printf_strtoul_round_trip:
  assumes "decimal_reader to_int" and "directive_ok fl w p" and "ch CHR ''0'' \<notin> set fl"
    and "unsigned_conv c base up prefixed" and "prefixed \<longrightarrow> ch CHR ''#'' \<in> set fl"
    and "pop_unsigned_int st [a] = Some (v, [])" and "v \<noteq> 0 \<or> p \<noteq> Some 0"
    and "mapped b buffer sz" and "field_bound w p < int sz" and "field_bound w p \<le> INT_MAX"
  shows "\<exists>b' r s e. vsnprintf to_int b buffer sz m wm (one_directive fl w p st c) [a] = Some (b', r, s) \<and>
    strtoul b' buffer (if base = 10 then 10 else 0) = Some (uint v, e, None) \<and> (ch CHR ''-'' \<notin> set fl \<longrightarrow> e = buffer + nat r)"
proof -
  let ?d = "directive_spec fl w p st"
  let ?o = "int_opts ?d False up (if prefixed then sp_flags ?d AND ALT else 0)"
  obtain tx where tx: "formatted to_int m wm (one_directive fl w p st c) [a] = Some (tx, int (length tx))"
      "int_text v base ?o = Some tx" "int (length tx) \<le> field_bound w p"
    using formatted_unsigned [OF assms(1,2,10,4,6)] by blast
  then obtain s where s: "vsnprintf to_int b buffer sz m wm (one_directive fl w p st c) [a] =
      Some (put b buffer (tx @ [0]), int (length tx), s)"
    using vsnprintf_fits [OF tx(1) assms(8)] assms(9) by auto
  have base: "base \<in> {2, 8, 10, 16}" and pre: "base \<noteq> 10 \<longrightarrow> prefixed" using assms(4) by (auto simp: unsigned_conv_def)
  have nz: "v \<noteq> 0 \<or> precision ?o \<noteq> 0" using assms(7) by (auto simp: directive_opts split: option.splits)
  note F = flags_without [of fl 0] flags_with_alt [of fl 0] assms(2) [unfolded directive_ok_def]
  have "is_number (map sint (tx @ [0])) (if base = 10 then 10 else 0) base False (uint v) (right_pad ?o = 0)"
    using text_is_number [OF base tx(2) _ _ nz] F assms(3,5) pre by (simp add: directive_opts directive_flags)
  then obtain e where e: "strtoul (put b buffer (tx @ [0])) buffer (if base = 10 then 10 else 0) =
        map_option (\<lambda>(r, err). (r, e, err)) (int_result False False (uint v))"
      "right_pad ?o = 0 \<longrightarrow> e = buffer + length tx"
    using parse_number by blast
  moreover have "int_result False False (uint v) = Some (uint v, None)" using uint_lt2p [of v] by (simp add: int_result_def)
  moreover have "ch CHR ''-'' \<notin> set fl \<Longrightarrow> right_pad ?o = 0" using flags_without [of fl 0] assms(2) [unfolded directive_ok_def] by (simp add: directive_opts directive_flags)
  ultimately show ?thesis using s by auto
qed

theorem printf_strtoul_round_trip_witness:
  "\<exists>b' r s e. vsnprintf sample_reader (mem_of 0 (replicate 80 0)) 0 80 Map.empty Map.empty
      (one_directive (bytes ''#'') None None Sz CHR ''X'') [VLong 0xDEADBEEF] = Some (b', r, s) \<and>
    strtoul b' 0 0 = Some (0xDEADBEEF, e, None) \<and> e = nat r"
proof -
  have "mapped (mem_of 0 (replicate 80 (0 :: u8))) 0 80" using mapped_mem_of [of 0 "replicate 80 (0 :: u8)"] by simp
  then show ?thesis
    using printf_strtoul_round_trip [OF sample_reader, of "bytes ''#''" None None "CHR ''X''" 16 True True Sz "VLong 0xDEADBEEF" "0xDEADBEEF"
        "mem_of 0 (replicate 80 0)" 0 80 Map.empty Map.empty]
    by (simp add: directive_ok_def flag_chars_def bytes_def pop_unsigned_int_def field_bound_def unsigned_conv_def)
qed

text \<open>An integer directive with its argument: the number, base and options it gives \<open>write_int\<close>.\<close>

definition int_directive :: "char \<Rightarrow> conv_spec \<Rightarrow> va \<Rightarrow> u64 \<Rightarrow> int \<Rightarrow> IntOpts \<Rightarrow> bool" where
  "int_directive c sp a val base opts \<longleftrightarrow>
     (c \<in> {CHR ''d'', CHR ''i''} \<and> base = 10 \<and>
        (\<exists>v. pop_signed_int (sp_state sp) [a] = Some (v, []) \<and> v \<noteq> LONG_MIN \<and> val = word_of_int \<bar>v\<bar> \<and>
           opts = int_opts sp (v < 0) False 0)) \<or>
     (\<exists>up prefixed. unsigned_conv c base up prefixed \<and> pop_unsigned_int (sp_state sp) [a] = Some (val, []) \<and>
        opts = int_opts sp False up (if prefixed then sp_flags sp AND ALT else 0))"

lemma sp_state_directive [simp]: "sp_state (directive_spec fl w p st) = st"
  by (simp add: directive_spec_def Let_def)

lemma formatted_int:
  assumes "decimal_reader to_int" and "directive_ok fl w p" and "field_bound w p \<le> INT_MAX"
    and "int_directive c (directive_spec fl w p st) a val base opts"
  obtains tx where "formatted to_int m wm (one_directive fl w p st c) [a] = Some (tx, int (length tx))"
    "int_text val base opts = Some tx" "base \<in> {2, 8, 10, 16}"
proof -
  consider v where "c \<in> {CHR ''d'', CHR ''i''}" "base = 10" "pop_signed_int st [a] = Some (v, [])" "v \<noteq> LONG_MIN"
      "val = word_of_int \<bar>v\<bar>" "opts = int_opts (directive_spec fl w p st) (v < 0) False 0"
    | up prefixed where "unsigned_conv c base up prefixed" "pop_unsigned_int st [a] = Some (val, [])"
      "opts = int_opts (directive_spec fl w p st) False up (if prefixed then sp_flags (directive_spec fl w p st) AND ALT else 0)"
    using assms(4) unfolding int_directive_def by auto
  then show thesis
  proof cases
    case 1
    then show ?thesis using formatted_signed [OF assms(1-3) 1(1,3,4), of m wm] that by blast
  next
    case 2
    then show ?thesis using formatted_unsigned [OF assms(1-3) 2(1,2), of m wm] that by (auto simp: unsigned_conv_def)
  qed
qed

subsection \<open>The field of ISO C\<close>

text \<open>
  The field the standard describes for a directive, from the letter, the flags, the width, the precision and the
  value alone.  The argument is first converted to the type the length modifier names; the sign
  flags apply to signed conversions only; \<^verbatim>\<open>b\<close> and \<^verbatim>\<open>B\<close> are those of C23.
\<close>

definition signed_conv :: "char \<Rightarrow> bool" where
  "signed_conv c \<longleftrightarrow> c = CHR ''d'' \<or> c = CHR ''i''"

definition iso_arg :: "char \<Rightarrow> State \<Rightarrow> va \<Rightarrow> int option" where
  "iso_arg c st a =
     (case a of
        VInt x \<Rightarrow>
          (if st = Shh then Some (if signed_conv c then sint (ucast x :: 8 word) else uint (ucast x :: 8 word))
           else if st = Sh then Some (if signed_conv c then sint (ucast x :: 16 word) else uint (ucast x :: 16 word))
           else if st = SNone then Some (if signed_conv c then sint x else uint x)
           else None)
      | VLong x \<Rightarrow> if st \<in> {Sl, Sll, Sj, Sz, St} then Some (if signed_conv c then sint x else uint x) else None
      | _ \<Rightarrow> None)"

definition passed_value :: "char \<Rightarrow> va \<Rightarrow> int" where
  "passed_value c a =
     (case a of VInt x \<Rightarrow> if signed_conv c then sint x else uint x | VLong x \<Rightarrow> if signed_conv c then sint x else uint x | _ \<Rightarrow> 0)"

definition iso_base :: "char \<Rightarrow> nat" where
  "iso_base c = (if c = CHR ''x'' \<or> c = CHR ''X'' then 16 else if c = CHR ''o'' then 8 else if c = CHR ''b'' \<or> c = CHR ''B'' then 2 else 10)"

definition iso_sign :: "char \<Rightarrow> u8 list \<Rightarrow> int \<Rightarrow> u8 list" where
  "iso_sign c fl v =
     (if \<not> signed_conv c then []
      else if v < 0 then bytes ''-''
      else if ch CHR ''+'' \<in> set fl then bytes ''+''
      else if ch CHR '' '' \<in> set fl then bytes '' '' else [])"

definition iso_field :: "char \<Rightarrow> u8 list \<Rightarrow> nat option \<Rightarrow> nat option \<Rightarrow> int \<Rightarrow> u8 list" where
  "iso_field c fl w p v =
     (let digits = (if v = 0 \<and> p = Some 0 then [] else digit_chars (c \<in> set ''XB'') (iso_base c) (nat \<bar>v\<bar>));
          body = replicate ((case p of None \<Rightarrow> 1 | Some k \<Rightarrow> k) - length digits) (ch CHR ''0'') @ digits;
          prefix = (if ch CHR ''#'' \<notin> set fl then []
                    else if c = CHR ''o'' then (if body = [] \<or> hd body \<noteq> ch CHR ''0'' then bytes ''0'' else [])
                    else if c \<in> set ''xXbB'' \<and> v \<noteq> 0 then [ch CHR ''0'', ch c] else []);
          sign = iso_sign c fl v;
          n = (case w of None \<Rightarrow> 0 | Some k \<Rightarrow> k) - length (sign @ prefix @ body) in
      if ch CHR ''-'' \<in> set fl then sign @ prefix @ body @ replicate n (ch CHR '' '')
      else if ch CHR ''0'' \<in> set fl \<and> p = None then sign @ prefix @ replicate n (ch CHR ''0'') @ body
      else replicate n (ch CHR '' '') @ sign @ prefix @ body)"

text \<open>
  The directives for which the code prints it: the argument is in the range of the narrow type of an \<^verbatim>\<open>h\<close> modifier and is
  not \<open>LONG_MIN\<close>, an unsigned conversion has no sign flag, the space flag comes without a width, zero padding without
  left justification, sign or prefix, and a prefix neither on zero nor on an octal number with a precision.
\<close>

definition regular_directive :: "char \<Rightarrow> u8 list \<Rightarrow> nat option \<Rightarrow> nat option \<Rightarrow> va \<Rightarrow> int \<Rightarrow> bool" where
  "regular_directive c fl w p a v \<longleftrightarrow>
     passed_value c a = v \<and> v \<noteq> LONG_MIN \<and>
     (signed_conv c \<or> ch CHR ''+'' \<notin> set fl \<and> ch CHR '' '' \<notin> set fl) \<and>
     (iso_sign c fl v = bytes '' '' \<longrightarrow> w = None) \<and>
     (ch CHR ''0'' \<in> set fl \<and> p = None \<longrightarrow>
        ch CHR ''-'' \<notin> set fl \<and> iso_sign c fl v = [] \<and> (ch CHR ''#'' \<in> set fl \<longrightarrow> iso_base c = 10)) \<and>
     (ch CHR ''#'' \<in> set fl \<and> iso_base c \<noteq> 10 \<longrightarrow> v \<noteq> 0 \<and> (c = CHR ''o'' \<longrightarrow> p = None \<or> p = Some 0 \<or> p = Some 1))"

lemma flag_step_bits:
  assumes "c \<in> set flag_chars"
  shows "flag_step f c AND SIGN \<noteq> 0 \<longleftrightarrow> c = ch CHR ''+'' \<or> f AND SIGN \<noteq> 0"
    "flag_step f c AND LJUST \<noteq> 0 \<longleftrightarrow> c = ch CHR ''-'' \<or> f AND LJUST \<noteq> 0"
    "flag_step f c AND ALT \<noteq> 0 \<longleftrightarrow> c = ch CHR ''#'' \<or> f AND ALT \<noteq> 0"
    "f AND LJUST = 0 \<Longrightarrow> flag_step f c AND ZERO \<noteq> 0 \<longleftrightarrow> c = ch CHR ''0'' \<or> f AND ZERO \<noteq> 0"
    "f AND SIGN = 0 \<Longrightarrow> flag_step f c AND SPACE \<noteq> 0 \<longleftrightarrow> c = ch CHR '' '' \<or> f AND SPACE \<noteq> 0"
  using assms by (auto simp: flag_step_def flag_chars_def bytes_def bit.conj_disj_distrib2)

lemma flag_bits:
  assumes "set fl \<subseteq> set flag_chars"
  shows "foldl flag_step f fl AND SIGN \<noteq> 0 \<longleftrightarrow> ch CHR ''+'' \<in> set fl \<or> f AND SIGN \<noteq> 0"
    "foldl flag_step f fl AND LJUST \<noteq> 0 \<longleftrightarrow> ch CHR ''-'' \<in> set fl \<or> f AND LJUST \<noteq> 0"
    "foldl flag_step f fl AND ALT \<noteq> 0 \<longleftrightarrow> ch CHR ''#'' \<in> set fl \<or> f AND ALT \<noteq> 0"
  using assms by (induction fl arbitrary: f) (auto simp: flag_step_bits)

lemma flag_bits_zero:
  "set fl \<subseteq> set flag_chars \<Longrightarrow> ch CHR ''-'' \<notin> set fl \<Longrightarrow> f AND LJUST = 0 \<Longrightarrow>
     foldl flag_step f fl AND ZERO \<noteq> 0 \<longleftrightarrow> ch CHR ''0'' \<in> set fl \<or> f AND ZERO \<noteq> 0"
proof (induction fl arbitrary: f)
  case (Cons c fl)
  then have "flag_step f c AND LJUST = 0" using flag_step_bits(2) [of c f] by auto
  then show ?case using Cons flag_step_bits(4) [of c f] by auto
qed simp

lemma flag_bits_space:
  "set fl \<subseteq> set flag_chars \<Longrightarrow> ch CHR ''+'' \<notin> set fl \<Longrightarrow> f AND SIGN = 0 \<Longrightarrow>
     foldl flag_step f fl AND SPACE \<noteq> 0 \<longleftrightarrow> ch CHR '' '' \<in> set fl \<or> f AND SPACE \<noteq> 0"
proof (induction fl arbitrary: f)
  case (Cons c fl)
  then have "flag_step f c AND SIGN = 0" using flag_step_bits(1) [of c f] by auto
  then show ?case using Cons flag_step_bits(5) [of c f] by auto
qed simp

text \<open>The options of a directive in terms of its flags.\<close>

lemma directive_bits:
  fixes st neg up pre
  assumes "directive_ok fl w p"
  defines "opts \<equiv> int_opts (directive_spec fl w p st) neg up pre"
  shows "always_write_sign opts \<noteq> 0 \<longleftrightarrow> ch CHR ''+'' \<in> set fl"
    "right_pad opts \<noteq> 0 \<longleftrightarrow> ch CHR ''-'' \<in> set fl"
    "sp_flags (directive_spec fl w p st) AND ALT \<noteq> 0 \<longleftrightarrow> ch CHR ''#'' \<in> set fl"
    "ch CHR ''+'' \<notin> set fl \<Longrightarrow> plus_as_space opts \<noteq> 0 \<longleftrightarrow> ch CHR '' '' \<in> set fl"
    "ch CHR ''-'' \<notin> set fl \<Longrightarrow> pad_with_zero opts \<noteq> 0 \<longleftrightarrow> ch CHR ''0'' \<in> set fl \<and> p = None"
    "p \<noteq> None \<Longrightarrow> pad_with_zero opts = 0"
    "ch CHR ''0'' \<notin> set fl \<Longrightarrow> pad_with_zero opts = 0"
proof -
  have fl: "set fl \<subseteq> set flag_chars" using assms(1) by (simp add: directive_ok_def)
  note B = flag_bits [OF fl, of 0] flag_bits_zero [OF fl, of 0] flag_bits_space [OF fl, of 0] flags_without(1) [OF fl, of 0]
  show "always_write_sign opts \<noteq> 0 \<longleftrightarrow> ch CHR ''+'' \<in> set fl"
    "right_pad opts \<noteq> 0 \<longleftrightarrow> ch CHR ''-'' \<in> set fl"
    "sp_flags (directive_spec fl w p st) AND ALT \<noteq> 0 \<longleftrightarrow> ch CHR ''#'' \<in> set fl"
    "ch CHR ''+'' \<notin> set fl \<Longrightarrow> plus_as_space opts \<noteq> 0 \<longleftrightarrow> ch CHR '' '' \<in> set fl"
    "ch CHR ''-'' \<notin> set fl \<Longrightarrow> pad_with_zero opts \<noteq> 0 \<longleftrightarrow> ch CHR ''0'' \<in> set fl \<and> p = None"
    "p \<noteq> None \<Longrightarrow> pad_with_zero opts = 0"
    "ch CHR ''0'' \<notin> set fl \<Longrightarrow> pad_with_zero opts = 0"
    using B by (auto simp: opts_def int_opts_def directive_spec_def Let_def and.assoc)
qed

lemma opts_field_iso:
  fixes st
  assumes ok: "directive_ok fl w p" and reg: "regular_directive c fl w p a v" and c: "c \<in> set ''diuxXobB''"
    and val: "nat \<bar>v\<bar> = unat val" and sg: "signed_conv c \<or> 0 \<le> v"
  defines "opts \<equiv> int_opts (directive_spec fl w p st) (v < 0) (c \<in> set ''XB'')
    (if iso_base c = 10 then 0 else sp_flags (directive_spec fl w p st) AND ALT)"
  shows "opts_field val (int (iso_base c)) opts = iso_field c fl w p v"
proof -
  note R = reg [unfolded regular_directive_def]
  note B = directive_bits [OF ok, where st = st]
  have f: "min_width opts = int (case w of None \<Rightarrow> 0 | Some n \<Rightarrow> n)" "precision opts = int (case p of None \<Rightarrow> 1 | Some n \<Rightarrow> n)"
    "negative opts = (v < 0)" "upper opts = (c \<in> set ''XB'')" "right_pad opts \<noteq> 0 \<longleftrightarrow> ch CHR ''-'' \<in> set fl"
    "write_prefix opts \<noteq> 0 \<longleftrightarrow> iso_base c \<noteq> 10 \<and> ch CHR ''#'' \<in> set fl"
    using B(2,3) unfolding opts_def by (simp_all add: directive_opts)
  have zero: "ch CHR ''-'' \<notin> set fl \<Longrightarrow> pad_with_zero opts \<noteq> 0 \<longleftrightarrow> ch CHR ''0'' \<in> set fl \<and> p = None"
    unfolding opts_def by (rule B(5))
  have sign: "sign_text opts = iso_sign c fl v"
    using B(1,4) R sg unfolding sign_text_def iso_sign_def f(3) by (auto simp: opts_def)
  have v0: "val = 0 \<longleftrightarrow> v = 0" using val by (metis abs_eq_0 abs_ge_zero int_nat_eq of_nat_eq_0_iff unsigned_eq_0_iff)
  have digits: "(if val = 0 \<and> precision opts = 0 then [] else digit_chars (upper opts) (nat (int (iso_base c))) (unat val)) =
      (if v = 0 \<and> p = Some 0 then [] else digit_chars (c \<in> set ''XB'') (iso_base c) (nat \<bar>v\<bar>))"
    using v0 val by (auto simp: f split: option.splits)
  have b: "int (iso_base c) = 8 \<longleftrightarrow> c = CHR ''o''" by (auto simp: iso_base_def)
  have pre: "(if int (iso_base c) = 8 then (if write_prefix opts \<noteq> 0 \<and> (body = [] \<or> hd body \<noteq> ch CHR ''0'') then bytes ''0'' else [])
       else if val = 0 then [] else prefix_text (int (iso_base c)) True opts) =
      (if ch CHR ''#'' \<notin> set fl then []
       else if c = CHR ''o'' then (if body = [] \<or> hd body \<noteq> ch CHR ''0'' then bytes ''0'' else [])
       else if c \<in> set ''xXbB'' \<and> v \<noteq> 0 then [ch CHR ''0'', ch c] else [])" for body
    using c f(4,6) by (auto simp: b v0 prefix_text_def iso_base_def bytes_def)
  have n: "nat (min_width opts - int k) = (case w of None \<Rightarrow> 0 | Some k \<Rightarrow> k) - k" for k by (simp add: f nat_diff_distrib')
  have k: "nat (precision opts - int k) = (case p of None \<Rightarrow> 1 | Some k \<Rightarrow> k) - k" for k by (simp add: f nat_diff_distrib')
  show ?thesis
    unfolding opts_field_def iso_field_def Let_def digits pre sign n k using f(5) zero by (cases "ch CHR ''-'' \<in> set fl") auto
qed

lemma regular_directive_opts:
  fixes st
  assumes ok: "directive_ok fl w p" and fb: "field_bound w p \<le> INT_MAX" and reg: "regular_directive c fl w p a v"
    and val: "nat \<bar>v\<bar> = unat val" and sg: "signed_conv c \<or> 0 \<le> v"
  defines "opts \<equiv> int_opts (directive_spec fl w p st) (v < 0) (c \<in> set ''XB'')
    (if iso_base c = 10 then 0 else sp_flags (directive_spec fl w p st) AND ALT)"
  shows "regular_opts val (int (iso_base c)) opts"
proof -
  note R = reg [unfolded regular_directive_def]
  note B = directive_bits [OF ok, where st = st]
  have f: "min_width opts = int (case w of None \<Rightarrow> 0 | Some n \<Rightarrow> n)" "precision opts = int (case p of None \<Rightarrow> 1 | Some n \<Rightarrow> n)"
    "negative opts = (v < 0)" "right_pad opts \<noteq> 0 \<longleftrightarrow> ch CHR ''-'' \<in> set fl"
    "write_prefix opts \<noteq> 0 \<longleftrightarrow> iso_base c \<noteq> 10 \<and> ch CHR ''#'' \<in> set fl"
    using B(2,3) unfolding opts_def by (simp_all add: directive_opts)
  have sign: "sign_text opts = iso_sign c fl v"
    using B(1,4) R sg unfolding sign_text_def iso_sign_def f(3) by (auto simp: opts_def)
  have zero: "pad_with_zero opts \<noteq> 0 \<Longrightarrow> ch CHR ''0'' \<in> set fl \<and> p = None" unfolding opts_def using B(6,7) by blast
  have v0: "val = 0 \<longleftrightarrow> v = 0" using val by (metis abs_eq_0 abs_ge_zero int_nat_eq of_nat_eq_0_iff unsigned_eq_0_iff)
  have "precision opts + 3 \<le> INT_MAX" using fb by (simp add: f field_bound_def)
  moreover have "plus_as_space opts = 0 \<or> negative opts \<or> always_write_sign opts \<noteq> 0 \<or> min_width opts \<le> 0"
  proof (rule ccontr)
    assume n: "\<not> ?thesis"
    then have "iso_sign c fl v = bytes '' ''" unfolding sign [symmetric] sign_text_def by simp
    then show False using R n f(1) by simp
  qed
  moreover have "pad_with_zero opts \<noteq> 0 \<longrightarrow> right_pad opts = 0 \<and> sign_text opts = [] \<and> write_prefix opts = 0"
    using zero R f(4,5) sign by auto
  moreover have "write_prefix opts \<noteq> 0 \<longrightarrow> val \<noteq> 0 \<and> (int (iso_base c) = 8 \<longrightarrow> precision opts \<le> 1)"
    using R f(2,5) v0 by (auto simp: iso_base_def split: if_splits)
  ultimately show ?thesis by (simp add: regular_opts_def f(2))
qed

lemma iso_arg_directive:
  assumes "c \<in> set ''diuxXobB''" and "iso_arg c st a = Some v" and "regular_directive c fl w p a v" and "sp_state sp = st"
  obtains val where "nat \<bar>v\<bar> = unat val" "signed_conv c \<or> 0 \<le> v"
    "int_directive c sp a val (int (iso_base c))
       (int_opts sp (v < 0) (c \<in> set ''XB'') (if iso_base c = 10 then 0 else sp_flags sp AND ALT))"
proof (cases "signed_conv c")
  case True
  then have c: "c \<in> {CHR ''d'', CHR ''i''}" "iso_base c = 10" "c \<notin> set ''XB''" by (auto simp: signed_conv_def iso_base_def)
  have pop: "pop_signed_int st [a] = Some (v, [])" and ne: "v \<noteq> LONG_MIN"
    using assms(2,3) True by (auto simp: iso_arg_def regular_directive_def passed_value_def pop_signed_int_def split: va.splits if_splits)
  then have "\<bar>v\<bar> \<le> LONG_MAX" using pop_signed_range [OF pop] by auto
  then have "uint (word_of_int \<bar>v\<bar> :: u64) = \<bar>v\<bar>" by (simp add: uint_word_of_int)
  then have "nat \<bar>v\<bar> = unat (word_of_int \<bar>v\<bar> :: u64)" by (simp add: unat_eq_nat_uint)
  then show thesis using that [of "word_of_int \<bar>v\<bar>"] True pop ne assms(4) c by (auto simp: int_directive_def)
next
  case False
  have pv: "passed_value c a = v" using assms(3) by (simp add: regular_directive_def)
  have up: "uint (ucast y :: u64) = uint y" for y :: u32 by (rule uint_up_ucast) (simp add: is_up)
  have "\<exists>x. pop_unsigned_int st [a] = Some (x, []) \<and> v = uint x"
    using assms(2) pv False by (auto simp: iso_arg_def passed_value_def pop_unsigned_int_def up split: va.splits if_splits)
  then obtain x where x: "pop_unsigned_int st [a] = Some (x, [])" "v = uint x" by blast
  have u: "unsigned_conv c (int (iso_base c)) (c \<in> set ''XB'') (iso_base c \<noteq> 10)"
    using assms(1) False by (auto simp: unsigned_conv_def signed_conv_def iso_base_def)
  have "int_directive c sp a x (int (iso_base c))
       (int_opts sp (v < 0) (c \<in> set ''XB'') (if iso_base c = 10 then 0 else sp_flags sp AND ALT))"
    unfolding int_directive_def using u x assms(4)
    by (intro disjI2 exI [of _ "c \<in> set ''XB''"] exI [of _ "iso_base c \<noteq> 10"]) simp
  moreover have "nat \<bar>v\<bar> = unat x" "0 \<le> v" unfolding x(2) by simp_all
  ultimately show thesis using that by blast
qed

text \<open>
  C22. The integer conversions print the field ISO C describes (the converted argument with sign, prefix, zeros up to
  the precision, digits, and padding to the width) for every regular directive: the argument in the range of its type and
  not \<open>LONG_MIN\<close>, no sign flag on an unsigned conversion, no space flag with a width, no zero padding together with
  left justification, a sign or a prefix, and no prefix on zero or on an octal number with a precision above 1.
\<close>

theorem printf_standard_field:
  assumes "decimal_reader to_int" and "directive_ok fl w p" and "field_bound w p \<le> INT_MAX" and "c \<in> set ''diuxXobB''"
    and "iso_arg c st a = Some v" and "regular_directive c fl w p a v"
  shows "formatted to_int m wm (one_directive fl w p st c) [a] = Some (iso_field c fl w p v, int (length (iso_field c fl w p v)))"
proof -
  let ?sp = "directive_spec fl w p st"
  obtain val where val: "nat \<bar>v\<bar> = unat val" "signed_conv c \<or> 0 \<le> v"
    "int_directive c ?sp a val (int (iso_base c)) (int_opts ?sp (v < 0) (c \<in> set ''XB'') (if iso_base c = 10 then 0 else sp_flags ?sp AND ALT))"
    using iso_arg_directive [OF assms(4-6) sp_state_directive] by blast
  obtain tx where tx: "formatted to_int m wm (one_directive fl w p st c) [a] = Some (tx, int (length tx))"
      "int_text val (int (iso_base c)) (int_opts ?sp (v < 0) (c \<in> set ''XB'') (if iso_base c = 10 then 0 else sp_flags ?sp AND ALT)) = Some tx"
      "int (iso_base c) \<in> {2, 8, 10, 16}"
    using formatted_int [OF assms(1-3) val(3)] by blast
  then show ?thesis
    using int_text_standard [OF tx(3) regular_directive_opts [OF assms(2,3,6) val(1,2)]] opts_field_iso [OF assms(2,6,4) val(1,2)] by simp
qed

theorem printf_standard_field_witness:
  "formatted sample_reader Map.empty Map.empty (bytes ''%-8.3hd'') [VInt (- 7)] = Some (bytes ''-007    '', 8)"
proof -
  have fmt: "one_directive (bytes ''-'') (Some 8) (Some 3) Sh CHR ''d'' = bytes ''%-8.3hd''"
    by (simp add: one_directive_def directive_text_def opt_text_def dec_text_def digit_chars_def digits_of.simps CHARS_def bytes_def)
  have "iso_field CHR ''d'' (bytes ''-'') (Some 8) (Some 3) (- 7) = bytes ''-007    ''" by code_simp
  moreover have "iso_arg CHR ''d'' Sh (VInt (- 7)) = Some (- 7)" "regular_directive CHR ''d'' (bytes ''-'') (Some 8) (Some 3) (VInt (- 7)) (- 7)"
    by code_simp+
  moreover have "directive_ok (bytes ''-'') (Some 8) (Some 3)" "field_bound (Some 8) (Some 3) \<le> INT_MAX"
    by (simp_all add: directive_ok_def flag_chars_def bytes_def field_bound_def)
  ultimately show ?thesis
    using printf_standard_field [OF sample_reader, of "bytes ''-''" "Some 8" "Some 3" "CHR ''d''" Sh "VInt (- 7)" "- 7" Map.empty Map.empty]
    unfolding fmt by (simp add: bytes_def)
qed

lemma formatted_by_text:
  assumes "decimal_reader to_int" and "set fl \<subseteq> set flag_chars" and "w \<in> {None, Some 5}"
    and "int_directive c (directive_spec fl w None st) a val base opts" and "int_text val base opts = Some tx"
  shows "formatted to_int m wm (one_directive fl w None st c) [a] = Some (tx, int (length tx))"
proof -
  have "directive_ok fl w None" "field_bound w None \<le> INT_MAX"
    using assms(2,3) by (auto simp: directive_ok_def field_bound_def)
  then obtain tx' where "formatted to_int m wm (one_directive fl w None st c) [a] = Some (tx', int (length tx'))"
      "int_text val base opts = Some tx'" using formatted_int [OF assms(1) _ _ assms(4), of m wm] by blast
  then show ?thesis using assms(5) by simp
qed

lemmas eval_directive = one_directive_def directive_text_def opt_text_def dec_text_def digit_chars_def digits_of.simps
  CHARS_def bytes_def flag_chars_def
lemmas eval_int_directive = int_directive_def pop_signed_int_def pop_unsigned_int_def unsigned_conv_def directive_spec_def
  flag_step_def int_opts_def bytes_def

text \<open>
  Where a directive is not regular the field is not the standard one: zero padding comes before the sign
  (\<^verbatim>\<open>%05d\<close> of -42), a left-justified field is padded with zeros when the zero flag comes first
  (\<^verbatim>\<open>%0-5d\<close> of 42, which reads as 42000), the space of the space flag is not counted in the width, zero gets a
  prefix, \<^verbatim>\<open>%hhd\<close> does not convert its argument to \<open>signed char\<close>, and \<^verbatim>\<open>%+u\<close> writes a sign.
\<close>

theorem printf_flag_divergences:
  assumes "decimal_reader to_int"
  shows "formatted to_int m wm (bytes ''%05d'') [VInt (- 42)] = Some (bytes ''00-42'', 5) \<and>
    formatted to_int m wm (bytes ''%0-5d'') [VInt 42] = Some (bytes ''42000'', 5) \<and>
    formatted to_int m wm (bytes ''% 5d'') [VInt 42] = Some (bytes ''    42'', 6) \<and>
    formatted to_int m wm (bytes ''%#x'') [VInt 0] = Some (bytes ''0x0'', 3) \<and>
    formatted to_int m wm (bytes ''%#o'') [VInt 0] = Some (bytes ''00'', 2) \<and>
    formatted to_int m wm (bytes ''%hhd'') [VInt 300] = Some (bytes ''300'', 3) \<and>
    formatted to_int m wm (bytes ''%+u'') [VInt 5] = Some (bytes ''+5'', 2)"
proof -
  define opts where "opts mw neg plus space zero right pre = \<lparr>min_width = mw, precision = 1, negative = neg, always_write_sign = plus,
    plus_as_space = space, pad_with_zero = zero, right_pad = right, upper = False, write_prefix = pre\<rparr>"
    for mw neg and plus space zero right pre :: u32
  have tx: "int_text 42 10 (opts 5 True 0 0 16 0 0) = Some (bytes ''00-42'')"
    "int_text 42 10 (opts 5 False 0 0 16 1 0) = Some (bytes ''42000'')"
    "int_text 42 10 (opts 5 False 0 4 0 0 0) = Some (bytes ''    42'')"
    "int_text 0 16 (opts 0 False 0 0 0 0 8) = Some (bytes ''0x0'')"
    "int_text 0 8 (opts 0 False 0 0 0 0 8) = Some (bytes ''00'')"
    "int_text 300 10 (opts 0 False 0 0 0 0 0) = Some (bytes ''300'')"
    "int_text 5 10 (opts 0 False 2 0 0 0 0) = Some (bytes ''+5'')"
    unfolding opts_def by code_simp+
  have dir: "int_directive CHR ''d'' (directive_spec (bytes ''0'') (Some 5) None SNone) (VInt (- 42)) 42 10 (opts 5 True 0 0 16 0 0)"
    "int_directive CHR ''d'' (directive_spec (bytes ''0-'') (Some 5) None SNone) (VInt 42) 42 10 (opts 5 False 0 0 16 1 0)"
    "int_directive CHR ''d'' (directive_spec (bytes '' '') (Some 5) None SNone) (VInt 42) 42 10 (opts 5 False 0 4 0 0 0)"
    "int_directive CHR ''x'' (directive_spec (bytes ''#'') None None SNone) (VInt 0) 0 16 (opts 0 False 0 0 0 0 8)"
    "int_directive CHR ''o'' (directive_spec (bytes ''#'') None None SNone) (VInt 0) 0 8 (opts 0 False 0 0 0 0 8)"
    "int_directive CHR ''d'' (directive_spec [] None None Shh) (VInt 300) 300 10 (opts 0 False 0 0 0 0 0)"
    "int_directive CHR ''u'' (directive_spec (bytes ''+'') None None SNone) (VInt 5) 5 10 (opts 0 False 2 0 0 0 0)"
    by (auto simp: eval_int_directive opts_def)
  note F = formatted_by_text [OF assms, where m = m and wm = wm]
  show ?thesis
    using F [OF _ _ dir(1) tx(1)] F [OF _ _ dir(2) tx(2)] F [OF _ _ dir(3) tx(3)]
      F [OF _ _ dir(4) tx(4)] F [OF _ _ dir(5) tx(5)] F [OF _ _ dir(6) tx(6)] F [OF _ _ dir(7) tx(7)]
    by (simp add: eval_directive)
qed

theorem printf_flag_divergences_witness:
  "formatted sample_reader Map.empty Map.empty (bytes ''%05d'') [VInt (- 42)] = Some (bytes ''00-42'', 5)"
  using printf_flag_divergences [OF sample_reader] by blast

end
