(* ===== verification/Scanf.thy ===== *)
theory Scanf
  imports Stdio Format_Int
begin

text \<open>
  Formatted input: \<open>vfscanf\<close> and \<open>vsscanf\<close> of \<^verbatim>\<open>src/ansi/stdio.cpp\<close>, with the character, string, set and
  integer conversions.  The floating-point conversions are outside the model, which has no
  result for them.

  The source is a state \<open>'s\<close> with its \<open>read\<close> member \<open>rd\<close> and \<open>ungetc\<close> as \<open>ug\<close>.  A format is the list of its
  bytes, as for \<open>vfprintf\<close>.  The destinations are addresses of one byte memory, and integers are
  stored in little-endian order.  A step returns the new state and, where the source returns, the value.
\<close>

subsection \<open>Reading characters\<close>

type_synonym 's unget = "int \<Rightarrow> 's \<Rightarrow> ('s \<times> int) option"

record 's sc =
  sc_src :: 's
  sc_chars :: nat
  sc_consumed :: int
  sc_mem :: "u8 mem"
  sc_args :: "va list"

type_synonym 's sc_result = "('s sc \<times> int option) option"

definition look_ahead :: "'s reader \<Rightarrow> 's unget \<Rightarrow> 's sc \<Rightarrow> ('s sc \<times> u8) option" where
  "look_ahead rd ug st =
     do { (s1, r, bs) \<leftarrow> rd (sc_src st) 1;
          if r \<noteq> 1 then Some (st\<lparr>sc_src := s1\<rparr>, 0)
          else (case bs of
              c # _ \<Rightarrow> do { (s2, _) \<leftarrow> ug (sint c) s1; Some (st\<lparr>sc_src := s2\<rparr>, c) }
            | [] \<Rightarrow> None) }"

definition consume :: "'s reader \<Rightarrow> 's sc \<Rightarrow> 's sc option" where
  "consume rd st =
     do { (s1, _, _) \<leftarrow> rd (sc_src st) 1; Some (st\<lparr>sc_src := s1, sc_chars := sc_chars st + 1\<rparr>) }"

partial_function (option) skip_spaces :: "'s reader \<Rightarrow> 's unget \<Rightarrow> 's sc \<Rightarrow> 's sc option" where
  "skip_spaces rd ug st =
     do { (st1, c) \<leftarrow> look_ahead rd ug st;
          sp \<leftarrow> isspace (sint c);
          if sp \<noteq> 0 then do { st2 \<leftarrow> consume rd st1; skip_spaces rd ug st2 } else Some st1 }"

definition consumed_or_eof :: "'s sc \<Rightarrow> int" where
  "consumed_or_eof st = (if sc_consumed st \<noteq> 0 then sc_consumed st else EOF)"

subsection \<open>Destinations\<close>

definition write_to_dest :: "nat option \<Rightarrow> u8 \<Rightarrow> u8 mem \<Rightarrow> (nat option \<times> u8 mem) option" where
  "write_to_dest dest c m =
     (case dest of None \<Rightarrow> Some (None, m) | Some d \<Rightarrow> do { m' \<leftarrow> store m d c; Some (Some (d + 1), m') })"

definition write_to_dest_wchar :: "nat option \<Rightarrow> u8 \<Rightarrow> u8 mem \<Rightarrow> (nat option \<times> u8 mem) option" where
  "write_to_dest_wchar dest c m =
     (case dest of None \<Rightarrow> Some (None, m)
      | Some d \<Rightarrow> do { m' \<leftarrow> store_list m d (le_bytes 4 (word_of_int (sint c))); Some (Some (d + 4), m') })"

definition write_int_to_dest :: "State \<Rightarrow> nat option \<Rightarrow> u64 \<Rightarrow> u8 mem \<Rightarrow> u8 mem option" where
  "write_int_to_dest st dest val m =
     (case dest of None \<Rightarrow> Some m
      | Some d \<Rightarrow>
          if st = SL then None
          else store_list m d (le_bytes (case st of SNone \<Rightarrow> 4 | Shh \<Rightarrow> 1 | Sh \<Rightarrow> 2 | _ \<Rightarrow> 8) val))"

subsection \<open>Characters, strings and sets\<close>

text \<open>
  The loop of the three conversions that copy characters: \<open>stop\<close> is the test that ends it, \<open>put\<close> the store.
  It returns the number of characters and whether it stopped before the width.
\<close>

fun copy_chars ::
    "'s reader \<Rightarrow> 's unget \<Rightarrow> (u8 \<Rightarrow> bool option) \<Rightarrow> (nat option \<Rightarrow> u8 \<Rightarrow> u8 mem \<Rightarrow> (nat option \<times> u8 mem) option) \<Rightarrow>
     nat \<Rightarrow> nat option \<Rightarrow> 's sc \<Rightarrow> ('s sc \<times> nat option \<times> nat \<times> bool) option" where
  "copy_chars rd ug stop wr 0 dest st = Some (st, dest, 0, False)"
| "copy_chars rd ug stop wr (Suc n) dest st =
     do { (st1, c) \<leftarrow> look_ahead rd ug st;
          stops \<leftarrow> stop c;
          if stops then Some (st1, dest, 0, True)
          else do { st2 \<leftarrow> consume rd st1;
                    (dest', m') \<leftarrow> wr dest c (sc_mem st2);
                    (st3, dest'', used, early) \<leftarrow> copy_chars rd ug stop wr n dest' (st2\<lparr>sc_mem := m'\<rparr>);
                    Some (st3, dest'', Suc used, early) } }"

definition dest_writer :: "State \<Rightarrow> (nat option \<Rightarrow> u8 \<Rightarrow> u8 mem \<Rightarrow> (nat option \<times> u8 mem) option) option" where
  "dest_writer st =
     (if st = SNone then Some write_to_dest else if st = Sl then Some write_to_dest_wchar else None)"

definition scan_c :: "'s reader \<Rightarrow> 's unget \<Rightarrow> State \<Rightarrow> int \<Rightarrow> bool \<Rightarrow> nat option \<Rightarrow> 's sc \<Rightarrow> 's sc_result" where
  "scan_c rd ug stt width has_width dest st =
     do { wr \<leftarrow> dest_writer stt;
          (st1, _, _, early) \<leftarrow>
            copy_chars rd ug (\<lambda>c. Some (c = 0)) wr (nat (if has_width then width else 1)) dest st;
          if early then Some (st1, Some (consumed_or_eof st1))
          else Some (if dest \<noteq> None then st1\<lparr>sc_consumed := sc_consumed st1 + 1\<rparr> else st1, None) }"

definition scan_string ::
    "'s reader \<Rightarrow> 's unget \<Rightarrow> (u8 \<Rightarrow> bool option) \<Rightarrow> State \<Rightarrow> int \<Rightarrow> bool \<Rightarrow> nat option \<Rightarrow> 's sc \<Rightarrow> 's sc_result" where
  "scan_string rd ug stop stt width has_width dest st =
     do { wr \<leftarrow> dest_writer stt;
          (st1, dest1, used, _) \<leftarrow> copy_chars rd ug stop wr (nat (if has_width then width else INT_MAX)) dest st;
          (_, m) \<leftarrow> wr dest1 0 (sc_mem st1);
          let st2 = st1\<lparr>sc_mem := m\<rparr>;
          if dest \<noteq> None \<and> used \<noteq> 0 then Some (st2\<lparr>sc_consumed := sc_consumed st2 + 1\<rparr>, None)
          else if used = 0 \<and> sc_consumed st2 = 0 then
            do { (st3, c) \<leftarrow> look_ahead rd ug st2; Some (st3, if c = 0 then Some EOF else None) }
          else Some (st2, None) }"

definition space_stop :: "u8 \<Rightarrow> bool option" where
  "space_stop c = (if c = 0 then Some True else do { sp \<leftarrow> isspace (sint c); Some (sp \<noteq> 0) })"

text \<open>The set of a \<^verbatim>\<open>%[\<close> conversion: its characters and the format after the closing bracket.\<close>

fun find_set_end :: "u8 list \<Rightarrow> (u8 list \<times> u8 list) option" where
  "find_set_end [] = None"
| "find_set_end (c # fmt) =
     (if c = ch CHR '']'' then Some ([], fmt) else do { (s, r) \<leftarrow> find_set_end fmt; Some (c # s, r) })"

definition find_set :: "u8 list \<Rightarrow> (bool \<times> u8 list \<times> u8 list) option" where
  "find_set fmt =
     (let invert = (deref fmt = ch CHR ''^''); start = (if invert then drop 1 fmt else fmt) in
      case start of
        [] \<Rightarrow> None
      | c # fmt' \<Rightarrow> do { (s, r) \<leftarrow> find_set_end fmt'; Some (invert, c # s, r) })"

text \<open>
  The loop of \<open>set_matches\<close>, which looks for the character in the set: \<open>first\<close> says that the index is 0.
\<close>

fun set_has :: "bool \<Rightarrow> u8 list \<Rightarrow> int \<Rightarrow> bool" where
  "set_has first [] c = False"
| "set_has first (set_c # rest) c =
     (if set_c = ch CHR ''-'' \<and> \<not> first \<and> rest \<noteq> [] then
        (if sint set_c \<le> c \<and> c \<le> sint (hd rest) then True else set_has False (tl rest) c)
      else if c = sint set_c then True
      else set_has False rest c)"

definition set_matches :: "bool \<Rightarrow> u8 list \<Rightarrow> int \<Rightarrow> bool" where
  "set_matches invert s c = (if invert then \<not> set_has True s c else set_has True s c)"

definition set_stop :: "bool \<Rightarrow> u8 list \<Rightarrow> u8 \<Rightarrow> bool option" where
  "set_stop invert s c = Some (c = 0 \<or> \<not> set_matches invert s (sint c))"

definition scan_set ::
    "'s reader \<Rightarrow> 's unget \<Rightarrow> bool \<Rightarrow> u8 list \<Rightarrow> State \<Rightarrow> int \<Rightarrow> bool \<Rightarrow> nat option \<Rightarrow> 's sc \<Rightarrow> 's sc_result" where
  "scan_set rd ug invert s stt width has_width dest st = scan_string rd ug (set_stop invert s) stt width has_width dest st"

subsection \<open>Integers\<close>

text \<open>The digit loop: \<open>cls\<close> gives the value of a character that continues the number.\<close>

fun scan_digits ::
    "'s reader \<Rightarrow> 's unget \<Rightarrow> (u8 \<Rightarrow> int option option) \<Rightarrow> u64 \<Rightarrow> nat \<Rightarrow> u64 \<Rightarrow> nat \<Rightarrow> 's sc \<Rightarrow> ('s sc \<times> u64 \<times> nat) option" where
  "scan_digits rd ug cls base 0 val used st = Some (st, val, used)"
| "scan_digits rd ug cls base (Suc n) val used st =
     do { (st1, c) \<leftarrow> look_ahead rd ug st;
          d \<leftarrow> cls c;
          case d of
            None \<Rightarrow> Some (st1, val, used)
          | Some v \<Rightarrow> do { st2 \<leftarrow> consume rd st1; scan_digits rd ug cls base n (val * base + word_of_int v) (used + 1) st2 } }"

definition dec_class :: "u8 \<Rightarrow> int option option" where
  "dec_class c = do { d \<leftarrow> isdigit (sint c); Some (if d \<noteq> 0 then Some (sint c - 48) else None) }"

definition oct_class :: "u8 \<Rightarrow> int option option" where
  "oct_class c = Some (if sint c < 48 \<or> 55 < sint c then None else Some (sint c - 48))"

definition hex_class :: "u8 \<Rightarrow> int option option" where
  "hex_class c =
     do { x \<leftarrow> isxdigit (sint c);
          if x = 0 then Some None
          else do { l \<leftarrow> tolower (sint c); Some (Some (if to_char l \<le> 57 then to_char l - 48 else to_char l - 97 + 10)) } }"

definition any_class :: "int \<Rightarrow> u8 \<Rightarrow> int option option" where
  "any_class base a =
     do { c \<leftarrow> tolower (sint a);
          let proper = (if base \<noteq> 8 then 48 \<le> c \<and> c \<le> 57 \<or> 97 \<le> c \<and> c \<le> sint (LOWER_CHARS ! nat (base - 1))
                        else 48 \<le> c \<and> c \<le> 55);
          Some (if proper then Some (if c \<le> 57 then c - 48 else c - 97 + 10) else None) }"

text \<open>An optional sign: the state, whether it is a minus, the width that is left and the characters used.\<close>

definition scan_sign :: "'s reader \<Rightarrow> 's unget \<Rightarrow> int \<Rightarrow> 's sc \<Rightarrow> ('s sc \<times> bool \<times> int \<times> nat) option" where
  "scan_sign rd ug width st =
     (if width = 0 then Some (st, False, width, 0)
      else do { (st1, c) \<leftarrow> look_ahead rd ug st;
                if c = ch CHR ''-'' then do { st2 \<leftarrow> consume rd st1; Some (st2, True, width - 1, 1) }
                else do { (st2, c2) \<leftarrow> look_ahead rd ug st1;
                          if c2 = ch CHR ''+'' then do { st3 \<leftarrow> consume rd st2; Some (st3, False, width - 1, 1) }
                          else Some (st2, False, width, 0) } })"

text \<open>The end of the integer conversions.\<close>

definition finish_int ::
    "'s reader \<Rightarrow> 's unget \<Rightarrow> State \<Rightarrow> nat option \<Rightarrow> bool \<Rightarrow> u64 \<Rightarrow> nat \<Rightarrow> nat \<Rightarrow> 's sc \<Rightarrow> 's sc_result" where
  "finish_int rd ug stt dest sign val used extra st =
     (let val' = (if sign then - val else val) in
      if dest \<noteq> None \<and> used \<noteq> 0 then
        do { m \<leftarrow> write_int_to_dest stt dest val' (sc_mem st);
             Some (st\<lparr>sc_mem := m, sc_consumed := sc_consumed st + 1\<rparr>, None) }
      else if used = 0 then
        (if extra = 0 then
           do { (st1, c) \<leftarrow> look_ahead rd ug st; Some (st1, Some (if c = 0 then EOF else sc_consumed st1)) }
         else Some (st, Some (sc_consumed st)))
      else Some (st, None))"

definition scan_d :: "'s reader \<Rightarrow> 's unget \<Rightarrow> State \<Rightarrow> int \<Rightarrow> nat option \<Rightarrow> 's sc \<Rightarrow> 's sc_result" where
  "scan_d rd ug stt width dest st =
     do { (st1, sign, w1, extra) \<leftarrow> scan_sign rd ug width st;
          (st2, val, used) \<leftarrow> scan_digits rd ug dec_class 10 (nat w1) 0 0 st1;
          finish_int rd ug stt dest sign val used extra st2 }"

text \<open>
  An optional zero and, where the letter for another base may follow it, that letter.  The result is the
  state, the width, the digits and other characters used, and the letter.
\<close>

definition scan_zero :: "'s reader \<Rightarrow> 's unget \<Rightarrow> int \<Rightarrow> 's sc \<Rightarrow> ('s sc \<times> int \<times> bool) option" where
  "scan_zero rd ug width st =
     (if width = 0 then Some (st, width, False)
      else do { (st1, c) \<leftarrow> look_ahead rd ug st;
                if c = ch CHR ''0'' then do { st2 \<leftarrow> consume rd st1; Some (st2, width - 1, True) }
                else Some (st1, width, False) })"

definition scan_letter :: "'s reader \<Rightarrow> 's unget \<Rightarrow> u8 \<Rightarrow> u8 \<Rightarrow> 's sc \<Rightarrow> ('s sc \<times> bool) option" where
  "scan_letter rd ug lower_c upper_c st =
     do { (st1, c) \<leftarrow> look_ahead rd ug st;
          if c = lower_c then do { st2 \<leftarrow> consume rd st1; Some (st2, True) }
          else do { (st2, c2) \<leftarrow> look_ahead rd ug st1;
                    if c2 = upper_c then do { st3 \<leftarrow> consume rd st2; Some (st3, True) } else Some (st2, False) } }"

definition scan_i :: "'s reader \<Rightarrow> 's unget \<Rightarrow> State \<Rightarrow> int \<Rightarrow> nat option \<Rightarrow> 's sc \<Rightarrow> 's sc_result" where
  "scan_i rd ug stt width dest st =
     do { (st1, sign, w1, extra) \<leftarrow> scan_sign rd ug width st;
          (st2, w2, zero) \<leftarrow> scan_zero rd ug w1 st1;
          (st3, base, w3, used, extra') \<leftarrow>
            (if zero then
               do { (st3, hex) \<leftarrow> scan_letter rd ug (ch CHR ''x'') (ch CHR ''X'') st2;
                    if hex then Some (st3, 16, w2 - 1, 0, extra + 2)
                    else do { (st4, bin) \<leftarrow> scan_letter rd ug (ch CHR ''b'') (ch CHR ''B'') st3;
                              if bin then Some (st4, 2, w2 - 1, 0, extra + 2) else Some (st4, 8, w2, 1, extra) } }
             else Some (st2, 10, w2, 0, extra));
          (st4, val, used') \<leftarrow> scan_digits rd ug (any_class base) (word_of_int base) (nat w3) 0 used st3;
          finish_int rd ug stt dest sign val used' extra' st4 }"

definition scan_o :: "'s reader \<Rightarrow> 's unget \<Rightarrow> State \<Rightarrow> int \<Rightarrow> nat option \<Rightarrow> 's sc \<Rightarrow> 's sc_result" where
  "scan_o rd ug stt width dest st =
     do { (st1, sign, w1, extra) \<leftarrow> scan_sign rd ug width st;
          (st2, w2, zero) \<leftarrow> scan_zero rd ug w1 st1;
          (st3, val, used) \<leftarrow> scan_digits rd ug oct_class 8 (nat w2) 0 (if zero then 1 else 0) st2;
          finish_int rd ug stt dest sign val used extra st3 }"

definition scan_x :: "'s reader \<Rightarrow> 's unget \<Rightarrow> State \<Rightarrow> int \<Rightarrow> nat option \<Rightarrow> 's sc \<Rightarrow> 's sc_result" where
  "scan_x rd ug stt width dest st =
     do { (st1, sign, w1, extra) \<leftarrow> scan_sign rd ug width st;
          (st2, w2, zero) \<leftarrow> scan_zero rd ug w1 st1;
          (st3, w3, used, extra') \<leftarrow>
            (if zero then
               do { (st3, hex) \<leftarrow> scan_letter rd ug (ch CHR ''x'') (ch CHR ''X'') st2;
                    Some (if hex then (st3, w2 - 1, 0, extra + 2) else (st3, w2, 1, extra)) }
             else Some (st2, w2, 0, extra));
          (st4, val, used') \<leftarrow> scan_digits rd ug hex_class 16 (nat w3) 0 used st3;
          finish_int rd ug stt dest sign val used' extra' st4 }"

definition scan_n :: "State \<Rightarrow> nat option \<Rightarrow> 's sc \<Rightarrow> 's sc_result" where
  "scan_n stt dest st =
     do { m \<leftarrow> write_int_to_dest stt dest (word_of_nat (sc_chars st)) (sc_mem st); Some (st\<lparr>sc_mem := m\<rparr>, None) }"

subsection \<open>The main loop\<close>

record scan_spec =
  ss_assign :: bool
  ss_width :: int
  ss_has_width :: bool
  ss_state :: State

definition scan_length :: "u8 list \<Rightarrow> u8 list \<times> State" where
  "scan_length fmt =
     (let c = deref fmt; d = deref (drop 1 fmt) in
      if c = ch CHR ''h'' then (if d = ch CHR ''h'' then (drop 2 fmt, Shh) else (drop 1 fmt, Sh))
      else if c = ch CHR ''l'' then (if d = ch CHR ''l'' then (drop 2 fmt, Sll) else (drop 1 fmt, Sl))
      else if c = ch CHR ''j'' then (drop 1 fmt, Sj)
      else if c = ch CHR ''z'' then (drop 1 fmt, Sz)
      else if c = ch CHR ''t'' then (drop 1 fmt, St)
      else if c = ch CHR ''L'' then (drop 1 fmt, SL)
      else (fmt, SNone))"

definition parse_scan_spec :: "to_integer \<Rightarrow> u8 list \<Rightarrow> (u8 list \<times> scan_spec) option" where
  "parse_scan_spec to_int fmt =
     do { let assign = (deref fmt \<noteq> ch CHR ''*'');
          let fmt1 = (if assign then fmt else drop 1 fmt);
          d \<leftarrow> isdigit (sint (deref fmt1));
          (w, fmt2) \<leftarrow> (if d \<noteq> 0 then read_number to_int fmt1 else Some (0, fmt1));
          case scan_length fmt2 of (fmt3, stt) \<Rightarrow>
            Some (fmt3, \<lparr>ss_assign = assign, ss_width = w, ss_has_width = (d \<noteq> 0), ss_state = stt\<rparr>) }"

definition pop_dest :: "bool \<Rightarrow> va list \<Rightarrow> (nat option \<times> va list) option" where
  "pop_dest assign ap =
     (if \<not> assign then Some (None, ap)
      else case ap of VPtr a # ap' \<Rightarrow> Some (if a = 0 then None else Some a, ap') | _ \<Rightarrow> None)"

text \<open>One conversion; the set conversion also moves the format, so the format behind it is part of the result.\<close>

definition scan_convert ::
    "'s reader \<Rightarrow> 's unget \<Rightarrow> u8 \<Rightarrow> u8 list \<Rightarrow> scan_spec \<Rightarrow> nat option \<Rightarrow> 's sc \<Rightarrow> (u8 list \<times> 's sc \<times> int option) option" where
  "scan_convert rd ug c fmt sp dest st =
     (let stt = ss_state sp; w = ss_width sp; hw = ss_has_width sp; iw = (if hw then w else INT_MAX) in
      if c = ch CHR ''c'' then do { r \<leftarrow> scan_c rd ug stt w hw dest st; Some (fmt, r) }
      else if c = ch CHR ''s'' then do { r \<leftarrow> scan_string rd ug space_stop stt w hw dest st; Some (fmt, r) }
      else if c = ch CHR ''['' then
        (case find_set fmt of
           None \<Rightarrow> Some (fmt, st, Some (- 1))
         | Some (invert, s, fmt') \<Rightarrow>
             do { r \<leftarrow> scan_set rd ug invert s stt w hw dest st; Some (fmt', r) })
      else if c = ch CHR ''u'' \<or> c = ch CHR ''d'' then do { r \<leftarrow> scan_d rd ug stt iw dest st; Some (fmt, r) }
      else if c = ch CHR ''i'' then do { r \<leftarrow> scan_i rd ug stt iw dest st; Some (fmt, r) }
      else if c = ch CHR ''o'' then do { r \<leftarrow> scan_o rd ug stt iw dest st; Some (fmt, r) }
      else if c = ch CHR ''x'' \<or> c = ch CHR ''X'' then do { r \<leftarrow> scan_x rd ug stt iw dest st; Some (fmt, r) }
      else if c = ch CHR ''p'' then do { r \<leftarrow> scan_x rd ug Sl iw dest st; Some (fmt, r) }
      else if c = ch CHR ''n'' then do { r \<leftarrow> scan_n stt dest st; Some (fmt, r) }
      else if c \<in> set (bytes ''aAeEfFgG'') then None
      else Some (fmt, st, None))"

fun skip_format_spaces :: "u8 list \<Rightarrow> u8 list option" where
  "skip_format_spaces [] = Some []"
| "skip_format_spaces (c # fmt) =
     do { sp \<leftarrow> isspace (sint c); if sp \<noteq> 0 then skip_format_spaces fmt else Some (c # fmt) }"

lemma skip_format_spaces_length: "skip_format_spaces fmt = Some r \<Longrightarrow> length r \<le> length fmt"
  by (induction fmt) (auto simp: bind_eq_Some_conv split: if_splits)

lemma find_set_end_length: "find_set_end fmt = Some (s, r) \<Longrightarrow> length r < length fmt"
  by (induction fmt arbitrary: s) (fastforce simp: bind_eq_Some_conv split: if_splits)+

lemma find_set_length: "find_set fmt = Some (i, s, r) \<Longrightarrow> length r \<le> length fmt"
proof -
  have "drop 1 fmt = c # r' \<Longrightarrow> length r' \<le> length fmt" for c r' by (cases fmt) auto
  then show "find_set fmt = Some (i, s, r) \<Longrightarrow> ?thesis"
    by (fastforce simp: find_set_def Let_def bind_eq_Some_conv split: if_splits list.splits dest!: find_set_end_length)
qed

lemma scan_length_length: "scan_length fmt = (r, stt) \<Longrightarrow> length r \<le> length fmt"
  by (auto simp: scan_length_def Let_def split: if_splits)

lemma parse_scan_spec_length:
  assumes "parse_scan_spec to_int fmt = Some (r, sp)"
  shows "length r \<le> length fmt"
proof -
  define fmt1 where "fmt1 = (if deref fmt \<noteq> ch CHR ''*'' then fmt else drop 1 fmt)"
  obtain d :: int and w fmt2 where "(if d \<noteq> 0 then read_number to_int fmt1 else Some (0, fmt1)) = Some (w, fmt2)" "r = fst (scan_length fmt2)"
    using assms unfolding parse_scan_spec_def Let_def fmt1_def [symmetric]
    by (auto simp: bind_eq_Some_conv case_prod_unfold)
  then have "length fmt2 \<le> length fmt1" "length r \<le> length fmt2"
    using scan_length_length [of fmt2] read_number_length [of to_int fmt1 w fmt2]
    by (cases "scan_length fmt2"; auto split: if_splits)+
  moreover have "length fmt1 \<le> length fmt" by (simp add: fmt1_def)
  ultimately show ?thesis by linarith
qed

lemma scan_convert_length: "scan_convert rd ug c fmt sp dest st = Some (r, x) \<Longrightarrow> length r \<le> length fmt"
  by (auto simp: scan_convert_def Let_def bind_eq_Some_conv split: if_splits option.splits dest!: find_set_length)

function vfscanf_loop ::
    "'s reader \<Rightarrow> 's unget \<Rightarrow> to_integer \<Rightarrow> u8 list \<Rightarrow> 's sc \<Rightarrow> ('s sc \<times> int) option" where
  "vfscanf_loop rd ug to_int [] st = Some (st, sc_consumed st)"
| "vfscanf_loop rd ug to_int (c # fmt) st =
     do { sp \<leftarrow> isspace (sint c);
          if sp \<noteq> 0 then
            do { fmt' \<leftarrow> skip_format_spaces fmt; st' \<leftarrow> skip_spaces rd ug st; vfscanf_loop rd ug to_int fmt' st' }
          else if c \<noteq> ch CHR ''%'' then
            do { (st1, d) \<leftarrow> look_ahead rd ug st;
                 if d = c then do { st2 \<leftarrow> consume rd st1; vfscanf_loop rd ug to_int fmt st2 }
                 else do { (st2, e) \<leftarrow> look_ahead rd ug st1;
                           Some (st2, if e = 0 then consumed_or_eof st2 else sc_consumed st2) } }
          else if deref fmt = ch CHR ''%'' then
            do { (st1, d) \<leftarrow> look_ahead rd ug st;
                 if d = ch CHR ''%'' then do { st2 \<leftarrow> consume rd st1; vfscanf_loop rd ug to_int (drop 1 fmt) st2 }
                 else Some (st1, consumed_or_eof st1) }
          else
            do { (fmt1, spec) \<leftarrow> parse_scan_spec to_int fmt;
                 case fmt1 of
                   [] \<Rightarrow> Some (st, EOF)
                 | conv # fmt2 \<Rightarrow>
                     do { st1 \<leftarrow> (if conv \<noteq> ch CHR ''['' \<and> conv \<noteq> ch CHR ''c'' \<and> conv \<noteq> ch CHR ''n''
                                 then skip_spaces rd ug st else Some st);
                          (dest, ap) \<leftarrow> pop_dest (ss_assign spec) (sc_args st1);
                          (fmt3, st2, ret) \<leftarrow> scan_convert rd ug conv fmt2 spec dest (st1\<lparr>sc_args := ap\<rparr>);
                          case ret of
                            Some r \<Rightarrow> Some (st2, r)
                          | None \<Rightarrow> vfscanf_loop rd ug to_int fmt3 st2 } } }"
  by pat_completeness auto
termination
  by (relation "measure (\<lambda>(rd, ug, to_int, fmt, st). length fmt)")
    (auto dest!: skip_format_spaces_length parse_scan_spec_length scan_convert_length)

declare vfscanf_loop.simps(2) [simp del]

definition vfscanf ::
    "'s reader \<Rightarrow> 's unget \<Rightarrow> to_integer \<Rightarrow> u8 mem \<Rightarrow> u8 list \<Rightarrow> va list \<Rightarrow> 's \<Rightarrow> ('s sc \<times> int) option" where
  "vfscanf rd ug to_int m fmt ap s =
     vfscanf_loop rd ug to_int fmt \<lparr>sc_src = s, sc_chars = 0, sc_consumed = 0, sc_mem = m, sc_args = ap\<rparr>"

text \<open>\<open>vsscanf\<close> scans a string file made for the call.\<close>

definition string_file :: "nat \<Rightarrow> nat \<Rightarrow> FILE" where
  "string_file str len = (create_fd_file 0)\<lparr>read_ptr := str, read_end := str + len\<rparr>"

definition vsscanf :: "to_integer \<Rightarrow> u8 mem \<Rightarrow> nat \<Rightarrow> u8 mem \<Rightarrow> u8 list \<Rightarrow> va list \<Rightarrow> (FILE sc \<times> int) option" where
  "vsscanf to_int sm str m fmt ap =
     do { len \<leftarrow> strlen sm str; vfscanf (str_file_read sm) ungetc to_int m fmt ap (string_file str len) }"

subsection \<open>The contract of a source with push-back\<close>

definition peek :: "u8 list \<Rightarrow> u8" where "peek bs = (case bs of [] \<Rightarrow> 0 | c # _ \<Rightarrow> c)"

lemma peek_simps [simp]: "peek [] = 0" "peek (c # bs) = c"
  by (simp_all add: peek_def)

text \<open>
  A character just read can be pushed back, and the source is then as before.
\<close>

locale peek_source = byte_source rd pend ok
  for rd :: "'s reader" and pend :: "'s \<Rightarrow> u8 list" and ok :: "'s \<Rightarrow> bool" +
  fixes ug :: "'s unget"
  assumes unget_law: "ok s \<Longrightarrow> pend s = c # r \<Longrightarrow> rd s 1 = Some (s1, x, bs) \<Longrightarrow>
    \<exists>s2. ug (sint c) s1 = Some (s2, sint c) \<and> ok s2 \<and> pend s2 = pend s"
begin

text \<open>The source of \<open>st\<close> is in order with \<open>bs\<close> to come; \<open>st'\<close> differs from \<open>st\<close> in the source and the count only.\<close>

definition moved :: "'s sc \<Rightarrow> 's sc \<Rightarrow> u8 list \<Rightarrow> nat \<Rightarrow> bool" where
  "moved st st' bs n \<longleftrightarrow>
     (\<exists>s'. st' = st\<lparr>sc_src := s', sc_chars := sc_chars st + n\<rparr> \<and> ok s' \<and> pend s' = bs)"

lemma moved_refl: "ok (sc_src st) \<Longrightarrow> moved st st (pend (sc_src st)) 0"
  by (auto simp: moved_def intro!: exI [of _ "sc_src st"])

lemma moved_at: "moved st st' bs n \<Longrightarrow> ok (sc_src st') \<and> pend (sc_src st') = bs"
  by (auto simp: moved_def)

lemma moved_trans: "moved st st1 bs1 n1 \<Longrightarrow> moved st1 st2 bs2 n2 \<Longrightarrow> moved st st2 bs2 (n1 + n2)"
  by (auto simp: moved_def add.assoc)

lemma moved_fields:
  "moved st st' bs n \<Longrightarrow> sc_consumed st' = sc_consumed st \<and> sc_mem st' = sc_mem st \<and> sc_args st' = sc_args st \<and>
    sc_chars st' = sc_chars st + n"
  by (auto simp: moved_def)

lemma look_ahead_eq:
  assumes "ok (sc_src st)"
  shows "\<exists>st'. look_ahead rd ug st = Some (st', peek (pend (sc_src st))) \<and> moved st st' (pend (sc_src st)) 0"
proof -
  let ?s = "sc_src st"
  obtain s1 where s1: "rd ?s 1 = Some (s1, int (length (take 1 (pend ?s))), take 1 (pend ?s))" "ok s1" "pend s1 = drop 1 (pend ?s)"
    using read_law [OF assms] by blast
  show ?thesis
  proof (cases "pend ?s")
    case Nil
    then have "look_ahead rd ug st = Some (st\<lparr>sc_src := s1\<rparr>, 0)" using s1 by (simp add: look_ahead_def)
    moreover have "moved st (st\<lparr>sc_src := s1\<rparr>) [] 0" using s1 Nil by (auto simp: moved_def)
    ultimately show ?thesis using Nil by simp
  next
    case (Cons c r)
    obtain s2 where s2: "ug (sint c) s1 = Some (s2, sint c)" "ok s2" "pend s2 = pend ?s"
      using unget_law [OF assms Cons s1(1)] by blast
    have "look_ahead rd ug st = Some (st\<lparr>sc_src := s2\<rparr>, c)" using s1 s2 Cons by (simp add: look_ahead_def)
    moreover have "moved st (st\<lparr>sc_src := s2\<rparr>) (pend ?s) 0" using s2 by (auto simp: moved_def)
    ultimately show ?thesis using Cons by simp
  qed
qed

lemma consume_eq:
  assumes "ok (sc_src st)"
  shows "\<exists>st'. consume rd st = Some st' \<and> moved st st' (tl (pend (sc_src st))) 1"
  using read_law [OF assms, of 1] by (auto simp: consume_def moved_def drop_Suc)

text \<open>The two steps from a state that has moved.\<close>

lemma look_ahead_moved: "moved st st1 bs n \<Longrightarrow> \<exists>st2. look_ahead rd ug st1 = Some (st2, peek bs) \<and> moved st st2 bs n"
  using look_ahead_eq [of st1] moved_at [of st st1 bs n] moved_trans [of st st1 bs n _ bs 0] by fastforce

lemma consume_moved: "moved st st1 bs n \<Longrightarrow> \<exists>st2. consume rd st1 = Some st2 \<and> moved st st2 (tl bs) (n + 1)"
  using consume_eq [of st1] moved_at [of st st1 bs n] moved_trans [of st st1 bs n _ "tl bs" 1] by fastforce

lemma skip_spaces_eq:
  "moved st st1 (ws @ r) n \<Longrightarrow> list_all (\<lambda>w. isspace (sint w) \<noteq> Some 0) ws \<Longrightarrow> isspace (sint (peek r)) = Some 0 \<Longrightarrow>
    \<exists>st2. skip_spaces rd ug st1 = Some st2 \<and> moved st st2 r (n + length ws)"
proof (induction ws arbitrary: st1 n)
  case Nil
  obtain st2 where "look_ahead rd ug st1 = Some (st2, peek r)" "moved st st2 r n" using look_ahead_moved [of st st1 r n] Nil by auto
  then show ?case using Nil by (subst skip_spaces.simps) simp
next
  case (Cons w ws)
  obtain st2 where s2: "look_ahead rd ug st1 = Some (st2, w)" "moved st st2 (w # ws @ r) n"
    using look_ahead_moved [OF Cons(2)] by auto
  obtain st3 where s3: "consume rd st2 = Some st3" "moved st st3 (ws @ r) (n + 1)" using consume_moved [OF s2(2)] by auto
  obtain sp where "isspace (sint w) = Some sp" "sp \<noteq> 0"
    using Cons(3) isspace_eq [of "sint w"] sint_u8_range [of w] by auto
  then have "skip_spaces rd ug st1 = skip_spaces rd ug st3" using s2 s3 by (subst skip_spaces.simps) simp
  then show ?case using Cons.IH [OF s3(2)] Cons(3,4) by (simp add: add.commute add.left_commute)
qed

lemma scan_digits_eq:
  "moved st st1 (ds @ r) n \<Longrightarrow> list_all2 (\<lambda>d v. cls d = Some (Some v)) ds vs \<Longrightarrow> cls (peek r) = Some None \<Longrightarrow>
    length ds < k \<Longrightarrow>
    \<exists>st2. scan_digits rd ug cls base k val used st1 =
        Some (st2, foldl (\<lambda>x v. x * base + word_of_int v) val vs, used + length ds) \<and> moved st st2 r (n + length ds)"
proof (induction ds arbitrary: st1 n vs val used k)
  case Nil
  then obtain k' where "k = Suc k'" by (cases k) auto
  moreover obtain st2 where "look_ahead rd ug st1 = Some (st2, peek r)" "moved st st2 r n" using look_ahead_moved [of st st1 r n] Nil by auto
  ultimately show ?case using Nil by simp
next
  case (Cons d ds)
  obtain v vs' where vs: "vs = v # vs'" "cls d = Some (Some v)" "list_all2 (\<lambda>d v. cls d = Some (Some v)) ds vs'"
    using Cons(3) by (auto simp: list_all2_Cons1)
  obtain k' where k: "k = Suc k'" "length ds < k'" using Cons(5) by (cases k) auto
  obtain st2 where s2: "look_ahead rd ug st1 = Some (st2, d)" "moved st st2 (d # ds @ r) n" using look_ahead_moved [OF Cons(2)] by auto
  obtain st3 where s3: "consume rd st2 = Some st3" "moved st st3 (ds @ r) (n + 1)" using consume_moved [OF s2(2)] by auto
  have "scan_digits rd ug cls base k val used st1 = scan_digits rd ug cls base k' (val * base + word_of_int v) (used + 1) st3"
    using k s2 s3 vs by simp
  then show ?case using Cons.IH [OF s3(2) vs(3) Cons(4) k(2), where val = "val * base + word_of_int v" and used = "used + 1"] vs(1) by (simp add: add.commute add.left_commute)
qed

end

interpretation str_peek: peek_source "str_file_read m" "str_pend m" "str_ok m" ungetc for m
proof
  fix f c r f1 x bs
  assume ok: "str_ok m f" and p: "str_pend m f = c # r" and rd: "str_file_read m f 1 = Some (f1, x, bs)"
  obtain f2 where f2: "str_file_read m f 1 = Some (f2, int (length (take 1 (str_pend m f))), take 1 (str_pend m f))"
      "str_ok m f2" "str_pend m f2 = drop 1 (str_pend m f)"
    using str_source.read_law [OF ok] by blast
  then have f1: "str_ok m f1" "str_pend m f1 = r" using rd p by auto
  have "ungetc_ptr f1 \<le> ungetc_ptr f - 1"
    using rd unget_loop_eq [of f 1] ok
    by (auto simp: str_file_read_def bind_eq_Some_conv Let_def str_ok_def pop_pushed_def)
  then have "ungetc_ptr f1 < UNGETC_MAX" using ok by (auto simp: str_ok_def unget_inv_def)
  from ungetc_push [OF _ this, of "sint c"] f1 obtain f3 where "ungetc (sint c) f1 = Some (f3, sint c)" "unget_inv f3"
      "pushed f3 = c # pushed f1" "read_ptr f3 = read_ptr f1" "read_end f3 = read_end f1"
    by (auto simp: str_ok_def)
  then show "\<exists>f3. ungetc (sint c) f1 = Some (f3, sint c) \<and> str_ok m f3 \<and> str_pend m f3 = str_pend m f"
    using f1 p by (simp add: str_ok_def str_pend_def)
qed

subsection \<open>Decimal numbers\<close>

definition int_size :: "State \<Rightarrow> nat" where
  "int_size st = (case st of SNone \<Rightarrow> 4 | Shh \<Rightarrow> 1 | Sh \<Rightarrow> 2 | _ \<Rightarrow> 8)"

lemma length_le_bytes [simp]: "length (le_bytes n w) = n"
  by (simp add: le_bytes_def)

lemma write_int_put:
  "stt \<noteq> SL \<Longrightarrow> mapped m d (int_size stt) \<Longrightarrow> write_int_to_dest stt (Some d) v m = Some (put m d (le_bytes (int_size stt) v))"
  by (cases stt) (simp_all add: write_int_to_dest_def int_size_def store_list_put)

lemma dec_class_eq: "dec_class c = Some (if is_dec c then Some (sint c - 48) else None)"
  by (simp add: dec_class_def isdigit_u8)

lemma dec_value:
  "list_all is_dec ds \<Longrightarrow> word_of_int x = (w :: u64) \<Longrightarrow>
    foldl (\<lambda>x v. x * 10 + word_of_int v) w (map (\<lambda>c. sint c - 48) ds) = word_of_int (num_of 10 x (map sint ds))"
proof (induction ds arbitrary: x w)
  case (Cons d ds)
  have "digit_of (sint d) = sint d - 48" using Cons(2) by (simp add: is_dec_def digit_of_def)
  then show ?case using Cons.IH [of "x * 10 + (sint d - 48)" "w * 10 + word_of_int (sint d - 48)"] Cons(2,3)
    by (auto simp: num_of_def)
qed (simp add: num_of_def)

text \<open>The characters of an optional sign.\<close>

definition sign_bytes :: "u8 list \<Rightarrow> bool \<Rightarrow> bool" where
  "sign_bytes sg sign \<longleftrightarrow> sg = [45] \<and> sign \<or> sg \<in> {[], [43]} \<and> \<not> sign"

context peek_source
begin

lemma scan_sign_eq:
  assumes "moved st st1 (sg @ r) n" and "sign_bytes sg sign" and "peek r \<notin> {45, 43}" and "w \<noteq> 0"
  shows "\<exists>st2. scan_sign rd ug w st1 = Some (st2, sign, w - int (length sg), length sg) \<and> moved st st2 r (n + length sg)"
proof -
  obtain st2 where s2: "look_ahead rd ug st1 = Some (st2, peek (sg @ r))" "moved st st2 (sg @ r) n"
    using look_ahead_moved [OF assms(1)] by blast
  obtain st3 where s3: "look_ahead rd ug st2 = Some (st3, peek (sg @ r))" "moved st st3 (sg @ r) n"
    using look_ahead_moved [OF s2(2)] by blast
  obtain st4 where s4: "consume rd st2 = Some st4" "moved st st4 (tl (sg @ r)) (n + 1)" using consume_moved [OF s2(2)] by blast
  obtain st5 where s5: "consume rd st3 = Some st5" "moved st st5 (tl (sg @ r)) (n + 1)" using consume_moved [OF s3(2)] by blast
  consider "sg = [45]" "sign" | "sg = [43]" "\<not> sign" | "sg = []" "\<not> sign" using assms(2) by (auto simp: sign_bytes_def)
  then show ?thesis
  proof cases
    case 1 then show ?thesis using s2 s4 assms(4) by (simp add: scan_sign_def)
  next
    case 2 then show ?thesis using s2 s3 s5 assms(4) by (simp add: scan_sign_def)
  next
    case 3 then show ?thesis using s2 s3 assms(3,4) by (simp add: scan_sign_def)
  qed
qed

lemma scan_d_eq:
  assumes "moved st st1 (sg @ ds @ r) n" and sg: "sign_bytes sg sign" and ds: "list_all is_dec ds" "ds \<noteq> []" "\<not> is_dec (peek r)"
    and len: "int (length ds) + 1 < INT_MAX" and "stt \<noteq> SL" and m: "mapped (sc_mem st) d (int_size stt)"
  defines "v \<equiv> word_of_int (if sign then - num_of 10 0 (map sint ds) else num_of 10 0 (map sint ds)) :: u64"
  shows "\<exists>st2. scan_d rd ug stt INT_MAX (Some d) st1 =
      Some (st2\<lparr>sc_mem := put (sc_mem st) d (le_bytes (int_size stt) v), sc_consumed := sc_consumed st + 1\<rparr>, None) \<and>
    moved st st2 r (n + length sg + length ds)"
proof -
  have "peek (ds @ r) \<notin> {45, 43}" using ds(1,2) by (cases ds) (auto simp: is_dec_def)
  then obtain st2 where s2: "scan_sign rd ug INT_MAX st1 = Some (st2, sign, INT_MAX - int (length sg), length sg)"
      "moved st st2 (ds @ r) (n + length sg)"
    using scan_sign_eq [OF assms(1) sg, of INT_MAX] by auto
  have "list_all2 (\<lambda>d v. dec_class d = Some (Some v)) ds (map (\<lambda>c. sint c - 48) ds)"
    using ds(1) by (simp add: dec_class_eq list_all2_map2 list_all2_same list_all_iff)
  moreover have "length ds < nat (INT_MAX - int (length sg))" using sg len by (auto simp: sign_bytes_def)
  ultimately obtain st3 where s3: "scan_digits rd ug dec_class 10 (nat (INT_MAX - int (length sg))) 0 0 st2 =
      Some (st3, foldl (\<lambda>x v. x * 10 + word_of_int v) 0 (map (\<lambda>c. sint c - 48) ds), length ds)"
      "moved st st3 r (n + length sg + length ds)"
    using scan_digits_eq [OF s2(2), of dec_class "map (\<lambda>c. sint c - 48) ds" _ 10 0 0] ds(3) by (auto simp: dec_class_eq)
  have val: "foldl (\<lambda>x v. x * 10 + word_of_int v) 0 (map (\<lambda>c. sint c - 48) ds) = (word_of_int (num_of 10 0 (map sint ds)) :: u64)"
    using dec_value [OF ds(1), of 0 0] by simp
  have "scan_d rd ug stt INT_MAX (Some d) st1 =
      finish_int rd ug stt (Some d) sign (word_of_int (num_of 10 0 (map sint ds))) (length ds) (length sg) st3"
    using s2 s3 val by (simp add: scan_d_def)
  also have "\<dots> = Some (st3\<lparr>sc_mem := put (sc_mem st) d (le_bytes (int_size stt) v), sc_consumed := sc_consumed st + 1\<rparr>, None)"
    using write_int_put [OF assms(7) m] ds(2) moved_fields [OF s3(2)] by (simp add: finish_int_def v_def Let_def)
  finally show ?thesis using s3(2) by blast
qed

end

lemma parse_scan_spec_plain:
  assumes "c \<notin> set (bytes ''hljztL*'')" and "\<not> is_dec c"
  shows "parse_scan_spec to_int (state_text stt @ c # rest) =
    Some (c # rest, \<lparr>ss_assign = True, ss_width = 0, ss_has_width = False, ss_state = stt\<rparr>)"
proof -
  have "\<not> is_dec 104" "\<not> is_dec 108" "\<not> is_dec 106" "\<not> is_dec 122" "\<not> is_dec 116" "\<not> is_dec 76"
    by (simp_all add: is_dec_def)
  then show ?thesis using assms
    by (cases stt) (simp_all add: parse_scan_spec_def deref_def isdigit_u8 scan_length_def bytes_def Let_def)
qed

context peek_source
begin

lemma vfscanf_d_eq:
  assumes "ok s" and bs: "pend s = ws @ sg @ ds @ r" and ws: "list_all (\<lambda>w. isspace (sint w) \<noteq> Some 0) ws"
    and sg: "sign_bytes sg sign" and ds: "list_all is_dec ds" "ds \<noteq> []" "\<not> is_dec (peek r)"
    and len: "int (length ds) + 1 < INT_MAX" and "stt \<noteq> SL" and m: "mapped m d (int_size stt)" and "d \<noteq> 0"
    and c: "c \<in> {CHR ''d'', CHR ''u''}"
  defines "v \<equiv> word_of_int (if sign then - num_of 10 0 (map sint ds) else num_of 10 0 (map sint ds)) :: u64"
  shows "\<exists>st. vfscanf rd ug to_int m (bytes ''%'' @ state_text stt @ [ch c]) [VPtr d] s = Some (st, 1) \<and>
    sc_mem st = put m d (le_bytes (int_size stt) v) \<and> pend (sc_src st) = r \<and> sc_chars st = length (ws @ sg @ ds)"
proof -
  define st0 where "st0 = \<lparr>sc_src = s, sc_chars = 0, sc_consumed = 0, sc_mem = m, sc_args = [VPtr d]\<rparr>"
  have st0: "sc_src st0 = s" "sc_mem st0 = m" "sc_args st0 = [VPtr d]" "sc_consumed st0 = 0" "sc_chars st0 = 0"
    by (simp_all add: st0_def)
  have "moved st0 st0 (ws @ sg @ ds @ r) 0" using moved_refl [of st0] assms(1) bs st0 by simp
  moreover have "isspace (sint (peek (sg @ ds @ r))) = Some 0"
    using sg ds(1,2) by (cases ds) (auto simp: sign_bytes_def is_dec_def isspace_eq)
  ultimately obtain st1 where s1: "skip_spaces rd ug st0 = Some st1" "moved st0 st1 (sg @ ds @ r) (length ws)"
    using skip_spaces_eq [of st0 st0 ws "sg @ ds @ r" 0] ws by auto
  let ?a = "st1\<lparr>sc_args := []\<rparr>"
  have "moved ?a ?a (sg @ ds @ r) 0" using moved_refl [of ?a] moved_at [OF s1(2)] by simp
  then obtain st2 where s2: "scan_d rd ug stt INT_MAX (Some d) ?a =
        Some (st2\<lparr>sc_mem := put m d (le_bytes (int_size stt) v), sc_consumed := 1\<rparr>, None)"
      "moved ?a st2 r (length sg + length ds)"
    using scan_d_eq [of ?a ?a sg ds r 0 sign stt d] sg ds len assms(9) m moved_fields [OF s1(2)] st0 unfolding v_def by auto
  let ?f = "state_text stt @ [ch c]"
  have spec: "parse_scan_spec to_int ?f = Some ([ch c], \<lparr>ss_assign = True, ss_width = 0, ss_has_width = False, ss_state = stt\<rparr>)"
    using c by (intro parse_scan_spec_plain) (auto simp: bytes_def is_dec_def)
  have pc: "deref ?f \<noteq> ch CHR ''%''" using c by (cases stt) (auto simp: deref_def bytes_def)
  have sp: "isspace (sint (ch CHR ''%'')) = Some 0" by (simp add: isspace_eq)
  have cv: "scan_convert rd ug (ch c) [] \<lparr>ss_assign = True, ss_width = 0, ss_has_width = False, ss_state = stt\<rparr> (Some d) ?a =
      Some ([], st2\<lparr>sc_mem := put m d (le_bytes (int_size stt) v), sc_consumed := 1\<rparr>, None)"
    using s2(1) c by (auto simp: scan_convert_def)
  have "vfscanf_loop rd ug to_int (ch CHR ''%'' # ?f) st0 =
      Some (st2\<lparr>sc_mem := put m d (le_bytes (int_size stt) v), sc_consumed := 1\<rparr>, 1)"
    unfolding vfscanf_loop.simps(2) sp using spec pc s1(1) moved_fields [OF s1(2)] cv c assms(11) st0
    by (auto simp: pop_dest_def)
  then show ?thesis using moved_at [OF s2(2)] moved_fields [OF s2(2)] moved_fields [OF s1(2)] st0
    by (simp add: vfscanf_def st0_def bytes_def)
qed

end

subsection \<open>Reading from a string\<close>

lemma string_file_pend:
  assumes "zstr_at sm str s"
  shows "strlen sm str = Some (length s)" "str_ok sm (string_file str (length s))"
    "str_pend sm (string_file str (length s)) = s"
proof -
  show "strlen sm str = Some (length s)" using assms by (rule strlen_zstr)
  have "mapped sm str (length s)" using zstr_at_mapped [OF assms] by (rule mapped_mono) simp
  then show "str_ok sm (string_file str (length s))"
    by (simp add: str_ok_def string_file_def create_fd_file_def unget_inv_def)
  have "cells_at sm str s" using zstr_at_cells [OF assms] by (simp add: cells_at_append)
  then have "read_cells sm str (length s) = Some s" by (rule read_cells_at)
  then have "map (\<lambda>i. the (sm i)) [str ..< str + length s] = s"
    using read_cells_mapped [OF \<open>mapped sm str (length s)\<close>] by simp
  then show "str_pend sm (string_file str (length s)) = s"
    by (simp add: str_pend_def string_file_def create_fd_file_def pushed_def)
qed

lemma vsscanf_number:
  assumes z: "zstr_at sm str (ws @ sg @ ds @ r)" and ws: "list_all (\<lambda>w. isspace (sint w) \<noteq> Some 0) ws"
    and sg: "sign_bytes sg sign" and ds: "list_all is_dec ds" "ds \<noteq> []" "\<not> is_dec (peek r)"
    and len: "int (length ds) + 1 < INT_MAX" and "stt \<noteq> SL" and m: "mapped m d (int_size stt)" and "d \<noteq> 0"
    and c: "c \<in> {CHR ''d'', CHR ''u''}"
  defines "v \<equiv> word_of_int (if sign then - num_of 10 0 (map sint ds) else num_of 10 0 (map sint ds)) :: u64"
  shows "\<exists>st. vsscanf to_int sm str m (bytes ''%'' @ state_text stt @ [ch c]) [VPtr d] = Some (st, 1) \<and>
    sc_mem st = put m d (le_bytes (int_size stt) v) \<and> str_pend sm (sc_src st) = r \<and> sc_chars st = length (ws @ sg @ ds)"
  using str_peek.vfscanf_d_eq [OF string_file_pend(2,3) [OF z] ws sg ds len assms(8) m assms(10) c, of to_int]
    string_file_pend(1) [OF z] unfolding v_def vsscanf_def by simp

subsection \<open>Properties\<close>

text \<open>
  \<open>sscanf\<close> with \<^verbatim>\<open>%d\<close> or \<^verbatim>\<open>%u\<close> and any length modifier, on a string with a decimal number after white space,
  stores the number's low bytes (all of them where the type holds the number) at the destination and nothing
  else, counts one conversion, and leaves the input right behind the last digit.
\<close>

theorem sscanf_reads_number:
  assumes "zstr_at sm str (ws @ sg @ ds @ r)" and "list_all (\<lambda>w. sint w = 32 \<or> 9 \<le> sint w \<and> sint w \<le> 13) ws"
    and "sg = [45] \<and> sign \<or> sg \<in> {[], [43]} \<and> \<not> sign" and "list_all is_dec ds" and "ds \<noteq> []" and "r = [] \<or> \<not> is_dec (hd r)"
    and "int (length ds) + 1 < INT_MAX" and "stt \<noteq> SL" and "mapped m d (int_size stt)" and "d \<noteq> 0"
    and "c \<in> {CHR ''d'', CHR ''u''}"
  shows "\<exists>st. vsscanf to_int sm str m (bytes ''%'' @ state_text stt @ [ch c]) [VPtr d] = Some (st, 1) \<and>
    sc_mem st = put m d (le_bytes (int_size stt)
      (word_of_int (if sign then - num_of 10 0 (map sint ds) else num_of 10 0 (map sint ds)))) \<and>
    str_pend sm (sc_src st) = r \<and> sc_chars st = length (ws @ sg @ ds)"
proof -
  have ws: "list_all (\<lambda>w. isspace (sint w) \<noteq> Some 0) ws" using assms(2) sint_u8_range by (auto simp: list_all_iff isspace_eq)
  have "\<not> is_dec (peek r)" using assms(6) by (cases r) (auto simp: is_dec_def)
  then show ?thesis
    using vsscanf_number [OF assms(1) ws _ assms(4,5) _ assms(7-11)] assms(3) unfolding sign_bytes_def by simp
qed

theorem sscanf_reads_number_witness:
  "\<exists>st. vsscanf sample_reader (mem_of 0 (bytes '' -17x'' @ [0])) 0 (mem_of 8 [9, 9]) (bytes ''%hd'') [VPtr 8] = Some (st, 1) \<and>
     sc_mem st = put (mem_of 8 [9, 9]) 8 [239, 255]"
proof -
  have z: "zstr_at (mem_of 0 (bytes '' -17x'' @ [0])) 0 ([32] @ [45] @ [49, 55] @ [120])"
    by (simp add: bytes_def mem_of_simp)
  have m: "mapped (mem_of 8 [9, 9 :: u8]) 8 (int_size Sh)" by (auto simp: mapped_def mem_of_simp int_size_def)
  have n: "num_of 10 0 (map sint [49, 55 :: u8]) = 17" by (simp add: num_of_def digit_of_def)
  have b: "le_bytes 2 (- 17) = [239, 255]" by code_simp
  show ?thesis
    using sscanf_reads_number [OF z _ _ _ _ _ _ _ m, where sign = True and c = "CHR ''d''" and to_int = sample_reader]
    unfolding n by (simp add: is_dec_def bytes_def int_size_def b) blast
qed

text \<open>
  The text of a decimal conversion as \<open>sscanf\<close> sees it.
\<close>

lemma sint_eq_u8: "sint x = sint y \<longleftrightarrow> x = (y :: u8)"
  by (auto dest: signed_word_eqI)

lemma digit_chars_nonzero:
  assumes "2 \<le> b" and "b \<le> 16" and "c \<in> set (digit_chars up b n)"
  shows "c \<noteq> 0"
proof -
  have all: "list_all (\<lambda>d. CHARS ! d \<noteq> 0 \<and> LOWER_CHARS ! d \<noteq> 0) [0..<16]" by code_simp
  obtain d where d: "d \<in> set (digits_of b n)" "c = (if up then CHARS else LOWER_CHARS) ! d"
    using assms(3) by (auto simp: digit_chars_def)
  have "d \<in> set [0..<16]" using digits_of_less [of b d n] d(1) assms(1,2) by simp
  then have "CHARS ! d \<noteq> 0 \<and> LOWER_CHARS ! d \<noteq> 0" using all unfolding list_all_iff by blast
  then show ?thesis unfolding d(2) by (cases up) simp_all
qed

lemma int_text_nonzero:
  assumes "base \<in> {2, 8, 10, 16}" and "int_text val base opts = Some tx"
  shows "0 \<notin> set tx"
proof -
  have "0 \<notin> set (digit_chars (upper opts) (nat base) (unat val))"
    using digit_chars_nonzero [of "nat base" 0 "upper opts" "unat val"] assms(1) by auto
  moreover have "pad_char opts \<noteq> 0" "0 \<notin> set (sign_text opts)" "0 \<notin> set (prefix_text base b opts)" for b
    by (auto simp: pad_char_def sign_text_def prefix_text_def bytes_def)
  ultimately show ?thesis using int_text_parts [OF assms] by (auto split: if_splits)
qed

lemma decimal_text_parts:
  assumes num: "is_number (map sint (tx @ [0])) 10 10 sign n whole" and nz: "0 \<notin> set (tx :: u8 list)"
  obtains ws sg ds r where "tx = ws @ sg @ ds @ r" "list_all (\<lambda>w. isspace (sint w) \<noteq> Some 0) ws" "sign_bytes sg sign"
    "list_all is_dec ds" "ds \<noteq> []" "\<not> is_dec (peek r)" "num_of 10 0 (map sint ds) = n"
proof -
  obtain iws isg pre ids stop more where N: "map sint (tx @ [0]) = iws @ isg @ pre @ ids @ stop # more"
      "list_all (\<lambda>w. w = 32 \<or> 9 \<le> w \<and> w \<le> 13) iws" "sign_chars isg sign" "number_prefix 10 10 pre ids" "ids \<noteq> []"
      "list_all (\<lambda>d. digit_of d < 10) ids" "10 \<le> digit_of stop" "num_of 10 0 ids = n"
    using num unfolding is_number_def by blast
  have "pre = []" using N(4) by (auto simp: number_prefix_def)
  then have split: "map sint (tx @ [0]) = iws @ isg @ ids @ stop # more" using N(1) by simp
  obtain ws u where u: "tx @ [0] = ws @ u" "map sint ws = iws" "map sint u = isg @ ids @ stop # more"
    using split [THEN iffD1 [OF map_eq_append_conv]] by metis
  obtain sg u' where u': "u = sg @ u'" "map sint sg = isg" "map sint u' = ids @ stop # more"
    using u(3) [THEN iffD1 [OF map_eq_append_conv]] by metis
  obtain ds t where "u' = ds @ t" "map sint ds = ids" "map sint t = stop # more"
    using u'(3) [THEN iffD1 [OF map_eq_append_conv]] by metis
  then have t: "tx @ [0] = ws @ sg @ ds @ t" "map sint ws = iws" "map sint sg = isg" "map sint ds = ids"
      "map sint t = stop # more" using u u' by simp_all
  have "t \<noteq> []" using t(5) by auto
  then have "tx = ws @ sg @ ds @ butlast t" using t(1) by (metis butlast_append append_is_Nil_conv butlast_snoc)
  moreover have "list_all (\<lambda>w. isspace (sint w) \<noteq> Some 0) ws"
    using N(2) sint_u8_range unfolding t(2) [symmetric] by (auto simp: list_all_iff isspace_eq)
  moreover have "sign_bytes sg sign"
  proof -
    have "sint c = 45 \<longleftrightarrow> c = 45" "sint c = 43 \<longleftrightarrow> c = 43" for c :: u8
      using sint_eq_u8 [of c 45] sint_eq_u8 [of c 43] by simp_all
    then show ?thesis using N(3) unfolding t(3) [symmetric] by (auto simp: sign_chars_def sign_bytes_def)
  qed
  moreover have "list_all is_dec ds" using N(6) unfolding t(4) [symmetric]
    by (auto simp: list_all_iff is_dec_def digit_of_def split: if_splits)
  moreover have "\<not> is_dec (peek (butlast t))"
  proof (cases "butlast t")
    case (Cons x xs)
    then have "sint x = stop" using t(5) by (cases t) (auto split: if_splits)
    then show ?thesis using N(7) Cons by (auto simp: is_dec_def digit_of_def)
  qed (simp add: is_dec_def)
  ultimately show thesis using that N(5,8) t(4) by blast
qed

text \<open>
  C23. What \<open>snprintf\<close> prints with \<^verbatim>\<open>%d\<close>, \<open>sscanf\<close> with \<^verbatim>\<open>%d\<close> and the same length modifier reads back: the bytes of the
  printed value are stored, one conversion is counted.  This holds for every value but \<open>LONG_MIN\<close>, whose negation is
  undefined, with any width and precision that fit the buffer and any flags but zero, except for the value 0 with precision 0,
  which prints no digit.
\<close>

theorem printf_scanf_round_trip:
  assumes "decimal_reader to_int" and "directive_ok fl w p" and "ch CHR ''0'' \<notin> set fl"
    and "pop_signed_int st [a] = Some (v, [])" and "v \<noteq> LONG_MIN" and "v \<noteq> 0 \<or> p \<noteq> Some 0"
    and "mapped b buffer sz" and "field_bound w p < int sz" and "field_bound w p + 1 < INT_MAX"
    and "st \<noteq> SL" and "mapped dm d (int_size st)" and "d \<noteq> 0"
  shows "\<exists>b' r s sc. vsnprintf to_int b buffer sz m wm (one_directive fl w p st CHR ''d'') [a] = Some (b', r, s) \<and>
    vsscanf to_int b' buffer dm (bytes ''%'' @ state_text st @ [ch CHR ''d'']) [VPtr d] = Some (sc, 1) \<and>
    sc_mem sc = put dm d (le_bytes (int_size st) (word_of_int v))"
proof -
  let ?o = "int_opts (directive_spec fl w p st) (v < 0) False 0"
  have fb: "field_bound w p \<le> INT_MAX" using assms(9) by simp
  obtain tx where tx: "formatted to_int m wm (one_directive fl w p st CHR ''d'') [a] = Some (tx, int (length tx))"
      "int_text (word_of_int \<bar>v\<bar>) 10 ?o = Some tx" "int (length tx) \<le> field_bound w p"
    using formatted_signed [OF assms(1,2) fb _ assms(4,5), of "CHR ''d''"] by blast
  then obtain s where s: "vsnprintf to_int b buffer sz m wm (one_directive fl w p st CHR ''d'') [a] =
      Some (put b buffer (tx @ [0]), int (length tx), s)"
    using vsnprintf_fits [OF tx(1) assms(7)] assms(8) by auto
  have num: "is_number (map sint (tx @ [0])) 10 10 (v < 0) \<bar>v\<bar> (right_pad ?o = 0)"
    using printed_number [OF tx(2) assms(2,3,4,5,6)] .
  have nz: "0 \<notin> set tx" using int_text_nonzero [OF _ tx(2)] by simp
  obtain ws sg ds r where P: "tx = ws @ sg @ ds @ r" "list_all (\<lambda>w. isspace (sint w) \<noteq> Some 0) ws" "sign_bytes sg (v < 0)"
      "list_all is_dec ds" "ds \<noteq> []" "\<not> is_dec (peek r)" "num_of 10 0 (map sint ds) = \<bar>v\<bar>"
    using decimal_text_parts [OF num nz] by blast
  have z: "zstr_at (put b buffer (tx @ [0])) buffer (ws @ sg @ ds @ r)" using zstr_at_put [OF nz] P(1) by simp
  have "int (length ds) + 1 < INT_MAX" using tx(3) assms(9) P(1) by simp
  from vsscanf_number [OF z P(2,3,4,5,6) this assms(10,11,12), of "CHR ''d''" to_int] s show ?thesis
    unfolding P(7) by (auto simp: abs_if)
qed

theorem printf_scanf_round_trip_witness:
  "\<exists>b' r s sc. vsnprintf sample_reader (mem_of 0 (replicate 80 0)) 0 80 Map.empty Map.empty
      (one_directive (bytes ''-+'') (Some 9) (Some 4) SNone CHR ''d'') [VInt (- 42)] = Some (b', r, s) \<and>
    vsscanf sample_reader b' 0 (mem_of 4 [0, 0, 0, 0]) (bytes ''%d'') [VPtr 4] = Some (sc, 1) \<and>
    sc_mem sc = put (mem_of 4 [0, 0, 0, 0]) 4 [214, 255, 255, 255]"
proof -
  have "mapped (mem_of 0 (replicate 80 (0 :: u8))) 0 80" using mapped_mem_of [of 0 "replicate 80 (0 :: u8)"] by simp
  moreover have "mapped (mem_of 4 [0, 0, 0, 0 :: u8]) 4 (int_size SNone)"
    using mapped_mem_of [of 4 "[0, 0, 0, 0 :: u8]"] by (simp add: int_size_def numeral_eq_Suc)
  moreover have "le_bytes 4 (- 42) = [214, 255, 255, 255]" by code_simp
  ultimately show ?thesis
    using printf_scanf_round_trip [OF sample_reader, of "bytes ''-+''" "Some 9" "Some 4" SNone "VInt (- 42)" "- 42"
        "mem_of 0 (replicate 80 0)" 0 80 "mem_of 4 [0, 0, 0, 0]" 4 Map.empty Map.empty]
    by (simp add: directive_ok_def flag_chars_def bytes_def pop_signed_int_def field_bound_def int_size_def)
qed

text \<open>
  A hyphen range in a scan set runs from the hyphen itself: the set \<^verbatim>\<open>[a-z]\<close> contains every character from
  the hyphen to \<open>z\<close>, so it takes digits, dots and capital letters, and for a set \<open>x-y\<close> with \<open>y\<close> below the
  hyphen the range is empty.
\<close>

theorem set_range_starts_at_hyphen:
  assumes "x \<noteq> ch CHR ''-''"
  shows "set_matches False [x, ch CHR ''-'', y] (sint c) \<longleftrightarrow> c = x \<or> 45 \<le> sint c \<and> sint c \<le> sint y"
proof -
  have "sint c = sint x \<longleftrightarrow> c = x" by (rule sint_eq_u8)
  then show ?thesis using assms by (auto simp: set_matches_def)
qed

theorem set_range_starts_at_hyphen_witness:
  "set_matches False (bytes ''a-z'') (sint (ch CHR ''7''))"
  using set_range_starts_at_hyphen [of "ch CHR ''a''" "ch CHR ''z''" "ch CHR ''7''"] by (simp add: bytes_def)

end
