(* ===== verification/Inttypes.thy ===== *)
theory Inttypes
  imports Cmem Ctype
begin

text \<open>
  \<^verbatim>\<open>src/ansi/inttypes.cpp\<close>: \<open>strtoumax\<close> and \<open>strtoimax\<close>, which have a parser of their own, and the arithmetic
  functions; and from \<^verbatim>\<open>src/ansi/stdlib.cpp\<close> \<open>rand\<close>, \<open>srand\<close> and the absolute value and division
  functions.

  A parser yields the value, the end pointer it stores (\<open>None\<close> if it returns without storing one) and the
  error.  The two parsers repeat the same code up to the last check, which is \<open>umax_parse\<close>.
\<close>

subsection \<open>Parsing\<close>

definition UMAX_CHARS :: "int list" where
  "UMAX_CHARS = map of_char ''0123456789abcdefghijklmnopqrstuvwxyz''"

partial_function (option) umax_skip :: "u8 mem \<Rightarrow> nat \<Rightarrow> nat option" where
  "umax_skip m ptr =
     do { c \<leftarrow> m ptr; s \<leftarrow> isspace (sint c); if s \<noteq> 0 then umax_skip m (ptr + 1) else Some ptr }"

definition umax_sign :: "u8 mem \<Rightarrow> nat \<Rightarrow> (nat \<times> bool) option" where
  "umax_sign m ptr =
     do { c \<leftarrow> m ptr;
          Some (if sint c = 45 then (ptr + 1, True) else if sint c = 43 then (ptr + 1, False) else (ptr, False)) }"

text \<open>Whether a zero and the given letter, in either case, come next.\<close>

definition umax_zero_letter :: "u8 mem \<Rightarrow> nat \<Rightarrow> int \<Rightarrow> bool option" where
  "umax_zero_letter m ptr letter =
     do { c \<leftarrow> m ptr;
          if sint c = 48 then do { d \<leftarrow> m (ptr + 1); l \<leftarrow> tolower (sint d); Some (l = letter) } else Some False }"

definition umax_prefix :: "u8 mem \<Rightarrow> nat \<Rightarrow> int \<Rightarrow> (nat \<times> int) option" where
  "umax_prefix m ptr base =
     (if base = 0 then
        do { x \<leftarrow> umax_zero_letter m ptr 120;
             if x then Some (ptr + 2, 16)
             else do { b \<leftarrow> umax_zero_letter m ptr 98;
                       if b then Some (ptr + 2, 2)
                       else do { c \<leftarrow> m ptr; Some (if sint c = 48 then (ptr + 1, 8) else (ptr, 10)) } } }
      else if base = 2 then
        do { b \<leftarrow> umax_zero_letter m ptr 98; Some (if b then ptr + 2 else ptr, base) }
      else if base = 8 then
        do { c \<leftarrow> m ptr; Some (if sint c = 48 then ptr + 1 else ptr, base) }
      else if base = 16 then
        do { x \<leftarrow> umax_zero_letter m ptr 120; Some (if x then ptr + 2 else ptr, base) }
      else Some (ptr, base))"

definition umax_step :: "u64 \<Rightarrow> int \<Rightarrow> int \<Rightarrow> u64 option" where
  "umax_step v base d =
     (let v' = v * word_of_int base in
      if v' div word_of_int base \<noteq> v then None
      else let v'' = v' + word_of_int d in if v'' < v' then None else Some v'')"

partial_function (option) umax_low :: "u8 mem \<Rightarrow> int \<Rightarrow> nat \<Rightarrow> u64 \<Rightarrow> (nat \<times> u64) option option" where
  "umax_low m base ptr v =
     do { c \<leftarrow> m ptr;
          if sint c \<ge> 48 then
            do { b \<leftarrow> ck32 (base - 1); lim \<leftarrow> ck32 (48 + b);
                 if sint c \<le> lim then
                   (case umax_step v base (sint c - 48) of
                      None \<Rightarrow> Some None
                    | Some v' \<Rightarrow> umax_low m base (ptr + 1) v')
                 else Some (Some (ptr, v)) }
          else Some (Some (ptr, v)) }"

partial_function (option) umax_high :: "u8 mem \<Rightarrow> int \<Rightarrow> nat \<Rightarrow> u64 \<Rightarrow> (nat \<times> u64) option option" where
  "umax_high m base ptr v =
     do { c \<leftarrow> m ptr; d \<leftarrow> isdigit (sint c); l \<leftarrow> tolower (sint c);
          if d \<noteq> 0 \<or> (l \<ge> 97 \<and> l \<le> UMAX_CHARS ! nat (base - 1)) then
            (case umax_step v base (if sint c \<le> 57 then sint c - 48 else l - 97 + 10) of
               None \<Rightarrow> Some None
             | Some v' \<Rightarrow> umax_high m base (ptr + 1) v')
          else Some (Some (ptr, v)) }"

text \<open>\<open>Some None\<close> is an overflow; otherwise the position after the spaces, the end, the sign and the value.\<close>

definition umax_parse :: "u8 mem \<Rightarrow> nat \<Rightarrow> int \<Rightarrow> (nat \<times> nat \<times> bool \<times> u64) option option" where
  "umax_parse m start base =
     do { after_space \<leftarrow> umax_skip m start;
          (p, sign) \<leftarrow> umax_sign m after_space;
          (p, base) \<leftarrow> umax_prefix m p base;
          r \<leftarrow> (if base \<le> 10 then umax_low m base p 0
                else if base \<le> 36 then umax_high m base p 0
                else Some (Some (p, 0)));
          Some (map_option (\<lambda>(p, v). (after_space, p, sign, v)) r) }"

definition umax_end :: "nat \<Rightarrow> nat \<Rightarrow> nat \<Rightarrow> nat" where
  "umax_end start after_space p = (if after_space \<noteq> p then p else start)"

definition strtoumax :: "u8 mem \<Rightarrow> nat \<Rightarrow> int \<Rightarrow> (u64 \<times> nat option \<times> errno option) option" where
  "strtoumax m start base =
     do { r \<leftarrow> umax_parse m start base;
          case r of
            None \<Rightarrow> Some (- 1, None, Some ERANGE)
          | Some (after_space, p, sign, v) \<Rightarrow>
              Some (if sign then - v else v, Some (umax_end start after_space p), None) }"

definition strtoimax :: "u8 mem \<Rightarrow> nat \<Rightarrow> int \<Rightarrow> (int \<times> nat option \<times> errno option) option" where
  "strtoimax m start base =
     do { r \<leftarrow> umax_parse m start base;
          case r of
            None \<Rightarrow> Some (sint (- 1 :: u64), None, Some ERANGE)
          | Some (after_space, p, sign, v) \<Rightarrow>
              if uint v > LONG_MAX then Some (LONG_MAX, None, Some ERANGE)
              else Some (sint (if sign then - v else v), Some (umax_end start after_space p), None) }"

subsection \<open>Arithmetic\<close>

text \<open>On LP64 targets \<open>intmax_t\<close>, \<open>long\<close> and \<open>long long\<close> have 64 bits; the overflow cases are undefined.\<close>

definition imaxabs :: "int \<Rightarrow> int option" where "imaxabs x = (if x < 0 then ck64 (x * - 1) else Some x)"
definition abs_int :: "int \<Rightarrow> int option" where "abs_int x = (if x < 0 then ck32 (x * - 1) else Some x)"
definition labs :: "int \<Rightarrow> int option" where "labs x = (if x < 0 then ck64 (x * - 1) else Some x)"
definition llabs :: "int \<Rightarrow> int option" where "llabs x = (if x < 0 then ck64 (x * - 1) else Some x)"

definition c_div :: "(int \<Rightarrow> int option) \<Rightarrow> int \<Rightarrow> int \<Rightarrow> (int \<times> int) option" where
  "c_div ck x y = (if y = 0 then None else do { q \<leftarrow> ck (x sdiv y); Some (q, x smod y) })"

definition imaxdiv :: "int \<Rightarrow> int \<Rightarrow> (int \<times> int) option" where "imaxdiv x y = c_div ck64 x y"
definition div_int :: "int \<Rightarrow> int \<Rightarrow> (int \<times> int) option" where "div_int x y = c_div ck32 x y"
definition ldiv :: "int \<Rightarrow> int \<Rightarrow> (int \<times> int) option" where "ldiv x y = c_div ck64 x y"
definition lldiv :: "int \<Rightarrow> int \<Rightarrow> (int \<times> int) option" where "lldiv x y = c_div ck64 x y"

subsection \<open>Random numbers\<close>

definition RAND_STATE :: u32 where "RAND_STATE = 1283161862"

definition srand :: "u32 \<Rightarrow> u32" where "srand seed = seed"

definition rand :: "u32 \<Rightarrow> u32 \<times> int" where
  "rand x =
     (let x = x XOR push_bit 13 x; x = x XOR drop_bit 17 x; x = x XOR push_bit 5 x
      in (x, sint (x mod 2147483647)))"


subsection \<open>Lemmas\<close>

text \<open>One digit is added exactly, and overflow is found exactly.\<close>

lemma umax_step_exact:
  assumes "2 \<le> base" "base \<le> 36" "0 \<le> d" "d < base"
  shows "umax_step v base d =
    (if uint v * base + d < 2 ^ 64 then Some (word_of_int (uint v * base + d)) else None)"
proof -
  have b: "uint (word_of_int base :: u64) = base" "uint (word_of_int d :: u64) = d"
    using assms by (simp_all add: uint_word_of_int)
  define p where "p = uint v * base"
  have p0: "0 \<le> p" using assms by (simp add: p_def)
  have mult: "uint (v * word_of_int base) = p mod 2 ^ 64" using b by (simp add: uint_word_ariths take_bit_eq_mod p_def)
  have quot: "v * word_of_int base div word_of_int base = v \<longleftrightarrow> p mod 2 ^ 64 div base = uint v"
    using b mult by (metis uint_div word_uint_eqI)
  have fits: "p mod 2 ^ 64 div base = uint v \<longleftrightarrow> p < 2 ^ 64"
  proof
    assume eq: "p mod 2 ^ 64 div base = uint v"
    have "p mod 2 ^ 64 div base * base \<le> p mod 2 ^ 64" using assms pos_mod_sign [of base "p mod 2 ^ 64"] by (simp add: minus_mod_eq_div_mult [symmetric])
    then have "p \<le> p mod 2 ^ 64" using eq by (simp add: p_def)
    then show "p < 2 ^ 64" using pos_mod_bound [of "2 ^ 64" p] by simp
  next
    assume "p < 2 ^ 64"
    then show "p mod 2 ^ 64 div base = uint v" using p0 assms by (simp add: p_def)
  qed
  show ?thesis
  proof (cases "p < 2 ^ 64")
    case True
    have up: "uint (v * word_of_int base) = p" using mult True p0 by simp
    have sum: "uint (v * word_of_int base + word_of_int d) = (p + d) mod 2 ^ 64"
      using b up by (simp add: uint_word_ariths take_bit_eq_mod)
    have "(p + d) mod 2 ^ 64 < p \<longleftrightarrow> 2 ^ 64 \<le> p + d"
    proof (cases "p + d < 2 ^ 64")
      case False
      have "(p + d) mod 2 ^ 64 = p + d - 2 ^ 64"
        using False True assms by (intro int_mod_pos_eq [where q = 1]) auto
      then show ?thesis using False assms True by simp
    qed (use p0 assms in simp)
    then show ?thesis using quot fits True up sum
      by (auto simp: umax_step_def Let_def word_less_def p_def wi_hom_syms)
  next
    case False
    then show ?thesis using quot fits assms by (simp add: umax_step_def Let_def p_def)
  qed
qed

text \<open>Decimal digits, and the number they stand for.\<close>

definition decimal :: "int list \<Rightarrow> int \<Rightarrow> int" where
  "decimal ds v = foldl (\<lambda>v d. v * 10 + d) v ds"

lemma decimal_simps [simp]: "decimal [] v = v" "decimal (d # ds) v = decimal ds (v * 10 + d)"
  by (simp_all add: decimal_def)

lemma decimal_ge: "list_all (\<lambda>d. 0 \<le> d) ds \<Longrightarrow> 0 \<le> v \<Longrightarrow> v \<le> decimal ds v"
proof (induction ds arbitrary: v)
  case (Cons d ds)
  then have "v * 10 + d \<le> decimal ds (v * 10 + d)" by simp
  then show ?case using Cons.prems by simp
qed simp

definition digits_at :: "u8 mem \<Rightarrow> nat \<Rightarrow> int list \<Rightarrow> bool" where
  "digits_at m p ds \<longleftrightarrow> (\<exists>cs c. cells_at m p (cs @ [c]) \<and> map sint cs = map (\<lambda>d. d + 48) ds
     \<and> list_all (\<lambda>d. 0 \<le> d \<and> d < 10) ds \<and> \<not> (48 \<le> sint c \<and> sint c \<le> 57))"

lemma digits_at_Nil: "digits_at m p [] \<longleftrightarrow> (\<exists>c. m p = Some c \<and> \<not> (48 \<le> sint c \<and> sint c \<le> 57))"
  by (auto simp: digits_at_def)

lemma digits_at_Cons: "digits_at m p (d # ds) \<Longrightarrow>
   0 \<le> d \<and> d < 10 \<and> (\<exists>c. m p = Some c \<and> sint c = d + 48) \<and> digits_at m (Suc p) ds"
proof -
  assume "digits_at m p (d # ds)"
  then obtain cs c where cs: "cells_at m p (cs @ [c])" "map sint cs = map (\<lambda>d. d + 48) (d # ds)"
    "list_all (\<lambda>d. 0 \<le> d \<and> d < 10) (d # ds)" "\<not> (48 \<le> sint c \<and> sint c \<le> 57)"
    unfolding digits_at_def by blast
  obtain z zs where z: "cs = z # zs" using cs(2) by (cases cs) auto
  have "digits_at m (Suc p) ds" unfolding digits_at_def
    by (rule exI [of _ zs], rule exI [of _ c]) (use cs z in auto)
  then show ?thesis using cs z by auto
qed

lemma umax_low_decimal:
  "digits_at m p ds \<Longrightarrow>
   umax_low m 10 p v = Some (if decimal ds (uint v) < 2 ^ 64
     then Some (p + length ds, word_of_int (decimal ds (uint v))) else None)"
proof (induction ds arbitrary: p v)
  case Nil
  have "uint v < 2 ^ 64" using uint_lt2p [of v] by simp
  then show ?case using Nil by (subst umax_low.simps) (auto simp: digits_at_Nil ck32_def int32_ok_def)
next
  case (Cons d ds)
  obtain c where c: "m p = Some c" "sint c = d + 48" and d: "0 \<le> d" "d < 10" and ds: "digits_at m (Suc p) ds"
    using digits_at_Cons [OF Cons.prems] by auto
  have ge: "uint v * 10 + d \<le> decimal ds (uint v * 10 + d)"
    using ds d by (intro decimal_ge) (auto simp: digits_at_def list_all_iff)
  have one: "umax_low m 10 p v =
      (case umax_step v 10 d of None \<Rightarrow> Some None | Some v' \<Rightarrow> umax_low m 10 (Suc p) v')"
    unfolding Suc_eq_plus1 using c d by (subst umax_low.simps) (simp add: ck32_def int32_ok_def)
  show ?case
  proof (cases "uint v * 10 + d < 2 ^ 64")
    case True
    then have "uint (word_of_int (uint v * 10 + d) :: u64) = uint v * 10 + d"
      using d by (simp add: uint_word_of_int del: of_int_add of_int_mult)
    then show ?thesis using one True d Cons.IH [OF ds] by (simp add: umax_step_exact del: of_int_add of_int_mult)
  next
    case False
    then show ?thesis using one d ge by (simp add: umax_step_exact)
  qed
qed

lemma umax_parse_decimal:
  assumes "digits_at m p ds" "ds \<noteq> []"
  shows "umax_parse m p 10 = Some (if decimal ds 0 < 2 ^ 64
    then Some (p, p + length ds, False, word_of_int (decimal ds 0)) else None)"
proof -
  obtain d ds' where ds: "ds = d # ds'" using assms(2) by (cases ds) auto
  obtain c where c: "m p = Some c" "sint c = d + 48" "0 \<le> d" "d < 10" using digits_at_Cons assms(1) ds by blast
  have "isspace (sint c) = Some 0" using c by (simp add: isspace_eq)
  then have "umax_skip m p = Some p" using c(1) by (subst umax_skip.simps) simp
  moreover have "umax_sign m p = Some (p, False)" using c by (simp add: umax_sign_def)
  ultimately show ?thesis using umax_low_decimal [OF assms(1), of 0]
    by (simp add: umax_parse_def umax_prefix_def)
qed

text \<open>
  On a decimal number \<open>strtoumax\<close> is exact; \<open>strtoimax\<close> is exact up to its maximum, but returns -1 when the
  number exceeds 64 bits, and stores no end pointer on overflow.
\<close>

lemma strtoumax_decimal:
  assumes "digits_at m p ds" "ds \<noteq> []"
  shows "strtoumax m p 10 = Some (if decimal ds 0 < 2 ^ 64
    then (word_of_int (decimal ds 0), Some (p + length ds), None) else (- 1, None, Some ERANGE))"
  using umax_parse_decimal [OF assms] assms(2) by (simp add: strtoumax_def umax_end_def)

lemma strtoimax_decimal:
  assumes "digits_at m p ds" "ds \<noteq> []"
  shows "strtoimax m p 10 = Some (if decimal ds 0 < 2 ^ 63
    then (decimal ds 0, Some (p + length ds), None)
    else if decimal ds 0 < 2 ^ 64 then (LONG_MAX, None, Some ERANGE) else (- 1, None, Some ERANGE))"
proof -
  have "0 \<le> decimal ds 0" using assms(1) by (intro decimal_ge) (auto simp: digits_at_def list_all_iff)
  moreover have m1: "uint (- 1 :: u64) = 2 ^ 64 - 1" by (simp add: unsigned_minus_1_eq_mask mask_eq_exp_minus_1)
  ultimately show ?thesis using umax_parse_decimal [OF assms] assms(2)
    by (auto simp: strtoimax_def umax_end_def uint_word_of_int sint_u64_eq m1)
qed

lemma absolute_values:
  "int32_ok x \<Longrightarrow> abs_int x = (if x = INT_MIN then None else Some \<bar>x\<bar>)"
  "int64_ok y \<Longrightarrow> imaxabs y = (if y = LONG_MIN then None else Some \<bar>y\<bar>) \<and> labs y = imaxabs y \<and> llabs y = imaxabs y"
  by (auto simp: abs_int_def imaxabs_def labs_def llabs_def ck32_def ck64_def int32_ok_def int64_ok_def)

text \<open>A zero seed stays zero, and no other state reaches zero.\<close>

lemma rand_zero: "rand (srand 0) = (0, 0)"
  by (simp add: rand_def srand_def)

lemma xor_shift_up_nonzero:
  fixes x :: u32
  assumes "0 < k" "x XOR push_bit k x = 0" shows "x = 0"
proof (rule bit_word_eqI)
  have eq: "bit x n \<longleftrightarrow> bit (push_bit k x) n" for n
    using arg_cong [OF assms(2), of "\<lambda>w. bit w n"] by (auto simp: bit_xor_iff)
  fix n assume "n < LENGTH(32)"
  show "bit x n = bit 0 n"
  proof (induction n rule: less_induct)
    case (less n)
    then show ?case using eq [of n] assms(1) by (auto simp: bit_push_bit_iff)
  qed
qed

lemma xor_shift_down_nonzero:
  fixes x :: u32
  assumes "0 < k" "x XOR drop_bit k x = 0" shows "x = 0"
proof (rule bit_word_eqI)
  have eq: "bit x n \<longleftrightarrow> bit x (n + k)" for n
    using arg_cong [OF assms(2), of "\<lambda>w. bit w n"] by (auto simp: bit_simps add.commute)
  have rep: "bit x n \<Longrightarrow> bit x (n + j * k)" for n j
  proof (induction j)
    case (Suc j)
    then have "bit x (n + j * k + k)" using eq [of "n + j * k"] by blast
    then show ?case by (simp add: add.commute add.left_commute)
  qed simp
  fix n assume "n < LENGTH(32)"
  have "\<not> bit x (n + 32 * k)" using assms(1) by (auto dest: bit_imp_le_length)
  then show "bit x n = bit 0 n" using rep [of n 32] by auto
qed

lemma rand_nonzero: "x \<noteq> 0 \<Longrightarrow> fst (rand x) \<noteq> 0"
  using xor_shift_up_nonzero [of 13 x] xor_shift_down_nonzero [of 17 "x XOR push_bit 13 x"]
    xor_shift_up_nonzero [of 5 "(x XOR push_bit 13 x) XOR drop_bit 17 (x XOR push_bit 13 x)"]
  by (auto simp: rand_def Let_def)

end
