(* ===== verification/Chacha.thy ===== *)
theory Chacha
  imports Hz_Prelude
begin

text \<open>
  The ChaCha20 block function of \<^verbatim>\<open>src/internal/cha_cha.cpp\<close>, the nonce of \<^verbatim>\<open>src/internal/cha_cha.hpp\<close>, and
  \<open>arc4random_buf\<close> and \<open>arc4random\<close> of \<^verbatim>\<open>src/bsd/stdlib.cpp\<close> built on them.

  The sixteen words of a state are a list; \<open>quarter_round\<close> reads and writes four of them.  Calls of
  \<open>arc4random_buf\<close> are serial, since it holds a lock throughout.  The results of \<open>sys_getrandom\<close> are a
  list of outcomes: an error, or the key array after the call.  The code never sets \<open>INITIALIZED\<close>, so
  every call asks for a key.  \<open>None\<close> is a panic, or no outcome left.
\<close>

subsection \<open>The block function\<close>

definition rotate_left :: "u32 \<Rightarrow> nat \<Rightarrow> u32" where
  "rotate_left v num = push_bit num v OR drop_bit (32 - num) v"

definition chacha20_quarter_round :: "u32 \<times> u32 \<times> u32 \<times> u32 \<Rightarrow> u32 \<times> u32 \<times> u32 \<times> u32" where
  "chacha20_quarter_round = (\<lambda>(a, b, c, d).
     let a = a + b; d = d XOR a; d = rotate_left d 16;
         c = c + d; b = b XOR c; b = rotate_left b 12;
         a = a + b; d = d XOR a; d = rotate_left d 8;
         c = c + d; b = b XOR c; b = rotate_left b 7
     in (a, b, c, d))"

definition state_init :: "u32 list \<Rightarrow> u32 \<Rightarrow> u32 list \<Rightarrow> u32 list" where
  "state_init key block_counter nonce =
     [0x61707865, 0x3320646E, 0x79622D32, 0x6B206574,
      key ! 0, key ! 1, key ! 2, key ! 3, key ! 4, key ! 5, key ! 6, key ! 7,
      block_counter, nonce ! 0, nonce ! 1, nonce ! 2]"

definition quarter_round :: "nat \<Rightarrow> nat \<Rightarrow> nat \<Rightarrow> nat \<Rightarrow> u32 list \<Rightarrow> u32 list" where
  "quarter_round x y z w s =
     (let (a, b, c, d) = chacha20_quarter_round (s ! x, s ! y, s ! z, s ! w)
      in s[x := a, y := b, z := c, w := d])"

definition inner_block :: "u32 list \<Rightarrow> u32 list" where
  "inner_block s =
     (let s = quarter_round 0 4 8 12 s; s = quarter_round 1 5 9 13 s;
          s = quarter_round 2 6 10 14 s; s = quarter_round 3 7 11 15 s;
          s = quarter_round 0 5 10 15 s; s = quarter_round 1 6 11 12 s;
          s = quarter_round 2 7 8 13 s; s = quarter_round 3 4 9 14 s
      in s)"

definition cha_cha20_block :: "u32 list \<Rightarrow> u32 \<Rightarrow> u32 list \<Rightarrow> u32 list" where
  "cha_cha20_block key block_counter nonce =
     (let initial_state = state_init key block_counter nonce;
          s = (inner_block ^^ 10) initial_state
      in map2 (+) s initial_state)"

subsection \<open>The nonce and the generator\<close>

record Nonce =
  inner0 :: u32
  inner1 :: u32
  inner2 :: u32

definition use :: "Nonce \<Rightarrow> Nonce" where
  "use n =
     (let n = n\<lparr>inner0 := inner0 n + 1\<rparr> in
      if inner0 n = 0 then
        (let n = n\<lparr>inner1 := inner1 n + 1\<rparr> in
         if inner1 n = 0 then n\<lparr>inner2 := inner2 n + 1\<rparr> else n)
      else n)"

definition inner :: "Nonce \<Rightarrow> u32 list" where
  "inner n = [inner0 n, inner1 n, inner2 n]"

text \<open>The bytes of a word in memory, least significant first.\<close>

definition word_bytes :: "u32 \<Rightarrow> u8 list" where
  "word_bytes w = [ucast w, ucast (drop_bit 8 w), ucast (drop_bit 16 w), ucast (drop_bit 24 w)]"

fun get_key :: "(errno + u32 list) list \<Rightarrow> (u32 list \<times> (errno + u32 list) list) option" where
  "get_key [] = None"
| "get_key (Inr key # rs) = Some (key, rs)"
| "get_key (Inl err # rs) = (if err = EINTR then get_key rs else None)"

function fill_blocks :: "u32 list \<Rightarrow> u32 list \<Rightarrow> nat \<Rightarrow> nat \<Rightarrow> u32 \<Rightarrow> u8 list" where
  "fill_blocks key nonce num_bytes i counter =
     (if i < num_bytes then
        take (min (num_bytes - i) 64) (concat (map word_bytes (cha_cha20_block key counter nonce)))
        @ fill_blocks key nonce num_bytes (i + 64) (counter + 1)
      else [])"
  by pat_completeness auto
termination by (relation "measure (\<lambda>(_, _, num_bytes, i, _). num_bytes - i)") auto

record arc4 =
  NONCE :: Nonce
  KEY :: "u32 list"

definition arc4random_buf ::
    "arc4 \<Rightarrow> (errno + u32 list) list \<Rightarrow> nat \<Rightarrow> (u8 list \<times> arc4 \<times> (errno + u32 list) list) option" where
  "arc4random_buf S rs num_bytes =
     do { (key, rs') \<leftarrow> get_key rs;
          Some (fill_blocks key (inner (NONCE S)) num_bytes 0 0, \<lparr>NONCE = use (NONCE S), KEY = key\<rparr>, rs') }"

definition arc4random :: "arc4 \<Rightarrow> (errno + u32 list) list \<Rightarrow> (u32 \<times> arc4 \<times> (errno + u32 list) list) option" where
  "arc4random S rs =
     do { (bs, S', rs') \<leftarrow> arc4random_buf S rs 4;
          Some (ucast (bs ! 0) OR push_bit 8 (ucast (bs ! 1)) OR push_bit 16 (ucast (bs ! 2)) OR push_bit 24 (ucast (bs ! 3)),
                S', rs') }"


declare fill_blocks.simps [simp del]

subsection \<open>Evaluation\<close>

text \<open>The two updates a quarter round repeats; as nested applications they are evaluated once each.\<close>

fun mix_ad :: "nat \<Rightarrow> u32 \<times> u32 \<times> u32 \<times> u32 \<Rightarrow> u32 \<times> u32 \<times> u32 \<times> u32" where
  "mix_ad k (a, b, c, d) = (a + b, b, c, rotate_left (d XOR (a + b)) k)"

fun mix_cb :: "nat \<Rightarrow> u32 \<times> u32 \<times> u32 \<times> u32 \<Rightarrow> u32 \<times> u32 \<times> u32 \<times> u32" where
  "mix_cb k (a, b, c, d) = (a, rotate_left (b XOR (c + d)) k, c + d, d)"

lemma quarter_round_mixes: "chacha20_quarter_round x = mix_cb 7 (mix_ad 8 (mix_cb 12 (mix_ad 16 x)))"
  by (cases x) (simp add: chacha20_quarter_round_def Let_def)

fun put4 :: "nat \<Rightarrow> nat \<Rightarrow> nat \<Rightarrow> nat \<Rightarrow> u32 list \<Rightarrow> u32 \<times> u32 \<times> u32 \<times> u32 \<Rightarrow> u32 list" where
  "put4 x y z w s (a, b, c, d) = s[x := a, y := b, z := c, w := d]"

lemma quarter_round_put4:
  "quarter_round x y z w s = put4 x y z w s (chacha20_quarter_round (s ! x, s ! y, s ! z, s ! w))"
  by (simp add: quarter_round_def split: prod.split)

lemma inner_block_nested:
  "inner_block s =
     quarter_round 3 4 9 14 (quarter_round 2 7 8 13 (quarter_round 1 6 11 12 (quarter_round 0 5 10 15
       (quarter_round 3 7 11 15 (quarter_round 2 6 10 14 (quarter_round 1 5 9 13 (quarter_round 0 4 8 12 s)))))))"
  by (simp add: inner_block_def Let_def)

lemmas block_eval = inner_block_nested quarter_round_put4 quarter_round_mixes rotate_left_def

lemma rfc8439_round_1:
  "inner_block [0x61707865, 0x3320646e, 0x79622d32, 0x6b206574, 0x3020100, 0x7060504, 0xb0a0908, 0xf0e0d0c, 0x13121110, 0x17161514, 0x1b1a1918, 0x1f1e1d1c, 1, 0x9000000, 0x4a000000, 0] =
   [0xcd52e917, 0x85ab03b4, 0xb3457395, 0xf96de7dd, 0xc4b7cd22, 0x5c2e187a, 0xc95eb461, 0x316c801a, 0x7bf7d740, 0x7eddd644, 0xf1a1bdf5, 0x761246ca, 0x6b0d58a3, 0x6798471a, 0xd737f167, 0xf173888d]"
  by (simp add: block_eval)

lemma rfc8439_round_2:
  "inner_block [0xcd52e917, 0x85ab03b4, 0xb3457395, 0xf96de7dd, 0xc4b7cd22, 0x5c2e187a, 0xc95eb461, 0x316c801a, 0x7bf7d740, 0x7eddd644, 0xf1a1bdf5, 0x761246ca, 0x6b0d58a3, 0x6798471a, 0xd737f167, 0xf173888d] =
   [0xcf1a7584, 0x48927ec, 0x54051fda, 0xc244ff28, 0x901d2f40, 0x7974b81c, 0x378dcfb4, 0xcd47fd0e, 0x2dafb216, 0x27c89cd6, 0xcd3c9aa0, 0x79fc89c7, 0x10aef18d, 0x16218765, 0x68f76705, 0x4d6ee22]"
  by (simp add: block_eval)

lemma rfc8439_round_3:
  "inner_block [0xcf1a7584, 0x48927ec, 0x54051fda, 0xc244ff28, 0x901d2f40, 0x7974b81c, 0x378dcfb4, 0xcd47fd0e, 0x2dafb216, 0x27c89cd6, 0xcd3c9aa0, 0x79fc89c7, 0x10aef18d, 0x16218765, 0x68f76705, 0x4d6ee22] =
   [0x3a14032, 0x66b15927, 0x9d6b6b42, 0xb84c4109, 0xa7143ae0, 0xa09b33dd, 0xa5daaf88, 0x2fd91a73, 0xc90c6b18, 0x5a202413, 0xc20e01b6, 0x72cd6b74, 0xba35d777, 0xb360f1bf, 0x8178315b, 0x2cd11b1a]"
  by (simp add: block_eval)

lemma rfc8439_round_4:
  "inner_block [0x3a14032, 0x66b15927, 0x9d6b6b42, 0xb84c4109, 0xa7143ae0, 0xa09b33dd, 0xa5daaf88, 0x2fd91a73, 0xc90c6b18, 0x5a202413, 0xc20e01b6, 0x72cd6b74, 0xba35d777, 0xb360f1bf, 0x8178315b, 0x2cd11b1a] =
   [0x9a2d3589, 0xb23fc4e, 0x40af3b6b, 0xceea8144, 0xa1bffc6, 0x5e5993f7, 0x9904c2e7, 0xd334718, 0xe46c6354, 0xc9503229, 0x4fef5aa, 0xf8933f72, 0x2687d476, 0x54e65231, 0x3594ffc5, 0x2b3bb2ca]"
  by (simp add: block_eval)

lemma rfc8439_round_5:
  "inner_block [0x9a2d3589, 0xb23fc4e, 0x40af3b6b, 0xceea8144, 0xa1bffc6, 0x5e5993f7, 0x9904c2e7, 0xd334718, 0xe46c6354, 0xc9503229, 0x4fef5aa, 0xf8933f72, 0x2687d476, 0x54e65231, 0x3594ffc5, 0x2b3bb2ca] =
   [0xc53318c5, 0xca325d96, 0x7e7d11cb, 0x3404e2ca, 0x26d7cf73, 0x6088d379, 0xc0f0e9bd, 0xe310cdb9, 0xae2ca8db, 0x42f67c72, 0x71669aca, 0x975c171d, 0x9e5ec228, 0x7d85a9f3, 0x201d0756, 0x63fa6953]"
  by (simp add: block_eval)

lemma rfc8439_round_6:
  "inner_block [0xc53318c5, 0xca325d96, 0x7e7d11cb, 0x3404e2ca, 0x26d7cf73, 0x6088d379, 0xc0f0e9bd, 0xe310cdb9, 0xae2ca8db, 0x42f67c72, 0x71669aca, 0x975c171d, 0x9e5ec228, 0x7d85a9f3, 0x201d0756, 0x63fa6953] =
   [0x4a3131a, 0x66176309, 0x415bab1, 0x61b880a2, 0x36cc86c7, 0xbf8a4465, 0xf77dd720, 0xfc0bdc90, 0x7d13aca, 0xeb0be9af, 0x61599491, 0x918512dc, 0x33b6686d, 0x795cc671, 0xc0049972, 0xa0a81bde]"
  by (simp add: block_eval)

lemma rfc8439_round_7:
  "inner_block [0x4a3131a, 0x66176309, 0x415bab1, 0x61b880a2, 0x36cc86c7, 0xbf8a4465, 0xf77dd720, 0xfc0bdc90, 0x7d13aca, 0xeb0be9af, 0x61599491, 0x918512dc, 0x33b6686d, 0x795cc671, 0xc0049972, 0xa0a81bde] =
   [0x9b70f51f, 0x7ea8ac11, 0x21e54da9, 0xca393b2f, 0x93b08686, 0x6a4c50ae, 0x19212a5a, 0x9b032958, 0xd839165e, 0x4c06e28a, 0xd3fde99e, 0x26acc13d, 0xa609f555, 0x2c246549, 0x95151853, 0x2c847a0d]"
  by (simp add: block_eval)

lemma rfc8439_round_8:
  "inner_block [0x9b70f51f, 0x7ea8ac11, 0x21e54da9, 0xca393b2f, 0x93b08686, 0x6a4c50ae, 0x19212a5a, 0x9b032958, 0xd839165e, 0x4c06e28a, 0xd3fde99e, 0x26acc13d, 0xa609f555, 0x2c246549, 0x95151853, 0x2c847a0d] =
   [0xca5c85dd, 0x93a4f90e, 0xd9f0df58, 0x26dd82dd, 0x982563f8, 0x712aa9ff, 0x279a61e8, 0x970f72bd, 0x1c25931a, 0x5180bb10, 0x779c27e7, 0x54077e08, 0xa9b751fb, 0x382f3ce2, 0x8db1757d, 0xcc38080b]"
  by (simp add: block_eval)

lemma rfc8439_round_9:
  "inner_block [0xca5c85dd, 0x93a4f90e, 0xd9f0df58, 0x26dd82dd, 0x982563f8, 0x712aa9ff, 0x279a61e8, 0x970f72bd, 0x1c25931a, 0x5180bb10, 0x779c27e7, 0x54077e08, 0xa9b751fb, 0x382f3ce2, 0x8db1757d, 0xcc38080b] =
   [0xb6b87de6, 0x9a016148, 0x93859815, 0x4915e6cc, 0xdc33c122, 0x98e18fa3, 0x5ffbe8fc, 0xf7154b8b, 0x28c1fcb3, 0xc4b38f9d, 0x83e2f5d7, 0x7d24b98b, 0x21078b22, 0xb193e7a3, 0xb2f49389, 0x6cde6026]"
  by (simp add: block_eval)

lemma rfc8439_round_10:
  "inner_block [0xb6b87de6, 0x9a016148, 0x93859815, 0x4915e6cc, 0xdc33c122, 0x98e18fa3, 0x5ffbe8fc, 0xf7154b8b, 0x28c1fcb3, 0xc4b38f9d, 0x83e2f5d7, 0x7d24b98b, 0x21078b22, 0xb193e7a3, 0xb2f49389, 0x6cde6026] =
   [0x837778ab, 0xe238d763, 0xa67ae21e, 0x5950bb2f, 0xc4f2d0c7, 0xfc62bb2f, 0x8fa018fc, 0x3f5ec7b7, 0x335271c2, 0xf29489f3, 0xeabda8fc, 0x82e46ebd, 0xd19c12b4, 0xb04e16de, 0x9e83d0cb, 0x4e3c50a2]"
  by (simp add: block_eval)

text \<open>The test vector of RFC 8439, section 2.3.2.\<close>

lemma cha_cha20_block_rfc8439:
  "cha_cha20_block [0x03020100, 0x07060504, 0x0b0a0908, 0x0f0e0d0c, 0x13121110, 0x17161514, 0x1b1a1918, 0x1f1e1d1c] 1
     [0x09000000, 0x4a000000, 0] =
   [0xe4e7f110, 0x15593bd1, 0x1fdd0f50, 0xc47120a3, 0xc7f4d1c7, 0x0368c033, 0x9aaa2204, 0x4e6cd4c3,
    0x466482d2, 0x09aa9f07, 0x05d7c214, 0xa2028bd9, 0xd19c12b5, 0xb94e16de, 0xe883d0cb, 0x4e3c50a2]"
proof -
  have ten: "(f ^^ 10) x = f (f (f (f (f (f (f (f (f (f x)))))))))" for f :: "u32 list \<Rightarrow> u32 list" and x
    by (simp add: eval_nat_numeral)
  show ?thesis
    unfolding cha_cha20_block_def Let_def ten
    by (simp add: state_init_def rfc8439_round_1 rfc8439_round_2 rfc8439_round_3 rfc8439_round_4 rfc8439_round_5
        rfc8439_round_6 rfc8439_round_7 rfc8439_round_8 rfc8439_round_9 rfc8439_round_10)
qed

subsection \<open>The rounds are injective\<close>

lemma bit_rotate_left:
  "k < 32 \<Longrightarrow> n < 32 \<Longrightarrow> bit (rotate_left v k) n \<longleftrightarrow> (if k \<le> n then bit v (n - k) else bit v (32 + n - k))"
  by (auto simp: rotate_left_def bit_simps dest: bit_imp_le_length)

lemma rotate_left_inject:
  assumes "k < 32" shows "rotate_left v k = rotate_left w k \<longleftrightarrow> v = w"
proof
  assume eq: "rotate_left v k = rotate_left w k"
  show "v = w"
  proof (rule bit_word_eqI)
    fix n assume "n < LENGTH(32)"
    then have n: "n < 32" by simp
    have "bit u n = bit (rotate_left u k) (if n + k < 32 then n + k else n + k - 32)" for u
      using n assms by (auto simp: bit_rotate_left)
    then show "bit v n = bit w n" using eq by metis
  qed
qed simp

lemma xor_cancel: "(a :: u32) XOR s = b XOR s \<longleftrightarrow> a = b"
proof
  assume "a XOR s = b XOR s"
  then have "(a XOR s) XOR s = (b XOR s) XOR s" by (rule arg_cong)
  then show "a = b" by (simp add: xor.assoc)
qed simp

lemma mix_ad_inject: "k < 32 \<Longrightarrow> mix_ad k x = mix_ad k y \<longleftrightarrow> x = y"
  by (cases x; cases y) (auto simp: rotate_left_inject xor_cancel)

lemma mix_cb_inject: "k < 32 \<Longrightarrow> mix_cb k x = mix_cb k y \<longleftrightarrow> x = y"
  by (cases x; cases y) (auto simp: rotate_left_inject xor_cancel)

lemma chacha20_quarter_round_inject: "chacha20_quarter_round x = chacha20_quarter_round y \<longleftrightarrow> x = y"
  by (simp add: quarter_round_mixes mix_ad_inject mix_cb_inject)

lemma length_quarter_round [simp]: "length (quarter_round x y z w s) = length s"
  by (simp add: quarter_round_def split: prod.split)

lemma quarter_round_inject:
  assumes "length s = 16" "length t = 16" "distinct [x, y, z, w]" "x < 16" "y < 16" "z < 16" "w < 16"
  shows "quarter_round x y z w s = quarter_round x y z w t \<longleftrightarrow> s = t"
proof
  assume eq: "quarter_round x y z w s = quarter_round x y z w t"
  obtain a b c d where p: "chacha20_quarter_round (s ! x, s ! y, s ! z, s ! w) = (a, b, c, d)" by (metis prod_cases4)
  obtain a' b' c' d' where q: "chacha20_quarter_round (t ! x, t ! y, t ! z, t ! w) = (a', b', c', d')" by (metis prod_cases4)
  have upd: "s[x := a, y := b, z := c, w := d] = t[x := a', y := b', z := c', w := d']" (is "?l = ?r")
    using eq p q by (simp add: quarter_round_def)
  have "?l ! x = ?r ! x" "?l ! y = ?r ! y" "?l ! z = ?r ! z" "?l ! w = ?r ! w" using upd by auto
  then have "(a, b, c, d) = (a', b', c', d')" using assms by simp
  then have "(s ! x, s ! y, s ! z, s ! w) = (t ! x, t ! y, t ! z, t ! w)"
    using chacha20_quarter_round_inject p q by metis
  moreover have "s ! i = t ! i" if "i \<notin> {x, y, z, w}" for i
    using arg_cong [OF upd, of "\<lambda>l. l ! i"] that by simp
  ultimately show "s = t" using assms(1,2) by (intro nth_equalityI) (auto, metis insert_iff empty_iff)
qed simp

lemma inner_block_inject:
  "length s = 16 \<Longrightarrow> length t = 16 \<Longrightarrow> inner_block s = inner_block t \<longleftrightarrow> s = t"
  by (simp add: inner_block_nested quarter_round_inject)

lemma length_inner_block [simp]: "length (inner_block s) = length s"
  by (simp add: inner_block_nested)

lemma length_rounds [simp]: "length ((inner_block ^^ n) s) = length s"
  by (induction n) simp_all

lemma rounds_inject:
  "length s = 16 \<Longrightarrow> length t = 16 \<Longrightarrow> (inner_block ^^ n) s = (inner_block ^^ n) t \<longleftrightarrow> s = t"
  by (induction n) (simp_all add: inner_block_inject)


subsection \<open>The nonce counts\<close>











subsection \<open>Properties\<close>



text \<open>
  The ten double rounds of ChaCha20 lose nothing: two inputs of the block function have the same
  state before the final addition exactly if key, counter and nonce agree.\<close>

theorem cha_cha20_rounds_injective:
  assumes "length key = 8" "length key' = 8" "length nonce = 3" "length nonce' = 3"
  shows "(inner_block ^^ 10) (state_init key c nonce) = (inner_block ^^ 10) (state_init key' c' nonce')
    \<longleftrightarrow> key = key' \<and> c = c' \<and> nonce = nonce'"
proof -
  have key: "key = key' \<longleftrightarrow> (\<forall>i < 8. key ! i = key' ! i)" using assms(1,2) by (auto intro: nth_equalityI)
  have nonce: "nonce = nonce' \<longleftrightarrow> (\<forall>i < 3. nonce ! i = nonce' ! i)" using assms(3,4) by (auto intro: nth_equalityI)
  have three: "(\<forall>i < (3::nat). P i) \<longleftrightarrow> P 0 \<and> P 1 \<and> P 2" for P
    by (simp add: numeral_eq_Suc All_less_Suc) blast
  have "state_init key c nonce = state_init key' c' nonce' \<longleftrightarrow> key = key' \<and> c = c' \<and> nonce = nonce'"
    unfolding state_init_def key nonce all_less_8 three by auto
  then show ?thesis by (subst rounds_inject) (simp_all add: state_init_def)
qed

theorem cha_cha20_rounds_injective_witness:
  "(inner_block ^^ 10) (state_init (replicate 8 1) 0 (replicate 3 2))
     \<noteq> (inner_block ^^ 10) (state_init (replicate 8 1) 1 (replicate 3 2))"
  by (subst cha_cha20_rounds_injective) simp_all

end
