(* ===== verification/Rwlock.thy ===== *)
theory Rwlock
  imports Hz_Prelude
begin

text \<open>
  The read-write lock of \<^verbatim>\<open>src/posix/pthread.cpp\<close>: a futex mutex (\<open>state\<close>) that a reader holds while
  it registers and a writer holds until it unlocks, and the number of readers (\<open>writer_notify\<close>).

  As for the mutex, threads run interleaved, one access to shared memory per step; the flag \<open>b\<close>
  of a step resolves whether a weak exchange succeeds and whether a futex wait sleeps.  The results
  of the futex calls are ignored by the code.  \<open>RwStuck\<close> is a failed \<open>__ensure\<close>.  There are \<open>N\<close>
  threads, which lock only when they hold nothing and unlock only what they hold.

  The field \<open>holds\<close> is a history variable: a reader holds the lock from the increment to the
  decrement of the count, a writer from the return of \<open>pthread_rwlock_wrlock\<close> until the mutex word
  is cleared.  The \<open>try\<close> and \<open>timed\<close> variants of the lock only panic.
\<close>

subsection \<open>State\<close>

definition MUTEX_OWNER_MASK :: u32 where "MUTEX_OWNER_MASK = 0x3FFFFFFF"
definition MUTEX_WAITERS_BIT :: u32 where "MUTEX_WAITERS_BIT = 0x80000000"
definition MUTEX_EXCLUSIVE_BIT :: u32 where "MUTEX_EXCLUSIVE_BIT = 0x40000000"
definition RC_COUNT_MASK :: u32 where "RC_COUNT_MASK = 0x3FFFFFFF"
definition RC_WAITERS_BIT :: u32 where "RC_WAITERS_BIT = 0x80000000"

datatype rw_pc =
    RwIdle
  | LockLoad bool
  | LockLoop bool u32
  | LockFutex bool u32
  | LockAsleep bool
  | ReadAdd
  | MutexClear
  | MutexWake
  | WriteLoad
  | WriteLoop u32
  | WriteFutex u32
  | WriteAsleep
  | UnlockCount
  | UnlockLoop u32
  | UnlockNotify
  | RwStuck

datatype hold = Nothing | Reader | Writer

record RwLock =
  rw_state :: u32
  writer_notify :: u32

record rw_machine = RwLock +
  rw_pcs :: "nat \<Rightarrow> rw_pc"
  holds :: "nat \<Rightarrow> hold"

definition rw_goto :: "nat \<Rightarrow> rw_pc \<Rightarrow> rw_machine \<Rightarrow> rw_machine" where
  "rw_goto t p M = M\<lparr>rw_pcs := (rw_pcs M)(t := p)\<rparr>"

subsection \<open>The mutex part\<close>

definition rwlock_mutex_lock :: "bool \<Rightarrow> nat \<Rightarrow> rw_machine \<Rightarrow> rw_machine" where
  "rwlock_mutex_lock b t M =
     (case rw_pcs M t of
        LockLoad ex \<Rightarrow> rw_goto t (LockLoop ex (rw_state M)) M
      | LockLoop ex expected \<Rightarrow>
          (if expected \<noteq> 0 then
             (if expected AND MUTEX_OWNER_MASK = 0 then rw_goto t RwStuck M
              else if expected AND MUTEX_WAITERS_BIT = 0 then
                (if rw_state M = expected \<and> b
                 then rw_goto t (LockFutex ex expected) (M\<lparr>rw_state := expected OR MUTEX_WAITERS_BIT\<rparr>)
                 else rw_goto t (LockLoop ex (rw_state M)) M)
              else rw_goto t (LockFutex ex expected) M)
           else
             (let desired = (if ex then 1 OR MUTEX_EXCLUSIVE_BIT else 1) in
              if rw_state M = 0 \<and> b
              then rw_goto t (if ex then WriteLoad else ReadAdd) (M\<lparr>rw_state := desired\<rparr>)
              else rw_goto t (LockLoop ex (rw_state M)) M))
      | LockFutex ex expected \<Rightarrow>
          (if rw_state M = expected OR MUTEX_WAITERS_BIT \<and> b then rw_goto t (LockAsleep ex) M
           else rw_goto t (LockLoop ex 0) M)
      | LockAsleep ex \<Rightarrow> (if b then rw_goto t (LockLoop ex 0) M else M)
      | _ \<Rightarrow> M)"

definition mutex_wake_all :: "rw_machine \<Rightarrow> rw_machine" where
  "mutex_wake_all M = M\<lparr>rw_pcs := (\<lambda>t. case rw_pcs M t of LockAsleep ex \<Rightarrow> LockLoop ex 0 | p \<Rightarrow> p)\<rparr>"

definition rwlock_mutex_unlock :: "nat \<Rightarrow> rw_machine \<Rightarrow> rw_machine" where
  "rwlock_mutex_unlock t M =
     (case rw_pcs M t of
        MutexClear \<Rightarrow>
          (let M' = M\<lparr>rw_state := 0, holds := (holds M)(t := if holds M t = Writer then Nothing else holds M t)\<rparr> in
           if rw_state M AND MUTEX_WAITERS_BIT \<noteq> 0 then rw_goto t MutexWake M' else rw_goto t RwIdle M')
      | MutexWake \<Rightarrow> rw_goto t RwIdle (mutex_wake_all M)
      | _ \<Rightarrow> M)"

subsection \<open>The exported operations\<close>

text \<open>\<open>pthread_rwlock_rdlock\<close> between its calls of the mutex functions.\<close>

definition pthread_rwlock_rdlock :: "nat \<Rightarrow> rw_machine \<Rightarrow> rw_machine" where
  "pthread_rwlock_rdlock t M =
     (case rw_pcs M t of
        ReadAdd \<Rightarrow> rw_goto t MutexClear
          (M\<lparr>writer_notify := writer_notify M + 1, holds := (holds M)(t := Reader)\<rparr>)
      | _ \<Rightarrow> M)"

definition pthread_rwlock_wrlock :: "bool \<Rightarrow> nat \<Rightarrow> rw_machine \<Rightarrow> rw_machine" where
  "pthread_rwlock_wrlock b t M =
     (case rw_pcs M t of
        WriteLoad \<Rightarrow> rw_goto t (WriteLoop (writer_notify M)) M
      | WriteLoop rc_expected \<Rightarrow>
          (if rc_expected = 0 then rw_goto t RwIdle (M\<lparr>holds := (holds M)(t := Writer)\<rparr>)
           else if rc_expected AND RC_COUNT_MASK = 0 then rw_goto t RwStuck M
           else if rc_expected AND RC_WAITERS_BIT = 0 then
             (if writer_notify M = rc_expected \<and> b
              then rw_goto t (WriteFutex rc_expected) (M\<lparr>writer_notify := rc_expected OR RC_COUNT_MASK\<rparr>)
              else rw_goto t (WriteLoop (writer_notify M)) M)
           else rw_goto t (WriteFutex rc_expected) M)
      | WriteFutex rc_expected \<Rightarrow>
          (if writer_notify M = rc_expected OR RC_WAITERS_BIT \<and> b then rw_goto t WriteAsleep M
           else rw_goto t WriteLoad M)
      | WriteAsleep \<Rightarrow> (if b then rw_goto t WriteLoad M else M)
      | _ \<Rightarrow> M)"

definition writer_wake_all :: "rw_machine \<Rightarrow> rw_machine" where
  "writer_wake_all M = M\<lparr>rw_pcs := (\<lambda>t. if rw_pcs M t = WriteAsleep then WriteLoad else rw_pcs M t)\<rparr>"

definition pthread_rwlock_unlock :: "bool \<Rightarrow> nat \<Rightarrow> rw_machine \<Rightarrow> rw_machine" where
  "pthread_rwlock_unlock b t M =
     (case rw_pcs M t of
        UnlockCount \<Rightarrow>
          (if writer_notify M = 0 then rw_goto t MutexClear M
           else rw_goto t (UnlockLoop (writer_notify M)) M)
      | UnlockLoop rc_expected \<Rightarrow>
          (let n = rc_expected AND RC_COUNT_MASK in
           if n = 0 then rw_goto t RwStuck M
           else if n = 1 \<and> rc_expected AND RC_WAITERS_BIT \<noteq> 0 then
             (if writer_notify M = rc_expected \<and> b
              then rw_goto t UnlockNotify (M\<lparr>writer_notify := 0, holds := (holds M)(t := Nothing)\<rparr>)
              else rw_goto t (UnlockLoop (writer_notify M)) M)
           else
             (if writer_notify M = rc_expected \<and> b
              then rw_goto t RwIdle (M\<lparr>writer_notify := (rc_expected AND NOT RC_COUNT_MASK) OR (n - 1),
                                      holds := (holds M)(t := Nothing)\<rparr>)
              else rw_goto t (UnlockLoop (writer_notify M)) M))
      | UnlockNotify \<Rightarrow> rw_goto t RwIdle (writer_wake_all M)
      | _ \<Rightarrow> M)"

subsection \<open>Interleaving\<close>

inductive rw_step :: "nat \<Rightarrow> rw_machine \<Rightarrow> rw_machine \<Rightarrow> bool" for N where
  call_rdlock: "t < N \<Longrightarrow> rw_pcs M t = RwIdle \<Longrightarrow> holds M t = Nothing \<Longrightarrow> rw_step N M (rw_goto t (LockLoad False) M)"
| call_wrlock: "t < N \<Longrightarrow> rw_pcs M t = RwIdle \<Longrightarrow> holds M t = Nothing \<Longrightarrow> rw_step N M (rw_goto t (LockLoad True) M)"
| call_unlock: "t < N \<Longrightarrow> rw_pcs M t = RwIdle \<Longrightarrow> holds M t \<noteq> Nothing \<Longrightarrow> rw_step N M (rw_goto t UnlockCount M)"
| run_mutex_lock: "t < N \<Longrightarrow> rw_step N M (rwlock_mutex_lock b t M)"
| run_mutex_unlock: "t < N \<Longrightarrow> rw_step N M (rwlock_mutex_unlock t M)"
| run_rdlock: "t < N \<Longrightarrow> rw_step N M (pthread_rwlock_rdlock t M)"
| run_wrlock: "t < N \<Longrightarrow> rw_step N M (pthread_rwlock_wrlock b t M)"
| run_unlock: "t < N \<Longrightarrow> rw_step N M (pthread_rwlock_unlock b t M)"

definition pthread_rwlock_init :: RwLock where
  "pthread_rwlock_init = \<lparr>rw_state = 0, writer_notify = 0\<rparr>"

definition rw_start :: "rw_machine \<Rightarrow> bool" where
  "rw_start M \<longleftrightarrow> RwLock.truncate M = pthread_rwlock_init \<and> (\<forall>t. rw_pcs M t = RwIdle \<and> holds M t = Nothing)"


subsection \<open>The invariant\<close>

text \<open>Who owns the mutex word, and which writers wait for readers they have met.\<close>

definition in_mutex :: "rw_pc \<Rightarrow> hold \<Rightarrow> bool" where
  "in_mutex p h \<longleftrightarrow> h = Writer \<or>
     (case p of ReadAdd \<Rightarrow> True | MutexClear \<Rightarrow> True | WriteLoad \<Rightarrow> True | WriteLoop _ \<Rightarrow> True
      | WriteFutex _ \<Rightarrow> True | WriteAsleep \<Rightarrow> True | _ \<Rightarrow> False)"

definition writer_waits :: "rw_pc \<Rightarrow> bool" where
  "writer_waits p \<longleftrightarrow>
     (case p of WriteLoad \<Rightarrow> True | WriteLoop rc \<Rightarrow> rc \<noteq> 0 | WriteFutex _ \<Rightarrow> True | WriteAsleep \<Rightarrow> True | _ \<Rightarrow> False)"

definition rw_thread :: "u32 \<Rightarrow> rw_pc \<Rightarrow> hold \<Rightarrow> bool" where
  "rw_thread wn p h \<longleftrightarrow>
     (h = Writer \<longrightarrow> wn = 0) \<and>
     (case p of
        RwIdle \<Rightarrow> True
      | MutexClear \<Rightarrow> h \<noteq> Nothing
      | MutexWake \<Rightarrow> h \<noteq> Writer
      | WriteLoop rc \<Rightarrow> h = Nothing \<and> rc \<le> RC_COUNT_MASK \<and> (rc = 0 \<longrightarrow> wn = 0)
      | UnlockCount \<Rightarrow> h \<noteq> Nothing
      | UnlockLoop rc \<Rightarrow> h = Reader \<and> rc \<le> RC_COUNT_MASK
      | UnlockNotify \<Rightarrow> False
      | RwStuck \<Rightarrow> h \<noteq> Writer
      | _ \<Rightarrow> h = Nothing)"

definition readers :: "rw_machine \<Rightarrow> nat set" where
  "readers M = {t. holds M t = Reader}"

definition marked :: "nat \<Rightarrow> u32 \<Rightarrow> nat set \<Rightarrow> bool" where
  "marked N wn R \<longleftrightarrow> unat wn < 2 ^ 30 \<and> card R + 2 ^ 30 \<le> Suc (unat wn + N)"

definition count_ok :: "nat \<Rightarrow> u32 \<Rightarrow> nat set \<Rightarrow> (nat \<Rightarrow> rw_pc) \<Rightarrow> bool" where
  "count_ok N wn R f \<longleftrightarrow> unat wn = card R \<or> (\<exists>w. writer_waits (f w) \<and> marked N wn R)"

definition rw_inv :: "nat \<Rightarrow> rw_machine \<Rightarrow> bool" where
  "rw_inv N M \<longleftrightarrow>
     (\<forall>t. N \<le> t \<longrightarrow> rw_pcs M t = RwIdle \<and> holds M t = Nothing) \<and>
     (\<forall>t. rw_thread (writer_notify M) (rw_pcs M t) (holds M t)) \<and>
     (\<forall>t. in_mutex (rw_pcs M t) (holds M t) \<longrightarrow> rw_state M \<noteq> 0) \<and>
     (\<forall>t u. in_mutex (rw_pcs M t) (holds M t) \<longrightarrow> in_mutex (rw_pcs M u) (holds M u) \<longrightarrow> t = u) \<and>
     count_ok N (writer_notify M) (readers M) (rw_pcs M)"

lemma small_count:
  assumes "(w :: u32) \<le> RC_COUNT_MASK"
  shows "w AND RC_COUNT_MASK = w" "w AND RC_WAITERS_BIT = 0" "w AND NOT RC_COUNT_MASK = 0" "w OR RC_COUNT_MASK = RC_COUNT_MASK"
proof -
  have m: "RC_COUNT_MASK = mask 30" by (simp add: RC_COUNT_MASK_def mask_eq_exp_minus_1)
  have w: "RC_WAITERS_BIT = push_bit 31 1" by (simp add: RC_WAITERS_BIT_def)
  have p: "bit RC_WAITERS_BIT n \<longleftrightarrow> n = 31" for n
    unfolding w bit_push_bit_iff by (auto simp: bit_1_iff)
  have "uint w < 2 ^ 30" using assms by (simp add: RC_COUNT_MASK_def word_le_def)
  note hi = high_bits_zero [OF this]
  show "w AND RC_COUNT_MASK = w" "w AND NOT RC_COUNT_MASK = 0" "w OR RC_COUNT_MASK = RC_COUNT_MASK"
    by (rule bit_word_eqI; use hi in \<open>auto simp: m bit_simps intro: leI ccontr\<close>)+
  show "w AND RC_WAITERS_BIT = 0" by (rule bit_word_eqI) (use hi in \<open>auto simp: p bit_simps\<close>)
qed

lemma le_mask_iff: "w \<le> RC_COUNT_MASK \<longleftrightarrow> unat w < 2 ^ 30"
  by (simp add: RC_COUNT_MASK_def word_le_nat_alt) linarith

lemma rw_invD:
  assumes "rw_inv N M"
  shows "rw_thread (writer_notify M) (rw_pcs M t) (holds M t)"
    "in_mutex (rw_pcs M t) (holds M t) \<Longrightarrow> rw_state M \<noteq> 0"
    "in_mutex (rw_pcs M t) (holds M t) \<Longrightarrow> in_mutex (rw_pcs M u) (holds M u) \<Longrightarrow> t = u"
    "count_ok N (writer_notify M) (readers M) (rw_pcs M)"
    "N \<le> t \<Longrightarrow> rw_pcs M t = RwIdle \<and> holds M t = Nothing"
  using assms unfolding rw_inv_def by blast+

lemma readers_bound:
  assumes "rw_inv N M"
  shows "finite (readers M)" "card (readers M) \<le> N"
proof -
  have sub: "readers M \<subseteq> {..<N}" using rw_invD(5) [OF assms] by (force simp: readers_def not_le [symmetric])
  then show "finite (readers M)" by (rule finite_subset) simp
  show "card (readers M) \<le> N" using card_mono [OF _ sub] by simp
qed

lemma count_facts:
  assumes "rw_inv N M" "N < 2 ^ 29"
  shows "unat (writer_notify M) < 2 ^ 30" "card (readers M) \<le> unat (writer_notify M)"
    "writer_notify M \<le> RC_COUNT_MASK"
  using rw_invD(4) [OF assms(1)] readers_bound [OF assms(1)] assms(2)
  by (auto simp: count_ok_def marked_def le_mask_iff)

lemma rw_inv_goto:
  assumes inv: "rw_inv N M" and t: "t < N" and same: "rw_pcs M' = rw_pcs M" "holds M' = (holds M)(t := h)"
    and th: "rw_thread (writer_notify M') p h"
    and wn: "writer_notify M' = writer_notify M \<or> in_mutex (rw_pcs M t) (holds M t) \<or> writer_notify M \<noteq> 0"
    and enter: "in_mutex p h \<Longrightarrow> rw_state M' \<noteq> 0 \<and> (in_mutex (rw_pcs M t) (holds M t) \<or> rw_state M = 0)"
    and leave: "rw_state M' = 0 \<Longrightarrow> rw_state M = 0 \<or> in_mutex (rw_pcs M t) (holds M t)"
    and count: "count_ok N (writer_notify M') (readers M') ((rw_pcs M)(t := p))"
  shows "rw_inv N (rw_goto t p M')"
proof -
  have other: "rw_thread (writer_notify M') (rw_pcs M u) (holds M u)" if "u \<noteq> t" for u
  proof -
    have "\<not> in_mutex (rw_pcs M u) (holds M u)" if "in_mutex (rw_pcs M t) (holds M t)"
      using rw_invD(3) [OF inv that] \<open>u \<noteq> t\<close> by blast
    then show ?thesis using rw_invD(1) [OF inv, of u] wn
      by (auto simp: rw_thread_def in_mutex_def split: rw_pc.splits)
  qed
  have "readers (rw_goto t p M') = readers M'" by (simp add: readers_def rw_goto_def)
  moreover have "in_mutex (rw_pcs M u) (holds M u) \<Longrightarrow> u \<noteq> t \<Longrightarrow> rw_state M' \<noteq> 0 \<and> \<not> in_mutex p h" for u
    using rw_invD(2) [OF inv, of u] rw_invD(3) [OF inv, of u t] leave enter by blast
  ultimately show ?thesis
    using other th enter count t rw_invD(5) [OF inv] rw_invD(3) [OF inv]
    unfolding rw_inv_def by (auto simp: rw_goto_def same)
qed

text \<open>A step that keeps the count and the readers.\<close>

lemma rw_inv_keep:
  assumes inv: "rw_inv N M" and t: "t < N" and same: "rw_pcs M' = rw_pcs M" "holds M' = (holds M)(t := h)"
    and wn: "writer_notify M' = writer_notify M" and rd: "h = Reader \<longleftrightarrow> holds M t = Reader"
    and th: "rw_thread (writer_notify M) p h"
    and enter: "in_mutex p h \<Longrightarrow> rw_state M' \<noteq> 0 \<and> (in_mutex (rw_pcs M t) (holds M t) \<or> rw_state M = 0)"
    and leave: "rw_state M' = 0 \<Longrightarrow> rw_state M = 0 \<or> in_mutex (rw_pcs M t) (holds M t)"
    and waits: "writer_waits (rw_pcs M t) \<Longrightarrow> unat (writer_notify M) \<noteq> card (readers M) \<Longrightarrow> writer_waits p"
  shows "rw_inv N (rw_goto t p M')"
proof (rule rw_inv_goto [OF inv t same])
  have R: "readers M' = readers M" using same rd by (auto simp: readers_def)
  have "\<exists>w. writer_waits (((rw_pcs M)(t := p)) w)"
    if "writer_waits (rw_pcs M w)" "unat (writer_notify M) \<noteq> card (readers M)" for w
    by (cases "w = t") (use that waits in \<open>auto intro: exI [of _ w]\<close>)
  then show "count_ok N (writer_notify M') (readers M') ((rw_pcs M)(t := p))"
    using rw_invD(4) [OF inv] unfolding count_ok_def wn R by blast
qed (use assms in auto)

lemmas rw_simps = in_mutex_def rw_thread_def writer_waits_def

lemma or_waiters_nonzero: "e OR MUTEX_WAITERS_BIT \<noteq> 0"
proof
  assume zero: "e OR MUTEX_WAITERS_BIT = 0"
  have w: "MUTEX_WAITERS_BIT = push_bit 31 1" by (simp add: MUTEX_WAITERS_BIT_def)
  have "bit (e OR MUTEX_WAITERS_BIT) 31" unfolding w bit_or_iff bit_push_bit_iff by (simp add: bit_1_iff)
  then show False unfolding zero by simp
qed

lemma rw_mutex_lock_inv:
  assumes inv: "rw_inv N M" and t: "t < N"
  shows "rw_inv N (rwlock_mutex_lock b t M)"
proof -
  have th: "rw_thread (writer_notify M) (rw_pcs M t) (holds M t)" using rw_invD(1) [OF inv] .
  define locking where "locking \<longleftrightarrow> holds M t = Nothing \<and> \<not> writer_waits (rw_pcs M t)"
  have keep: "rw_inv N (rw_goto t p (M\<lparr>rw_state := w\<rparr>))"
    if "locking" "rw_thread (writer_notify M) p Nothing" "w = 0 \<longrightarrow> rw_state M = 0"
      "in_mutex p Nothing \<longrightarrow> w \<noteq> 0 \<and> rw_state M = 0" for p w
    by (rule rw_inv_keep [OF inv t, where h = "holds M t"]) (use that in \<open>auto simp: locking_def\<close>)
  have same: "rw_inv N (rw_goto t p M)" if "locking" "rw_thread (writer_notify M) p Nothing" "\<not> in_mutex p Nothing" for p
    by (rule rw_inv_keep [OF inv t, where h = "holds M t"]) (use that in \<open>auto simp: locking_def\<close>)
  have stay: "rw_inv N (rw_goto t RwStuck M)" "rw_inv N (rw_goto t (LockLoop ex e) M)"
    "rw_inv N (rw_goto t (LockFutex ex e) M)" "rw_inv N (rw_goto t (LockAsleep ex) M)" if "locking" for ex e
    by (rule same [OF that]; simp add: rw_simps)+
  have mark: "rw_inv N (rw_goto t (LockFutex ex e) (M\<lparr>rw_state := e' OR MUTEX_WAITERS_BIT\<rparr>))" if "locking" for ex e e'
    by (rule keep) (use that or_waiters_nonzero in \<open>simp_all add: rw_simps\<close>)
  have acquire: "rw_inv N (rw_goto t (if ex then WriteLoad else ReadAdd) (M\<lparr>rw_state := w\<rparr>))"
    if "locking" "w \<noteq> 0" "rw_state M = 0" for ex w
    by (rule keep) (use that in \<open>simp_all add: rw_simps\<close>)
  have excl: "(if ex then 1 OR MUTEX_EXCLUSIVE_BIT else 1) \<noteq> 0" for ex by (simp add: MUTEX_EXCLUSIVE_BIT_def)
  show ?thesis
  proof (cases "rw_pcs M t")
    case (LockLoad ex)
    then have l: locking using th by (simp add: locking_def rw_simps)
    show ?thesis using LockLoad stay(2) [OF l] by (simp add: rwlock_mutex_lock_def)
  next
    case (LockLoop ex e)
    then have l: locking using th by (simp add: locking_def rw_simps)
    show ?thesis
      using LockLoop stay [OF l] mark [OF l] acquire [OF l, of "if ex then 1 OR MUTEX_EXCLUSIVE_BIT else 1" ex] excl [of ex]
      by (simp add: rwlock_mutex_lock_def Let_def)
  next
    case (LockFutex ex e)
    then have l: locking using th by (simp add: locking_def rw_simps)
    show ?thesis using LockFutex stay(2,4) [OF l] by (simp add: rwlock_mutex_lock_def)
  next
    case (LockAsleep ex)
    then have l: locking using th by (simp add: locking_def rw_simps)
    show ?thesis using LockAsleep stay(2) [OF l] inv by (simp add: rwlock_mutex_lock_def)
  qed (use inv in \<open>simp_all add: rwlock_mutex_lock_def\<close>)
qed

lemma mutex_wake_inv: "rw_inv N M \<Longrightarrow> rw_inv N (mutex_wake_all M)"
proof -
  assume inv: "rw_inv N M"
  let ?f = "\<lambda>t. case rw_pcs M t of LockAsleep ex \<Rightarrow> LockLoop ex 0 | p \<Rightarrow> p"
  have "in_mutex (?f t) (holds M t) = in_mutex (rw_pcs M t) (holds M t)"
    "rw_thread (writer_notify M) (?f t) (holds M t)" "writer_waits (?f t) = writer_waits (rw_pcs M t)"
    "N \<le> t \<Longrightarrow> ?f t = RwIdle" for t
    using rw_invD(1,5) [OF inv, of t] by (auto simp: rw_simps split: rw_pc.splits)
  then show ?thesis using inv by (simp add: rw_inv_def mutex_wake_all_def count_ok_def readers_def)
qed

lemma rw_mutex_unlock_inv:
  assumes inv: "rw_inv N M" and t: "t < N"
  shows "rw_inv N (rwlock_mutex_unlock t M)"
proof (cases "rw_pcs M t")
  case MutexClear
  have *: "rw_inv N (rw_goto t p (M\<lparr>rw_state := 0, holds := (holds M)(t := h)\<rparr>))"
    if "p = MutexWake \<or> p = RwIdle" "h = (if holds M t = Writer then Nothing else holds M t)" for p h
    by (rule rw_inv_keep [OF inv t, where h = h])
      (use that MutexClear rw_invD(1) [OF inv, of t] in \<open>auto simp: rw_simps split: if_splits\<close>)
  show ?thesis using MutexClear * [OF _ refl, of MutexWake] * [OF _ refl, of RwIdle]
    by (simp add: rwlock_mutex_unlock_def Let_def)
next
  case MutexWake
  let ?M = "mutex_wake_all M"
  have pc: "rw_pcs ?M t = MutexWake" "holds ?M = holds M" using MutexWake by (simp_all add: mutex_wake_all_def)
  have "rw_inv N (rw_goto t RwIdle ?M)"
    by (rule rw_inv_keep [OF mutex_wake_inv [OF inv] t, where h = "holds M t"])
      (use pc rw_invD(1) [OF mutex_wake_inv [OF inv], of t] in \<open>auto simp: rw_simps\<close>)
  then show ?thesis using MutexWake by (simp add: rwlock_mutex_unlock_def)
qed (use inv in \<open>simp_all add: rwlock_mutex_unlock_def\<close>)

lemma rw_rdlock_inv:
  assumes inv: "rw_inv N M" and t: "t < N" and N: "N < 2 ^ 29"
  shows "rw_inv N (pthread_rwlock_rdlock t M)"
proof (cases "rw_pcs M t = ReadAdd")
  case True
  have own: "in_mutex (rw_pcs M t) (holds M t)" using True by (simp add: rw_simps)
  have hold: "holds M t = Nothing" using rw_invD(1) [OF inv, of t] True by (simp add: rw_simps)
  have "\<not> writer_waits (rw_pcs M w)" for w
    using rw_invD(3) [OF inv own, of w] True by (auto simp: rw_simps split: rw_pc.splits)
  then have clean: "unat (writer_notify M) = card (readers M)" using rw_invD(4) [OF inv] by (simp add: count_ok_def)
  let ?M = "M\<lparr>writer_notify := writer_notify M + 1, holds := (holds M)(t := Reader)\<rparr>"
  have "readers ?M = insert t (readers M)" "t \<notin> readers M" using hold by (auto simp: readers_def)
  then have "unat (writer_notify ?M) = card (readers ?M)"
    using clean readers_bound [OF inv] N by (simp add: unat_word_ariths)
  then have "rw_inv N (rw_goto t MutexClear ?M)"
    using own hold rw_invD(2) [OF inv own]
    by (intro rw_inv_goto [OF inv t, where h = Reader]) (auto simp: rw_simps count_ok_def)
  then show ?thesis using True by (simp add: pthread_rwlock_rdlock_def)
qed (use inv in \<open>simp add: pthread_rwlock_rdlock_def split: rw_pc.split\<close>)

lemma writer_reloads_inv:
  assumes inv: "rw_inv N M" and t: "t < N" and N: "N < 2 ^ 29"
    and pc: "rw_pcs M t = WriteLoad \<or> (\<exists>rc. rw_pcs M t = WriteLoop rc)"
  shows "rw_inv N (rw_goto t (WriteLoop (writer_notify M)) M)"
proof (rule rw_inv_keep [OF inv t, where h = "holds M t"])
  show "writer_waits (WriteLoop (writer_notify M))" if "unat (writer_notify M) \<noteq> card (readers M)"
    using that count_facts(2) [OF inv N] by (auto simp: rw_simps)
  have "in_mutex (rw_pcs M t) (holds M t)" using pc by (auto simp: rw_simps)
  then show "rw_state M \<noteq> 0 \<and> (in_mutex (rw_pcs M t) (holds M t) \<or> rw_state M = 0)"
    using rw_invD(2) [OF inv] by blast
qed (use rw_invD(1) [OF inv, of t] count_facts(3) [OF inv N] pc in \<open>auto simp: rw_simps\<close>)

lemma writer_marks_inv:
  assumes inv: "rw_inv N M" and t: "t < N" and pc: "rw_pcs M t = WriteLoop rc" "rc \<noteq> 0"
  shows "rw_inv N (rw_goto t (WriteFutex rc) (M\<lparr>writer_notify := rc OR RC_COUNT_MASK\<rparr>))"
proof (rule rw_inv_goto [OF inv t, where h = "holds M t"])
  have own: "in_mutex (rw_pcs M t) (holds M t)" using pc by (simp add: rw_simps)
  then show "writer_notify (M\<lparr>writer_notify := rc OR RC_COUNT_MASK\<rparr>) = writer_notify M
      \<or> in_mutex (rw_pcs M t) (holds M t) \<or> writer_notify M \<noteq> 0" by simp
  show "rw_state (M\<lparr>writer_notify := rc OR RC_COUNT_MASK\<rparr>) \<noteq> 0 \<and> (in_mutex (rw_pcs M t) (holds M t) \<or> rw_state M = 0)"
    using own rw_invD(2) [OF inv own] by simp
  have "rc OR RC_COUNT_MASK = RC_COUNT_MASK"
    using rw_invD(1) [OF inv, of t] pc small_count by (simp add: rw_simps)
  then show "count_ok N (writer_notify (M\<lparr>writer_notify := rc OR RC_COUNT_MASK\<rparr>))
      (readers (M\<lparr>writer_notify := rc OR RC_COUNT_MASK\<rparr>)) ((rw_pcs M)(t := WriteFutex rc))"
    using readers_bound(2) [OF inv]
    by (auto simp: count_ok_def marked_def RC_COUNT_MASK_def readers_def rw_simps intro!: exI [of _ t])
qed (use rw_invD(1) [OF inv, of t] pc in \<open>auto simp: rw_simps\<close>)

lemma rw_wrlock_inv:
  assumes inv: "rw_inv N M" and t: "t < N" and N: "N < 2 ^ 29"
  shows "rw_inv N (pthread_rwlock_wrlock b t M)"
proof -
  have th: "rw_thread (writer_notify M) (rw_pcs M t) (holds M t)" using rw_invD(1) [OF inv] .
  have keep: "rw_inv N (rw_goto t p (M\<lparr>holds := (holds M)(t := h)\<rparr>))"
    if "in_mutex (rw_pcs M t) (holds M t)" "h \<noteq> Reader" "holds M t \<noteq> Reader" "rw_thread (writer_notify M) p h"
      "writer_waits (rw_pcs M t) \<longrightarrow> writer_waits p" for p h
    by (rule rw_inv_keep [OF inv t, where h = h]) (use that rw_invD(2) [OF inv, of t] in auto)
  have keep0: "rw_inv N (rw_goto t p M)"
    if "in_mutex (rw_pcs M t) (holds M t)" "holds M t = Nothing" "rw_thread (writer_notify M) p Nothing" "writer_waits p" for p
    by (rule rw_inv_keep [OF inv t, where h = "holds M t"]) (use that rw_invD(2) [OF inv, of t] in auto)
  show ?thesis
  proof (cases "rw_pcs M t")
    case WriteLoad
    then show ?thesis using writer_reloads_inv [OF inv t N] by (simp add: pthread_rwlock_wrlock_def)
  next
    case (WriteLoop rc)
    have rc: "rc \<le> RC_COUNT_MASK" using th WriteLoop by (simp add: rw_simps)
    have "rw_inv N (rw_goto t RwIdle (M\<lparr>holds := (holds M)(t := Writer)\<rparr>))" if "rc = 0"
      by (rule keep) (use that WriteLoop th in \<open>auto simp: rw_simps\<close>)
    then show ?thesis
      using WriteLoop writer_reloads_inv [OF inv t N] writer_marks_inv [OF inv t WriteLoop] small_count [OF rc]
      by (auto simp: pthread_rwlock_wrlock_def)
  next
    case (WriteFutex rc)
    then show ?thesis using th by (auto simp: pthread_rwlock_wrlock_def rw_simps intro!: keep0)
  next
    case WriteAsleep
    then show ?thesis using th inv by (auto simp: pthread_rwlock_wrlock_def rw_simps intro!: keep0)
  qed (use inv in \<open>simp_all add: pthread_rwlock_wrlock_def\<close>)
qed

lemma reader_leaves_count:
  assumes inv: "rw_inv N M" and "holds M t = Reader" "writer_notify M \<noteq> 0"
  shows "card (readers M) = Suc (card (readers M - {t}))"
    "unat (writer_notify M) = Suc (unat (writer_notify M - 1))"
proof -
  have "t \<in> readers M" using assms(2) by (simp add: readers_def)
  then show "card (readers M) = Suc (card (readers M - {t}))" using readers_bound(1) [OF inv] by (metis card.remove)
  show "unat (writer_notify M) = Suc (unat (writer_notify M - 1))"
    using assms(3) by (metis Suc_pred' unat_gt_0 unat_minus_one)
qed

lemma marked_leave:
  "marked N wn R \<Longrightarrow> card R = Suc (card R') \<Longrightarrow> unat wn = Suc (unat wn') \<Longrightarrow> marked N wn' R'"
  by (simp add: marked_def)

lemma reader_leaves_inv:
  assumes inv: "rw_inv N M" and t: "t < N" and N: "N < 2 ^ 29"
    and pc: "rw_pcs M t = UnlockLoop (writer_notify M)" "writer_notify M \<noteq> 0"
  shows "rw_inv N (rw_goto t RwIdle (M\<lparr>writer_notify := writer_notify M - 1, holds := (holds M)(t := Nothing)\<rparr>))"
    (is "rw_inv N (rw_goto t RwIdle ?M)")
proof (rule rw_inv_goto [OF inv t, where h = Nothing])
  have rd: "holds M t = Reader" using rw_invD(1) [OF inv, of t] pc by (simp add: rw_simps)
  have "readers ?M = readers M - {t}" by (auto simp: readers_def)
  then have card: "card (readers M) = Suc (card (readers ?M))"
    and u: "unat (writer_notify M) = Suc (unat (writer_notify ?M))" using reader_leaves_count [OF inv rd pc(2)] by simp_all
  show "count_ok N (writer_notify ?M) (readers ?M) ((rw_pcs M)(t := RwIdle))"
  proof (cases "unat (writer_notify M) = card (readers M)")
    case False
    then obtain w where "writer_waits (rw_pcs M w)" "marked N (writer_notify M) (readers M)"
      using rw_invD(4) [OF inv] by (auto simp: count_ok_def)
    moreover have "w \<noteq> t" using calculation(1) pc(1) by (auto simp: rw_simps)
    ultimately show ?thesis using marked_leave [OF _ card u] by (auto simp: count_ok_def intro!: exI [of _ w])
  qed (use card u in \<open>simp add: count_ok_def\<close>)
qed (use pc in \<open>auto simp: rw_simps\<close>)

lemma rw_unlock_inv:
  assumes inv: "rw_inv N M" and t: "t < N" and N: "N < 2 ^ 29"
  shows "rw_inv N (pthread_rwlock_unlock b t M)"
proof -
  have th: "rw_thread (writer_notify M) (rw_pcs M t) (holds M t)" using rw_invD(1) [OF inv] .
  have keep: "rw_inv N (rw_goto t p M)"
    if "rw_thread (writer_notify M) p (holds M t)" "in_mutex p (holds M t) \<longrightarrow> in_mutex (rw_pcs M t) (holds M t)"
      "\<not> writer_waits (rw_pcs M t)" for p
    by (rule rw_inv_keep [OF inv t, where h = "holds M t"]) (use that rw_invD(2) [OF inv, of t] in auto)
  show ?thesis
  proof (cases "rw_pcs M t")
    case UnlockCount
    have "holds M t = Writer" if "writer_notify M = 0"
      using that count_facts(2) [OF inv N] readers_bound(1) [OF inv] th UnlockCount
      by (cases "holds M t") (auto simp: rw_simps readers_def)
    then show ?thesis using UnlockCount th count_facts(3) [OF inv N]
      by (cases "holds M t") (auto simp: pthread_rwlock_unlock_def rw_simps intro!: keep)
  next
    case (UnlockLoop rc)
    have rc: "rc \<le> RC_COUNT_MASK" and rd: "holds M t = Reader" using th UnlockLoop by (simp_all add: rw_simps)
    have "rw_inv N (rw_goto t RwStuck M)" "rw_inv N (rw_goto t (UnlockLoop (writer_notify M)) M)"
      using UnlockLoop th rd count_facts(3) [OF inv N] by (auto simp: rw_simps intro!: keep)
    then show ?thesis
      using UnlockLoop small_count [OF rc] reader_leaves_inv [OF inv t N]
      by (auto simp: pthread_rwlock_unlock_def Let_def)
  next
    case UnlockNotify
    then show ?thesis using th by (simp add: rw_simps)
  qed (use inv in \<open>simp_all add: pthread_rwlock_unlock_def\<close>)
qed

lemma rw_call_inv:
  assumes "rw_inv N M" "t < N" "rw_pcs M t = RwIdle" "rw_thread (writer_notify M) p (holds M t)"
    "in_mutex p (holds M t) \<longrightarrow> holds M t = Writer"
  shows "rw_inv N (rw_goto t p M)"
  by (rule rw_inv_keep [OF assms(1,2), where h = "holds M t"])
    (use assms rw_invD(2) [OF assms(1), of t] in \<open>auto simp: rw_simps\<close>)

lemma rw_step_inv: "N < 2 ^ 29 \<Longrightarrow> rw_inv N M \<Longrightarrow> rw_step N M M' \<Longrightarrow> rw_inv N M'"
proof -
  assume N: "N < 2 ^ 29" and inv: "rw_inv N M" and st: "rw_step N M M'"
  note pc = rw_invD(1) [OF inv]
  from st show "rw_inv N M'"
  proof cases
    case (call_unlock t)
    then show ?thesis using pc [of t] by (auto simp: rw_simps intro!: rw_call_inv [OF inv])
  qed (auto simp: rw_simps intro!: rw_call_inv [OF inv] rw_mutex_lock_inv [OF inv] rw_mutex_unlock_inv [OF inv]
        rw_rdlock_inv [OF inv _ N] rw_wrlock_inv [OF inv _ N] rw_unlock_inv [OF inv _ N])
qed

lemma rw_start_inv: "rw_start M \<Longrightarrow> rw_inv N M"
  by (auto simp: rw_start_def rw_inv_def pthread_rwlock_init_def RwLock.defs rw_simps count_ok_def readers_def)

text \<open>A writer that has marked the count: no step lets it out.\<close>

definition writer_doomed :: "nat \<Rightarrow> nat \<Rightarrow> rw_machine \<Rightarrow> bool" where
  "writer_doomed t N M \<longleftrightarrow> rw_inv N M \<and> writer_waits (rw_pcs M t) \<and> marked N (writer_notify M) (readers M)"

lemma doomed_mutex: "writer_doomed t N M \<Longrightarrow> in_mutex (rw_pcs M t) (holds M t)"
  by (auto simp: writer_doomed_def rw_simps split: rw_pc.splits)

lemma doomed_alone: "writer_doomed t N M \<Longrightarrow> u \<noteq> t \<Longrightarrow> \<not> in_mutex (rw_pcs M u) (holds M u)"
  using doomed_mutex rw_invD(3) unfolding writer_doomed_def by blast

lemma marked_nonzero: "marked N wn R \<Longrightarrow> N < 2 ^ 29 \<Longrightarrow> wn \<noteq> 0"
  by (auto simp: marked_def)

lemma mutex_lock_frame:
  "writer_notify (rwlock_mutex_lock b u M) = writer_notify M \<and> readers (rwlock_mutex_lock b u M) = readers M \<and>
   (writer_waits (rw_pcs M t) \<longrightarrow> writer_waits (rw_pcs (rwlock_mutex_lock b u M) t))"
  by (cases "rw_pcs M u"; cases "t = u") (simp_all add: rwlock_mutex_lock_def rw_goto_def Let_def readers_def writer_waits_def)

lemma mutex_unlock_frame:
  "writer_notify (rwlock_mutex_unlock u M) = writer_notify M \<and> readers (rwlock_mutex_unlock u M) = readers M \<and>
   (writer_waits (rw_pcs M t) \<longrightarrow> writer_waits (rw_pcs (rwlock_mutex_unlock u M) t))"
  by (cases "rw_pcs M u"; cases "t = u"; cases "rw_pcs M t")
    (auto simp: rwlock_mutex_unlock_def rw_goto_def mutex_wake_all_def Let_def readers_def writer_waits_def)

lemma doomed_rdlock: "writer_doomed t N M \<Longrightarrow> pthread_rwlock_rdlock u M = M"
  using doomed_alone [of t N M u]
  by (cases "u = t") (auto simp: pthread_rwlock_rdlock_def writer_doomed_def rw_simps split: rw_pc.splits)

lemma doomed_wrlock:
  assumes d: "writer_doomed t N M" and N: "N < 2 ^ 29"
  shows "writer_waits (rw_pcs (pthread_rwlock_wrlock b u M) t) \<and>
    marked N (writer_notify (pthread_rwlock_wrlock b u M)) (readers (pthread_rwlock_wrlock b u M))"
proof (cases "u = t")
  case False
  then have "pthread_rwlock_wrlock b u M = M"
    using doomed_alone [OF d False] by (auto simp: pthread_rwlock_wrlock_def in_mutex_def split: rw_pc.splits)
  then show ?thesis using d by (simp add: writer_doomed_def)
next
  case True
  have inv: "rw_inv N M" and w: "writer_waits (rw_pcs M t)" and m: "marked N (writer_notify M) (readers M)"
    using d by (auto simp: writer_doomed_def)
  have "rc \<le> RC_COUNT_MASK" if "rw_pcs M t = WriteLoop rc" for rc
    using rw_invD(1) [OF inv, of t] that by (simp add: rw_simps)
  moreover have "marked N RC_COUNT_MASK (readers M)"
    using readers_bound(2) [OF inv] by (simp add: marked_def RC_COUNT_MASK_def)
  ultimately show ?thesis using True w m marked_nonzero [OF m N] small_count
    by (auto simp: pthread_rwlock_wrlock_def rw_goto_def readers_def writer_waits_def split: rw_pc.splits)
qed

lemma doomed_unlock:
  assumes d: "writer_doomed t N M" and u: "u < N" and N: "N < 2 ^ 29"
  shows "writer_waits (rw_pcs (pthread_rwlock_unlock b u M) t) \<and>
    marked N (writer_notify (pthread_rwlock_unlock b u M)) (readers (pthread_rwlock_unlock b u M))"
proof (cases "u = t")
  case True
  then have "pthread_rwlock_unlock b u M = M"
    using d by (auto simp: writer_doomed_def pthread_rwlock_unlock_def writer_waits_def split: rw_pc.splits)
  then show ?thesis using d by (simp add: writer_doomed_def)
next
  case False
  have inv: "rw_inv N M" and w: "writer_waits (rw_pcs M t)" and m: "marked N (writer_notify M) (readers M)"
    using d by (auto simp: writer_doomed_def)
  have th: "rw_thread (writer_notify M) (rw_pcs M u) (holds M u)" using rw_invD(1) [OF inv] .
  show ?thesis
  proof (cases "rw_pcs M u")
    case (UnlockLoop rc)
    have rc: "rc \<le> RC_COUNT_MASK" and rd: "holds M u = Reader" using th UnlockLoop by (simp_all add: rw_simps)
    have R: "readers (M\<lparr>writer_notify := k, rw_pcs := f, holds := (holds M)(u := Nothing)\<rparr>) = readers M - {u}" for k f
      by (auto simp: readers_def)
    have "marked N (writer_notify M - 1) (readers M - {u})" if "writer_notify M \<noteq> 0"
      by (rule marked_leave [OF m]) (use reader_leaves_count [OF inv rd that] in simp_all)
    then show ?thesis using UnlockLoop w m False small_count [OF rc] R
      by (auto simp: pthread_rwlock_unlock_def rw_goto_def Let_def readers_def)
  next
    case UnlockNotify
    then show ?thesis using th by (simp add: rw_simps)
  qed (use w m False in \<open>auto simp: pthread_rwlock_unlock_def rw_goto_def readers_def\<close>)
qed

lemma doomed_step:
  assumes d: "writer_doomed t N M" and N: "N < 2 ^ 29" and st: "rw_step N M M'"
  shows "writer_doomed t N M'"
proof -
  have inv: "rw_inv N M" and w: "writer_waits (rw_pcs M t)" and m: "marked N (writer_notify M) (readers M)"
    using d by (auto simp: writer_doomed_def)
  have call: "writer_waits (rw_pcs (rw_goto u p M) t) \<and> readers (rw_goto u p M) = readers M \<and> writer_notify (rw_goto u p M) = writer_notify M"
    if "rw_pcs M u = RwIdle" for u p
    using w that by (cases "u = t") (auto simp: rw_goto_def readers_def writer_waits_def)
  have "writer_waits (rw_pcs M' t) \<and> marked N (writer_notify M') (readers M')"
    using st
  proof cases
    case (run_mutex_lock u b)
    then show ?thesis using mutex_lock_frame [of b u M t] w m by simp
  next
    case (run_mutex_unlock u)
    then show ?thesis using mutex_unlock_frame [of u M t] w m by simp
  next
    case (run_rdlock u)
    then show ?thesis using doomed_rdlock [OF d] w m by simp
  next
    case (run_wrlock u b)
    then show ?thesis using doomed_wrlock [OF d N] by simp
  next
    case (run_unlock u b)
    then show ?thesis using doomed_unlock [OF d _ N] by simp
  qed (use call m in simp_all)
  then show ?thesis using rw_step_inv [OF N inv st] by (simp add: writer_doomed_def)
qed

subsection \<open>The contract\<close>

text \<open>The invariant for a bounded number of threads is the contract's invariant.\<close>

definition rw_small_step :: "rw_machine \<times> nat \<Rightarrow> rw_machine \<times> nat \<Rightarrow> bool" where
  "rw_small_step s s' \<longleftrightarrow> snd s' = snd s \<and> rw_step (snd s) (fst s) (fst s')"

definition rw_small_start :: "rw_machine \<times> nat \<Rightarrow> bool" where
  "rw_small_start s \<longleftrightarrow> rw_start (fst s) \<and> snd s < 2 ^ 29"

definition rw_small_inv :: "rw_machine \<times> nat \<Rightarrow> bool" where
  "rw_small_inv s \<longleftrightarrow> rw_inv (snd s) (fst s) \<and> snd s < 2 ^ 29"

interpretation rwlock: inductive_invariant rw_small_start rw_small_step rw_small_inv
  by unfold_locales (auto simp: rw_small_start_def rw_small_step_def rw_small_inv_def rw_start_inv intro: rw_step_inv)

subsection \<open>Schedules\<close>

datatype rw_action = CallRead | CallWrite | RunLock | RunUnlock | RunRead | RunWrite

fun rw_act :: "nat \<times> rw_action \<Rightarrow> rw_machine \<Rightarrow> rw_machine" where
  "rw_act (t, CallRead) M =
     (if rw_pcs M t = RwIdle \<and> holds M t = Nothing then rw_goto t (LockLoad False) M else rwlock_mutex_lock True t M)"
| "rw_act (t, CallWrite) M =
     (if rw_pcs M t = RwIdle \<and> holds M t = Nothing then rw_goto t (LockLoad True) M else rwlock_mutex_lock True t M)"
| "rw_act (t, RunLock) M = rwlock_mutex_lock True t M"
| "rw_act (t, RunUnlock) M = rwlock_mutex_unlock t M"
| "rw_act (t, RunRead) M = pthread_rwlock_rdlock t M"
| "rw_act (t, RunWrite) M = pthread_rwlock_wrlock True t M"

definition rw_fresh :: rw_machine where
  "rw_fresh = \<lparr>rw_state = 0, writer_notify = 0, rw_pcs = (\<lambda>_. RwIdle), holds = (\<lambda>_. Nothing)\<rparr>"

definition rw_schedule :: "(nat \<times> rw_action) list \<Rightarrow> rw_machine" where
  "rw_schedule as = fold rw_act as rw_fresh"

lemma rw_act_step: "fst a < N \<Longrightarrow> rw_step N M (rw_act a M)"
  by (cases "(a, M)" rule: rw_act.cases) (auto intro: rw_step.intros)

lemma reach_rw_schedule:
  assumes "\<forall>a \<in> set as. fst a < N" "N < 2 ^ 29"
  shows "reach rw_small_start rw_small_step (rw_schedule as, N)"
proof -
  have "reach rw_small_start rw_small_step (M, N) \<Longrightarrow> reach rw_small_start rw_small_step (fold rw_act as M, N)" for M
    using assms(1)
  proof (induction as arbitrary: M)
    case (Cons a as)
    have "rw_small_step (M, N) (rw_act a M, N)" using rw_act_step Cons.prems(2) by (simp add: rw_small_step_def)
    then show ?case using Cons by (auto intro: reach_step simp del: rw_act.simps)
  qed simp
  moreover have "rw_small_start (rw_fresh, N)"
    using assms(2) by (simp add: rw_small_start_def rw_start_def rw_fresh_def pthread_rwlock_init_def RwLock.defs)
  ultimately show ?thesis by (auto simp: rw_schedule_def intro: reach_init)
qed

lemmas rw_eval = rw_schedule_def rw_fresh_def rw_goto_def rwlock_mutex_lock_def rwlock_mutex_unlock_def
  pthread_rwlock_rdlock_def pthread_rwlock_wrlock_def Let_def MUTEX_WAITERS_BIT_def MUTEX_EXCLUSIVE_BIT_def
  MUTEX_OWNER_MASK_def

subsection \<open>Properties\<close>

text \<open>
  C32. A read-write lock excludes: with fewer than 2^29 threads that lock only when they hold nothing
  and unlock only what they hold, in every interleaving a thread that holds the lock for writing is
  the only holder.\<close>

theorem rwlock_writer_excludes:
  assumes "reach rw_small_start rw_small_step (M, N)" "holds M t = Writer" "u \<noteq> t"
  shows "holds M u = Nothing"
proof -
  have inv: "rw_inv N M" and N: "N < 2 ^ 29" using rwlock.reach_inv [OF assms(1)] by (auto simp: rw_small_inv_def)
  have "writer_notify M = 0" using rw_invD(1) [OF inv, of t] assms(2) by (simp add: rw_thread_def)
  then have "readers M = {}" using count_facts(2) [OF inv N] readers_bound(1) [OF inv] by simp
  moreover have "holds M u \<noteq> Writer" using rw_invD(3) [OF inv, of t u] assms(2,3) by (auto simp: in_mutex_def)
  ultimately show ?thesis by (cases "holds M u") (auto simp: readers_def)
qed


theorem rwlock_writer_excludes_witness:
  "reach rw_small_start rw_small_step
     (rw_schedule [(0, CallWrite), (0, RunLock), (0, RunLock), (0, RunWrite), (0, RunWrite)], 2)
   \<and> holds (rw_schedule [(0, CallWrite), (0, RunLock), (0, RunLock), (0, RunWrite), (0, RunWrite)]) 0 = Writer
   \<and> holds (rw_schedule [(0, CallWrite), (0, RunLock), (0, RunLock), (0, RunWrite), (0, RunWrite)]) 1 = Nothing"
proof -
  let ?M = "rw_schedule [(0, CallWrite), (0, RunLock), (0, RunLock), (0, RunWrite), (0, RunWrite)]"
  have r: "reach rw_small_start rw_small_step (?M, 2)" by (rule reach_rw_schedule) simp_all
  have h: "holds ?M 0 = Writer" by (simp add: rw_eval)
  show ?thesis using r h rwlock_writer_excludes [OF r h, of 1] by simp
qed

text \<open>
  C33. A writer that meets a reader never returns: once its compare-and-exchange on a non-zero count has
  succeeded, the thread stays inside \<open>pthread_rwlock_wrlock\<close> without the lock for ever, whatever the
  readers do, since the exchange overwrites the number of readers with \<open>RC_COUNT_MASK\<close>.\<close>

theorem rwlock_writer_never_returns:
  assumes "reach rw_small_start rw_small_step (M, N)" "t < N"
    "rw_pcs M t = WriteLoop (writer_notify M)" "writer_notify M \<noteq> 0"
    "rw_small_step\<^sup>*\<^sup>* (pthread_rwlock_wrlock True t M, N) (M', N')"
  shows "rw_pcs M' t \<noteq> RwIdle \<and> holds M' t = Nothing"
proof -
  have inv: "rw_inv N M" and N: "N < 2 ^ 29" using rwlock.reach_inv [OF assms(1)] by (auto simp: rw_small_inv_def)
  let ?M = "pthread_rwlock_wrlock True t M"
  have rc: "writer_notify M \<le> RC_COUNT_MASK" using count_facts(3) [OF inv N] .
  have eq: "?M = rw_goto t (WriteFutex (writer_notify M)) (M\<lparr>writer_notify := RC_COUNT_MASK\<rparr>)"
    using assms(3,4) small_count [OF rc] by (simp add: pthread_rwlock_wrlock_def)
  have "rw_inv N ?M" by (rule rw_wrlock_inv [OF inv assms(2) N])
  moreover have "writer_waits (rw_pcs ?M t)" "marked N (writer_notify ?M) (readers ?M)"
    using readers_bound(2) [OF inv]
    by (simp_all add: eq rw_goto_def writer_waits_def marked_def RC_COUNT_MASK_def readers_def)
  ultimately have start: "writer_doomed t N ?M" by (simp add: writer_doomed_def)
  have "snd s = N \<and> writer_doomed t N (fst s)" if "rw_small_step\<^sup>*\<^sup>* (?M, N) s" for s
    using that by (induction rule: rtranclp_induct) (auto simp: start rw_small_step_def intro: doomed_step [OF _ N])
  from this [OF assms(5)] have d: "writer_doomed t N M'" by simp
  then have "rw_inv N M'" "writer_waits (rw_pcs M' t)" by (auto simp: writer_doomed_def)
  then show ?thesis using rw_invD(1) [of N M' t] by (auto simp: rw_simps split: rw_pc.splits)
qed

theorem rwlock_writer_never_returns_witness:
  "rw_pcs (pthread_rwlock_wrlock True 1 (rw_schedule [(0, CallRead), (0, RunLock), (0, RunLock), (0, RunRead),
      (0, RunUnlock), (1, CallWrite), (1, RunLock), (1, RunLock), (1, RunWrite)])) 1 \<noteq> RwIdle"
proof -
  let ?M = "rw_schedule [(0, CallRead), (0, RunLock), (0, RunLock), (0, RunRead),
      (0, RunUnlock), (1, CallWrite), (1, RunLock), (1, RunLock), (1, RunWrite)]"
  have r: "reach rw_small_start rw_small_step (?M, 2)" by (rule reach_rw_schedule) simp_all
  have pc: "rw_pcs ?M 1 = WriteLoop (writer_notify ?M)" "writer_notify ?M \<noteq> 0" by (simp_all add: rw_eval)
  show ?thesis using rwlock_writer_never_returns [OF r _ pc rtranclp.rtrancl_refl] by simp
qed

end
