(* ===== verification/Mutex.thy ===== *)
theory Mutex
  imports Hz_Prelude
begin

text \<open>
  The mutex of \<^verbatim>\<open>src/internal/mutex.cpp\<close>, used by the C++ internals and behind
  \<open>pthread_mutex_lock\<close>, \<open>pthread_mutex_trylock\<close> and \<open>pthread_mutex_unlock\<close>.

  Any number of threads run \<open>manual_lock\<close>, \<open>try_manual_lock\<close> and \<open>manual_unlock\<close>
  interleaved.  A thread is identified by the value of \<open>sys_get_thread_id\<close>, which is neither
  zero nor has its top bit set.  Its program counter names the next access to shared memory
  together with the local variable \<open>expected\<close>; one step performs one such access.  The compare
  and exchange operations, the exchange, the load and the two futex calls are atomic steps.  The
  flag \<open>b\<close> of a step resolves what the environment decides: whether a weak exchange fails
  spuriously and whether a futex wait is interrupted.  \<open>Stuck\<close> is a panic, a failed
  \<open>__ensure\<close> or an overflow of the recursion counter.

  The field \<open>depth\<close> is a history variable, not present in the code: the number of successful lock
  calls a thread has made and not yet undone.
\<close>

subsection \<open>State\<close>

definition PTHREAD_MUTEX_NORMAL :: int where "PTHREAD_MUTEX_NORMAL = 0"
definition PTHREAD_MUTEX_RECURSIVE :: int where "PTHREAD_MUTEX_RECURSIVE = 1"
definition PTHREAD_MUTEX_ERRORCHECK :: int where "PTHREAD_MUTEX_ERRORCHECK = 2"

definition FLAG_WAITING :: u32 where "FLAG_WAITING = push_bit 31 1"

datatype pc =
    Idle "errno option"
  | LockTop u32
  | LockOwned
  | LockCheck u32
  | LockWait u32
  | LockBlocked
  | LockMark u32
  | TryCas
  | TryOwned
  | TryCheck u32
  | UnlockLoad
  | UnlockDec
  | UnlockExchange
  | UnlockWake
  | Stuck

record pthread_mutex_internal =
  state :: u32
  recursion :: int
  kind :: int

record machine = pthread_mutex_internal +
  pcs :: "u32 \<Rightarrow> pc"
  depth :: "u32 \<Rightarrow> nat"

definition goto :: "u32 \<Rightarrow> pc \<Rightarrow> machine \<Rightarrow> machine" where
  "goto tid p M = M\<lparr>pcs := (pcs M)(tid := p)\<rparr>"

definition owner_of :: "u32 \<Rightarrow> u32" where
  "owner_of e = e AND NOT FLAG_WAITING"

definition waiting :: "u32 \<Rightarrow> bool" where
  "waiting e \<longleftrightarrow> e AND FLAG_WAITING \<noteq> 0"

subsection \<open>The three operations\<close>

text \<open>The branch on the kind that both lock operations take when the caller already owns the mutex.\<close>

definition relock :: "u32 \<Rightarrow> machine \<Rightarrow> machine" where
  "relock tid M =
     (if kind M = PTHREAD_MUTEX_RECURSIVE then
        (if int32_ok (recursion M + 1) then
           goto tid (Idle None) (M\<lparr>recursion := recursion M + 1, depth := (depth M)(tid := depth M tid + 1)\<rparr>)
         else goto tid Stuck M)
      else if kind M = PTHREAD_MUTEX_ERRORCHECK then goto tid (Idle (Some EDEADLK)) M
      else goto tid Stuck M)"

definition acquired :: "u32 \<Rightarrow> machine \<Rightarrow> machine" where
  "acquired tid M = goto tid (Idle None) (M\<lparr>recursion := 1, depth := (depth M)(tid := 1)\<rparr>)"

definition manual_lock :: "bool \<Rightarrow> u32 \<Rightarrow> machine \<Rightarrow> machine" where
  "manual_lock b tid M =
     (case pcs M tid of
        LockTop expected \<Rightarrow>
          (if expected = 0 then
             (if state M = 0 then goto tid LockOwned (M\<lparr>state := tid\<rparr>)
              else goto tid (LockCheck (state M)) M)
           else goto tid (LockCheck expected) M)
      | LockOwned \<Rightarrow> acquired tid M
      | LockCheck expected \<Rightarrow>
          (if owner_of expected = tid then relock tid M
           else if waiting expected then goto tid (LockWait expected) M
           else goto tid (LockMark expected) M)
      | LockWait expected \<Rightarrow>
          (if state M = expected \<and> b then goto tid LockBlocked M else goto tid (LockTop 0) M)
      | LockBlocked \<Rightarrow> (if b then goto tid (LockTop 0) M else M)
      | LockMark expected \<Rightarrow>
          (if state M = expected \<and> b
           then goto tid (LockTop (expected OR FLAG_WAITING)) (M\<lparr>state := expected OR FLAG_WAITING\<rparr>)
           else goto tid (LockTop (state M)) M)
      | _ \<Rightarrow> M)"

definition try_manual_lock :: "u32 \<Rightarrow> machine \<Rightarrow> machine" where
  "try_manual_lock tid M =
     (case pcs M tid of
        TryCas \<Rightarrow>
          (if state M = 0 then goto tid TryOwned (M\<lparr>state := tid\<rparr>)
           else goto tid (TryCheck (state M)) M)
      | TryOwned \<Rightarrow> acquired tid M
      | TryCheck expected \<Rightarrow>
          (if owner_of expected = tid then relock tid M else goto tid (Idle (Some EBUSY)) M)
      | _ \<Rightarrow> M)"

definition wake_all :: "machine \<Rightarrow> machine" where
  "wake_all M = M\<lparr>pcs := (\<lambda>t. if pcs M t = LockBlocked then LockTop 0 else pcs M t)\<rparr>"

definition manual_unlock :: "u32 \<Rightarrow> machine \<Rightarrow> machine" where
  "manual_unlock tid M =
     (case pcs M tid of
        UnlockLoad \<Rightarrow>
          (if owner_of (state M) \<noteq> tid then
             (if kind M = PTHREAD_MUTEX_NORMAL then goto tid Stuck M else goto tid (Idle (Some EPERM)) M)
           else if state M = 0 then
             (if kind M = PTHREAD_MUTEX_NORMAL then goto tid Stuck M else goto tid (Idle (Some EPERM)) M)
           else goto tid UnlockDec M)
      | UnlockDec \<Rightarrow>
          (if recursion M \<ge> 1 then
             (let M' = M\<lparr>recursion := recursion M - 1, depth := (depth M)(tid := depth M tid - 1)\<rparr> in
              if recursion M - 1 > 0 then goto tid (Idle None) M' else goto tid UnlockExchange M')
           else goto tid Stuck M)
      | UnlockExchange \<Rightarrow>
          (if waiting (state M) then goto tid UnlockWake (M\<lparr>state := 0\<rparr>)
           else goto tid (Idle None) (M\<lparr>state := 0\<rparr>))
      | UnlockWake \<Rightarrow> goto tid (Idle None) (wake_all M)
      | _ \<Rightarrow> M)"

subsection \<open>Interleaving\<close>

definition valid_tid :: "u32 \<Rightarrow> bool" where
  "valid_tid t \<longleftrightarrow> t \<noteq> 0 \<and> \<not> waiting t"

inductive mutex_step :: "machine \<Rightarrow> machine \<Rightarrow> bool" where
  call_lock: "valid_tid t \<Longrightarrow> pcs M t = Idle r \<Longrightarrow> mutex_step M (goto t (LockTop 0) M)"
| call_trylock: "valid_tid t \<Longrightarrow> pcs M t = Idle r \<Longrightarrow> mutex_step M (goto t TryCas M)"
| call_unlock: "valid_tid t \<Longrightarrow> pcs M t = Idle r \<Longrightarrow> mutex_step M (goto t UnlockLoad M)"
| run_lock: "valid_tid t \<Longrightarrow> mutex_step M (manual_lock b t M)"
| run_trylock: "valid_tid t \<Longrightarrow> mutex_step M (try_manual_lock t M)"
| run_unlock: "valid_tid t \<Longrightarrow> mutex_step M (manual_unlock t M)"

definition mutex_init :: "machine \<Rightarrow> bool" where
  "mutex_init M \<longleftrightarrow> state M = 0 \<and> recursion M = 0 \<and> (\<forall>t. pcs M t = Idle None \<and> depth M t = 0)"

subsection \<open>Bits of the state word\<close>

lemma FLAG_bit: "bit FLAG_WAITING n \<longleftrightarrow> n = 31"
  unfolding FLAG_WAITING_def bit_push_bit_iff by (auto simp: bit_1_iff)

lemma owner_of_0 [simp]: "owner_of 0 = 0" by (simp add: owner_of_def)
lemma not_waiting_0 [simp]: "\<not> waiting 0" by (simp add: waiting_def)

lemma waiting_iff_bit: "waiting e \<longleftrightarrow> bit e 31"
proof
  assume "bit e 31"
  then have "bit (e AND FLAG_WAITING) 31" by (simp add: bit_simps FLAG_bit)
  then show "waiting e" unfolding waiting_def by (metis bit_0_eq bot_apply bot_bool_def)
next
  assume "waiting e"
  then obtain n where "bit (e AND FLAG_WAITING) n" unfolding waiting_def by (metis bit_eq_iff bit_0_eq bot_apply bot_bool_def)
  then show "bit e 31" by (auto simp: bit_simps FLAG_bit)
qed

lemma owner_of_valid [simp]: "valid_tid t \<Longrightarrow> owner_of t = t"
  by (rule bit_word_eqI) (auto simp: owner_of_def valid_tid_def waiting_iff_bit bit_simps FLAG_bit)

lemma owner_of_mark [simp]: "owner_of (e OR FLAG_WAITING) = owner_of e"
  by (rule bit_word_eqI) (auto simp: owner_of_def bit_simps FLAG_bit)

lemma waiting_mark [simp]: "waiting (e OR FLAG_WAITING)"
  by (simp add: waiting_iff_bit bit_simps FLAG_bit)

lemma mark_nonzero [simp]: "e OR FLAG_WAITING \<noteq> 0"
  using waiting_mark [of e] by (metis not_waiting_0)

lemma valid_tid_nonzero: "\<not> valid_tid 0" by (simp add: valid_tid_def)

subsection \<open>The invariant\<close>

text \<open>
  What holds of a thread \<open>u\<close> at program counter \<open>p\<close> with \<open>d\<close> pending locks, when the state word
  names the owner \<open>own\<close> (zero if none) and the recursion counter is \<open>r\<close>.
\<close>

definition thread_inv :: "u32 \<Rightarrow> int \<Rightarrow> int \<Rightarrow> u32 \<Rightarrow> pc \<Rightarrow> nat \<Rightarrow> bool" where
  "thread_inv own r k u p d \<longleftrightarrow>
     (0 < d \<longrightarrow> own = u \<and> r = int d) \<and>
     (0 < d \<or> (\<forall>res. p \<noteq> Idle res) \<longrightarrow> valid_tid u) \<and>
     (own = u \<and> valid_tid u \<longrightarrow> 0 < d \<or> p \<in> {LockOwned, TryOwned, UnlockExchange}) \<and>
     (case p of
        LockTop e \<Rightarrow> owner_of e \<noteq> u \<and> (e \<noteq> 0 \<longrightarrow> own \<noteq> u)
      | LockOwned \<Rightarrow> own = u \<and> d = 0
      | LockCheck e \<Rightarrow> e \<noteq> 0 \<and> (owner_of e = u \<longleftrightarrow> own = u)
      | LockWait e \<Rightarrow> own \<noteq> u \<and> waiting e
      | LockBlocked \<Rightarrow> own \<noteq> u
      | LockMark e \<Rightarrow> own \<noteq> u \<and> owner_of e \<noteq> u \<and> e \<noteq> 0
      | TryOwned \<Rightarrow> own = u \<and> d = 0
      | TryCheck e \<Rightarrow> owner_of e = u \<longleftrightarrow> own = u
      | UnlockDec \<Rightarrow> own = u
      | UnlockExchange \<Rightarrow> own = u \<and> d = 0
      | Stuck \<Rightarrow> k \<notin> {PTHREAD_MUTEX_RECURSIVE, PTHREAD_MUTEX_ERRORCHECK} \<or> own = u \<and> INT_MAX \<le> r
      | _ \<Rightarrow> True)"

definition mutex_inv :: "machine \<Rightarrow> bool" where
  "mutex_inv M \<longleftrightarrow>
     (state M \<noteq> 0 \<longrightarrow> valid_tid (owner_of (state M))) \<and>
     (\<forall>u. thread_inv (owner_of (state M)) (recursion M) (kind M) u (pcs M u) (depth M u)) \<and>
     ((\<exists>t. pcs M t = LockBlocked) \<longrightarrow> waiting (state M) \<or> (\<exists>u. pcs M u = UnlockWake))"

lemma thread_inv_frame:
  assumes "thread_inv own r k u p d" and "u \<noteq> t" and "own = 0 \<or> own = t" and "own' = 0 \<or> own' = t"
  shows "thread_inv own' r' k u p d"
proof (cases "valid_tid u")
  case True
  then have "own \<noteq> u" "own' \<noteq> u" using assms(2-4) by (auto simp: valid_tid_def)
  then show ?thesis using assms(1) True by (cases p) (simp_all add: thread_inv_def)
next
  case False
  then have "d = 0 \<and> (\<exists>res. p = Idle res)" using assms(1) by (auto simp: thread_inv_def)
  then show ?thesis using False by (auto simp: thread_inv_def)
qed

lemma mutex_inv_goto:
  assumes inv: "mutex_inv M" and "pcs M t \<noteq> UnlockWake"
    and eq: "pcs N = pcs M" "\<And>u. u \<noteq> t \<Longrightarrow> depth N u = depth M u" "kind N = kind M"
    and own: "owner_of (state N) = owner_of (state M) \<and> recursion N = recursion M \<or>
         owner_of (state M) \<in> {0, t} \<and> owner_of (state N) \<in> {0, t}"
    and new: "thread_inv (owner_of (state N)) (recursion N) (kind M) t p (depth N t)"
    and "state N \<noteq> 0 \<Longrightarrow> valid_tid (owner_of (state N))"
    and "p = LockBlocked \<Longrightarrow> waiting (state N)"
    and mark: "waiting (state M) \<Longrightarrow> waiting (state N) \<or> p = UnlockWake"
  shows "mutex_inv (goto t p N)"
proof -
  have T: "thread_inv (owner_of (state N)) (recursion N) (kind N) u (((pcs M)(t := p)) u) (depth N u)" for u
  proof (cases "u = t")
    case False
    have old: "thread_inv (owner_of (state M)) (recursion M) (kind M) u (pcs M u) (depth M u)"
      using inv by (simp add: mutex_inv_def)
    have "thread_inv (owner_of (state N)) (recursion N) (kind M) u (pcs M u) (depth M u)"
    proof (cases "owner_of (state N) = owner_of (state M) \<and> recursion N = recursion M")
      case changed: False
      show ?thesis by (rule thread_inv_frame [OF old False]) (use own changed in auto)
    qed (use old in simp)
    then show ?thesis using False by (simp add: eq)
  qed (use new in \<open>simp add: eq\<close>)
  have W: "waiting (state N) \<or> (\<exists>u. ((pcs M)(t := p)) u = UnlockWake)"
    if "((pcs M)(t := p)) x = LockBlocked" for x
  proof (cases "x = t")
    case False
    then have "waiting (state M) \<or> (\<exists>u. pcs M u = UnlockWake)"
      using that inv by (auto simp: mutex_inv_def)
    then show ?thesis using mark assms(2) by (metis fun_upd_apply)
  qed (use that assms in simp)
  show ?thesis
    unfolding mutex_inv_def goto_def using T W assms(8) eq(1) by (auto simp del: fun_upd_apply)
qed

lemma valid_tidD: "valid_tid t \<Longrightarrow> t \<noteq> 0"
  by (simp add: valid_tid_def)

lemma mutex_invD:
  assumes "mutex_inv M"
  shows "thread_inv (owner_of (state M)) (recursion M) (kind M) t (pcs M t) (depth M t)"
    and "state M \<noteq> 0 \<Longrightarrow> valid_tid (owner_of (state M))"
  using assms by (auto simp: mutex_inv_def)

lemma thread_inv_owner_depth:
  "thread_inv own r k u p d \<Longrightarrow> own = u \<Longrightarrow> valid_tid u \<Longrightarrow> p \<notin> {LockOwned, TryOwned, UnlockExchange} \<Longrightarrow>
   0 < d \<and> r = int d"
  by (auto simp: thread_inv_def)

lemma relock_inv:
  assumes inv: "mutex_inv M" and t: "valid_tid t" and "owner_of (state M) = t"
    and "pcs M t \<notin> {LockOwned, TryOwned, UnlockExchange, UnlockWake}"
  shows "mutex_inv (relock t M)"
proof -
  have d: "0 < depth M t" "recursion M = int (depth M t)"
    using thread_inv_owner_depth [OF mutex_invD(1) [OF inv, of t]] assms by auto
  show ?thesis unfolding relock_def using assms d mutex_invD(2) [OF inv]
    by (auto intro!: mutex_inv_goto [OF inv] simp: thread_inv_def int32_ok_def)
qed

lemma acquired_inv:
  assumes inv: "mutex_inv M" and t: "valid_tid t" and "owner_of (state M) = t"
    and "pcs M t \<noteq> UnlockWake"
  shows "mutex_inv (acquired t M)"
  unfolding acquired_def using assms mutex_invD(2) [OF inv]
  by (auto intro!: mutex_inv_goto [OF inv] simp: thread_inv_def)

lemma manual_lock_inv:
  assumes inv: "mutex_inv M" and t: "valid_tid t"
  shows "mutex_inv (manual_lock b t M)"
proof (cases "pcs M t")
  case (LockTop e)
  then show ?thesis
    using mutex_invD(1) [OF inv, of t] mutex_invD(2) [OF inv] t
    by (auto intro!: mutex_inv_goto [OF inv] simp: manual_lock_def thread_inv_def dest: valid_tidD)
next
  case LockOwned
  then show ?thesis
    using mutex_invD(1) [OF inv, of t] acquired_inv [OF inv t] by (auto simp: manual_lock_def thread_inv_def)
next
  case (LockCheck e)
  then show ?thesis
    using mutex_invD(1) [OF inv, of t] mutex_invD(2) [OF inv] t relock_inv [OF inv t]
    by (auto intro!: mutex_inv_goto [OF inv] simp: manual_lock_def thread_inv_def)
next
  case (LockWait e)
  then show ?thesis
    using mutex_invD(1) [OF inv, of t] mutex_invD(2) [OF inv] t
    by (auto intro!: mutex_inv_goto [OF inv] simp: manual_lock_def thread_inv_def dest: valid_tidD)
next
  case LockBlocked
  then show ?thesis
    using mutex_invD(1) [OF inv, of t] mutex_invD(2) [OF inv] t inv
    by (auto intro!: mutex_inv_goto [OF inv] simp: manual_lock_def thread_inv_def dest: valid_tidD)
next
  case (LockMark e)
  then show ?thesis
    using mutex_invD(1) [OF inv, of t] mutex_invD(2) [OF inv] t
    by (auto intro!: mutex_inv_goto [OF inv] simp: manual_lock_def thread_inv_def dest: valid_tidD)
qed (use inv in \<open>simp_all add: manual_lock_def\<close>)

lemma try_manual_lock_inv:
  assumes inv: "mutex_inv M" and t: "valid_tid t"
  shows "mutex_inv (try_manual_lock t M)"
proof (cases "pcs M t")
  case TryCas
  then show ?thesis
    using mutex_invD(1) [OF inv, of t] mutex_invD(2) [OF inv] t
    by (auto intro!: mutex_inv_goto [OF inv] simp: try_manual_lock_def thread_inv_def dest: valid_tidD)
next
  case TryOwned
  then show ?thesis
    using mutex_invD(1) [OF inv, of t] acquired_inv [OF inv t] by (auto simp: try_manual_lock_def thread_inv_def)
next
  case (TryCheck e)
  then show ?thesis
    using mutex_invD(1) [OF inv, of t] mutex_invD(2) [OF inv] t relock_inv [OF inv t]
    by (auto intro!: mutex_inv_goto [OF inv] simp: try_manual_lock_def thread_inv_def)
qed (use inv in \<open>simp_all add: try_manual_lock_def\<close>)

lemma wake_all_inv:
  assumes inv: "mutex_inv M" and t: "valid_tid t" and p: "pcs M t = UnlockWake"
  shows "mutex_inv (goto t (Idle None) (wake_all M))"
proof -
  have "thread_inv (owner_of (state M)) (recursion M) (kind M) u
      (if pcs M u = LockBlocked then LockTop 0 else pcs M u) (depth M u)" for u
    using mutex_invD(1) [OF inv, of u] by (auto simp: thread_inv_def dest: valid_tidD)
  moreover have "thread_inv (owner_of (state M)) (recursion M) (kind M) t (Idle None) (depth M t)"
    using mutex_invD(1) [OF inv, of t] p by (simp add: thread_inv_def)
  ultimately show ?thesis
    using mutex_invD(2) [OF inv] by (auto simp: mutex_inv_def goto_def wake_all_def)
qed

lemma manual_unlock_inv:
  assumes inv: "mutex_inv M" and t: "valid_tid t"
  shows "mutex_inv (manual_unlock t M)"
proof (cases "pcs M t")
  case UnlockLoad
  then show ?thesis
    using mutex_invD(1) [OF inv, of t] mutex_invD(2) [OF inv] t
    by (auto intro!: mutex_inv_goto [OF inv] simp: manual_unlock_def thread_inv_def
        PTHREAD_MUTEX_NORMAL_def PTHREAD_MUTEX_RECURSIVE_def PTHREAD_MUTEX_ERRORCHECK_def)
next
  case UnlockDec
  then have "owner_of (state M) = t" "0 < depth M t" "recursion M = int (depth M t)"
    using mutex_invD(1) [OF inv, of t] t by (auto simp: thread_inv_def)
  then show ?thesis
    using UnlockDec mutex_invD(2) [OF inv] t
    by (auto intro!: mutex_inv_goto [OF inv] simp: manual_unlock_def thread_inv_def Let_def)
next
  case UnlockExchange
  then have "owner_of (state M) = t" "depth M t = 0"
    using mutex_invD(1) [OF inv, of t] by (auto simp: thread_inv_def)
  then show ?thesis
    using UnlockExchange t
    by (auto intro!: mutex_inv_goto [OF inv] simp: manual_unlock_def thread_inv_def valid_tid_nonzero)
next
  case UnlockWake
  then show ?thesis using wake_all_inv [OF inv t] by (simp add: manual_unlock_def)
qed (use inv in \<open>simp_all add: manual_unlock_def\<close>)

lemma call_inv:
  assumes inv: "mutex_inv M" and t: "valid_tid t" and "pcs M t = Idle r" and "p \<in> {LockTop 0, TryCas, UnlockLoad}"
  shows "mutex_inv (goto t p M)"
  using assms mutex_invD(1) [OF inv, of t] mutex_invD(2) [OF inv]
  by (auto intro!: mutex_inv_goto [OF inv] simp: thread_inv_def dest: valid_tidD)

interpretation mutex: inductive_invariant mutex_init mutex_step mutex_inv
proof
  show "mutex_inv M" if "mutex_init M" for M
    using that by (auto simp: mutex_init_def mutex_inv_def thread_inv_def valid_tid_nonzero)
  show "mutex_inv N" if "mutex_inv M" and "mutex_step M N" for M N
    using that(2,1) by cases (auto intro: call_inv manual_lock_inv try_manual_lock_inv manual_unlock_inv)
qed

subsection \<open>Properties\<close>

lemma reach_lock_iter:
  assumes "reach mutex_init mutex_step M" and "valid_tid t"
  shows "reach mutex_init mutex_step ((manual_lock b t ^^ n) M)"
  using assms by (induction n) (auto intro: reach_step run_lock)

definition free_mutex :: "int \<Rightarrow> machine" where
  "free_mutex k = \<lparr>state = 0, recursion = 0, kind = k, pcs = (\<lambda>_. Idle None), depth = (\<lambda>_. 0)\<rparr>"

lemma reach_free: "reach mutex_init mutex_step (free_mutex k)"
  by (rule reach_init) (simp add: mutex_init_def free_mutex_def)

lemma valid_tid_1_2: "valid_tid 1" "valid_tid 2"
  by (simp_all add: valid_tid_def waiting_def FLAG_WAITING_def)

definition held_by_1 :: "int \<Rightarrow> machine" where
  "held_by_1 k = (manual_lock True 1 ^^ Suc 1) (goto 1 (LockTop 0) (free_mutex k))"

definition blocked_2 :: "int \<Rightarrow> machine" where
  "blocked_2 k = (manual_lock True 2 ^^ Suc (Suc (Suc (Suc (Suc 1))))) (goto 2 (LockTop 0) (held_by_1 k))"

lemma held_by_1_eq:
  "held_by_1 k = \<lparr>state = 1, recursion = 1, kind = k, pcs = (\<lambda>_. Idle None), depth = (\<lambda>_. 0)(1 := 1)\<rparr>"
  by (simp add: held_by_1_def free_mutex_def manual_lock_def goto_def acquired_def fun_upd_idem)

lemma blocked_2_eq:
  "blocked_2 k = \<lparr>state = 1 OR FLAG_WAITING, recursion = 1, kind = k,
     pcs = (\<lambda>_. Idle None)(2 := LockBlocked), depth = (\<lambda>_. 0)(1 := 1)\<rparr>"
  by (simp add: blocked_2_def held_by_1_eq manual_lock_def goto_def owner_of_valid [OF valid_tid_1_2(1)]
      valid_tid_1_2 [unfolded valid_tid_def])

lemma reach_held: "reach mutex_init mutex_step (held_by_1 k)"
  unfolding held_by_1_def
  by (rule reach_lock_iter [OF reach_step [OF reach_free call_lock]])
    (simp_all add: valid_tid_1_2 free_mutex_def)

lemma reach_blocked: "reach mutex_init mutex_step (blocked_2 k)"
  unfolding blocked_2_def
  by (rule reach_lock_iter [OF reach_step [OF reach_held call_lock]])
    (simp_all add: valid_tid_1_2 held_by_1_eq)

text \<open>
  C1. Mutual exclusion, for every number of threads and every interleaving of lock, trylock and
  unlock calls, correct or not: at most one thread holds the mutex, the state word names it and the
  recursion counter is the number of its pending locks.
\<close>

theorem mutex_mutual_exclusion:
  assumes "reach mutex_init mutex_step M" and "0 < depth M t" and "0 < depth M u"
  shows "t = u \<and> owner_of (state M) = t \<and> recursion M = int (depth M t)"
  using mutex_invD(1) [OF mutex.reach_inv [OF assms(1)]] assms(2,3) by (auto simp: thread_inv_def)

theorem mutex_mutual_exclusion_witness:
  "owner_of (state (held_by_1 0)) = 1 \<and> recursion (held_by_1 0) = int (depth (held_by_1 0) 1)"
proof -
  have "0 < depth (held_by_1 0) 1" by (simp add: held_by_1_eq)
  then show ?thesis using mutex_mutual_exclusion [OF reach_held, of 0 1 1] by blast
qed

text \<open>
  C2. No wake-up is lost: whenever a thread sleeps in the futex, either some thread is about to
  wake all sleepers, or another thread owns the mutex (holds it, or is just entering or leaving) and
  the waiting flag is set, so that its unlock will wake them.
\<close>

theorem mutex_no_lost_wakeup:
  assumes "reach mutex_init mutex_step M" and "pcs M t = LockBlocked"
  shows "(\<exists>u. pcs M u = UnlockWake) \<or>
    (\<exists>u. u \<noteq> t \<and> valid_tid u \<and> owner_of (state M) = u \<and> waiting (state M) \<and>
       (0 < depth M u \<or> pcs M u \<in> {LockOwned, TryOwned, UnlockExchange}))"
proof (cases "\<exists>u. pcs M u = UnlockWake")
  case False
  let ?u = "owner_of (state M)"
  have inv: "mutex_inv M" by (rule mutex.reach_inv [OF assms(1)])
  then have w: "waiting (state M)" using assms(2) False by (auto simp: mutex_inv_def)
  then have "valid_tid ?u" using mutex_invD(2) [OF inv] by fastforce
  moreover have "?u \<noteq> t" using mutex_invD(1) [OF inv, of t] assms(2) by (simp add: thread_inv_def)
  moreover have "0 < depth M ?u \<or> pcs M ?u \<in> {LockOwned, TryOwned, UnlockExchange}"
    using mutex_invD(1) [OF inv, of ?u] \<open>valid_tid ?u\<close> by (simp add: thread_inv_def)
  ultimately show ?thesis using w by blast
qed blast

theorem mutex_no_lost_wakeup_witness:
  "pcs (blocked_2 0) 2 = LockBlocked \<and> (\<exists>u. u \<noteq> 2 \<and> owner_of (state (blocked_2 0)) = u \<and> waiting (state (blocked_2 0)))"
proof -
  have b: "pcs (blocked_2 0) 2 = LockBlocked" and "\<nexists>u. pcs (blocked_2 0) u = UnlockWake"
    by (auto simp: blocked_2_eq)
  then show ?thesis using mutex_no_lost_wakeup [OF reach_blocked b] by blast
qed

text \<open>
  C31. Recursive and error-checking mutexes never panic and no \<open>__ensure\<close> of their code fails, however
  they are misused: the only way to get stuck is an overflow of the recursion counter.
\<close>

theorem mutex_checked_kinds_never_panic:
  assumes "reach mutex_init mutex_step M" and "recursion M < INT_MAX"
    and "kind M = PTHREAD_MUTEX_RECURSIVE \<or> kind M = PTHREAD_MUTEX_ERRORCHECK"
  shows "pcs M t \<noteq> Stuck"
  using mutex_invD(1) [OF mutex.reach_inv [OF assms(1)], of t] assms(2,3) by (auto simp: thread_inv_def)

theorem mutex_checked_kinds_never_panic_witness:
  "pcs (blocked_2 PTHREAD_MUTEX_RECURSIVE) 2 \<noteq> Stuck"
  by (rule mutex_checked_kinds_never_panic [OF reach_blocked]) (simp_all add: blocked_2_eq)

text \<open>
  The calls of a thread that runs alone.  On a free mutex, lock succeeds and makes the thread the
  owner with one pending lock.  The owner's second lock adds one to the recursion counter of a
  recursive mutex and fails with \<open>EDEADLK\<close>, changing nothing, on an error-checking one.  The
  unlock that undoes the last lock frees the mutex.  A thread that does not own the mutex
  fails with \<open>EBUSY\<close> from trylock and, unless the mutex is a normal one, with \<open>EPERM\<close>
  from unlock.
\<close>

theorem mutex_sequential_calls:
  assumes t: "valid_tid t"
  shows
    "(state M = 0 \<longrightarrow>
        (manual_lock b t ^^ Suc 1) (goto t (LockTop 0) M) =
          goto t (Idle None) (M\<lparr>state := t, recursion := 1, depth := (depth M)(t := 1)\<rparr>)) \<and>
     (owner_of (state M) = t \<and> kind M = PTHREAD_MUTEX_RECURSIVE \<and> int32_ok (recursion M + 1) \<longrightarrow>
        (manual_lock b t ^^ Suc 1) (goto t (LockTop 0) M) =
          goto t (Idle None) (M\<lparr>recursion := recursion M + 1, depth := (depth M)(t := depth M t + 1)\<rparr>)) \<and>
     (owner_of (state M) = t \<and> kind M = PTHREAD_MUTEX_ERRORCHECK \<longrightarrow>
        (manual_lock b t ^^ Suc 1) (goto t (LockTop 0) M) = goto t (Idle (Some EDEADLK)) M) \<and>
     (state M = t \<and> recursion M = 1 \<longrightarrow>
        (manual_unlock t ^^ Suc (Suc 1)) (goto t UnlockLoad M) =
          goto t (Idle None) (M\<lparr>state := 0, recursion := 0, depth := (depth M)(t := depth M t - 1)\<rparr>)) \<and>
     (state M \<noteq> 0 \<and> owner_of (state M) \<noteq> t \<longrightarrow>
        (try_manual_lock t ^^ Suc 1) (goto t TryCas M) = goto t (Idle (Some EBUSY)) M) \<and>
     (owner_of (state M) \<noteq> t \<and> kind M \<noteq> PTHREAD_MUTEX_NORMAL \<longrightarrow>
        manual_unlock t (goto t UnlockLoad M) = goto t (Idle (Some EPERM)) M)"
proof (intro conjI impI)
  have "\<not> waiting t" using t by (simp add: valid_tid_def)
  have owned: "state M \<noteq> 0" if "owner_of (state M) = t" using that t by (auto simp: valid_tid_def)
  show "(manual_lock b t ^^ Suc 1) (goto t (LockTop 0) M) =
      goto t (Idle None) (M\<lparr>state := t, recursion := 1, depth := (depth M)(t := 1)\<rparr>)" if "state M = 0"
    using that by (simp add: manual_lock_def goto_def acquired_def)
  show "(manual_lock b t ^^ Suc 1) (goto t (LockTop 0) M) =
      goto t (Idle None) (M\<lparr>recursion := recursion M + 1, depth := (depth M)(t := depth M t + 1)\<rparr>)"
    if "owner_of (state M) = t \<and> kind M = PTHREAD_MUTEX_RECURSIVE \<and> int32_ok (recursion M + 1)"
    using that owned by (simp add: manual_lock_def goto_def relock_def)
  show "(manual_lock b t ^^ Suc 1) (goto t (LockTop 0) M) = goto t (Idle (Some EDEADLK)) M"
    if "owner_of (state M) = t \<and> kind M = PTHREAD_MUTEX_ERRORCHECK"
    using that owned
    by (simp add: manual_lock_def goto_def relock_def PTHREAD_MUTEX_RECURSIVE_def PTHREAD_MUTEX_ERRORCHECK_def)
  show "(manual_unlock t ^^ Suc (Suc 1)) (goto t UnlockLoad M) =
      goto t (Idle None) (M\<lparr>state := 0, recursion := 0, depth := (depth M)(t := depth M t - 1)\<rparr>)"
    if "state M = t \<and> recursion M = 1"
    using that t owned \<open>\<not> waiting t\<close> by (simp add: manual_unlock_def goto_def Let_def)
  show "(try_manual_lock t ^^ Suc 1) (goto t TryCas M) = goto t (Idle (Some EBUSY)) M"
    if "state M \<noteq> 0 \<and> owner_of (state M) \<noteq> t"
    using that by (simp add: try_manual_lock_def goto_def)
  show "manual_unlock t (goto t UnlockLoad M) = goto t (Idle (Some EPERM)) M"
    if "owner_of (state M) \<noteq> t \<and> kind M \<noteq> PTHREAD_MUTEX_NORMAL"
    using that by (simp add: manual_unlock_def goto_def)
qed

theorem mutex_sequential_calls_witness:
  "(manual_lock True 1 ^^ Suc 1) (goto 1 (LockTop 0) (free_mutex 2)) =
     goto 1 (Idle None) ((free_mutex 2)\<lparr>state := 1, recursion := 1, depth := (depth (free_mutex 2))(1 := 1)\<rparr>) \<and>
   (manual_lock True 1 ^^ Suc 1) (goto 1 (LockTop 0) (held_by_1 2)) = goto 1 (Idle (Some EDEADLK)) (held_by_1 2)"
proof -
  have "state (free_mutex 2) = 0" "kind (held_by_1 2) = PTHREAD_MUTEX_ERRORCHECK"
    "owner_of (state (held_by_1 2)) = 1"
    using owner_of_valid [OF valid_tid_1_2(1)]
    by (simp_all add: free_mutex_def held_by_1_eq PTHREAD_MUTEX_ERRORCHECK_def)
  then show ?thesis
    using mutex_sequential_calls [OF valid_tid_1_2(1), of "free_mutex 2" True]
      mutex_sequential_calls [OF valid_tid_1_2(1), of "held_by_1 2" True] by blast
qed

end
