(* ===== verification/Atexit.thy ===== *)
theory Atexit
  imports Hz_Prelude
begin

text \<open>
  The exit handlers of \<^verbatim>\<open>src/ansi/stdlib.cpp\<close>: the two chains of handler blocks
  \<^verbatim>\<open>BLOCKS\<close> and \<^verbatim>\<open>QUICK_BLOCKS\<close>, registration by \<open>__cxa_atexit\<close>, \<open>atexit\<close> and
  \<open>at_quick_exit\<close>, and the runs of \<open>exit\<close> and \<open>quick_exit\<close>.

  A chain is the list of its blocks from the current one along the \<open>next\<close> pointers; its
  last element is the statically allocated initial block.  Running handlers yields the list of the calls
  made, as pairs of function and argument.  A handler runs while the chain's spinlock is held, so a
  handler that registers another one never returns; the model is of handlers that do not.  The
  flag \<open>mem\<close> says whether the allocator has memory for a new block; without it the code
  writes through a null pointer, which is the result \<open>None\<close>.
\<close>

subsection \<open>Handler blocks\<close>

record AtExit =
  fn :: u64
  arg :: u64
  dso_handle :: u64

record AtExitBlock =
  fns :: "AtExit list"
  bsize :: int

record exit_state =
  BLOCKS :: "AtExitBlock list"
  QUICK_BLOCKS :: "AtExitBlock list"

definition empty_entry :: AtExit where
  "empty_entry = \<lparr>fn = 0, arg = 0, dso_handle = 0\<rparr>"

definition INITIAL_BLOCK :: AtExitBlock where
  "INITIAL_BLOCK = \<lparr>fns = replicate 8 empty_entry, bsize = 0\<rparr>"

definition initial_exit_state :: exit_state where
  "initial_exit_state = \<lparr>BLOCKS = [INITIAL_BLOCK], QUICK_BLOCKS = [INITIAL_BLOCK]\<rparr>"

text \<open>The store \<^verbatim>\<open>fns[size++] = e\<close>, undefined outside the array.\<close>

definition append_entry :: "AtExit \<Rightarrow> AtExitBlock \<Rightarrow> AtExitBlock option" where
  "append_entry e b =
     (if 0 \<le> bsize b \<and> bsize b < int (length (fns b))
      then Some (b\<lparr>fns := (fns b)[nat (bsize b) := e], bsize := bsize b + 1\<rparr>) else None)"

definition register_entry :: "bool \<Rightarrow> AtExit \<Rightarrow> AtExitBlock list \<Rightarrow> AtExitBlock list option" where
  "register_entry mem e blocks =
     (case blocks of
        [] \<Rightarrow> None
      | b # rest \<Rightarrow>
          if bsize b = 8 then
            (if mem then map_option (\<lambda>b'. b' # b # rest) (append_entry e INITIAL_BLOCK) else None)
          else map_option (\<lambda>b'. b' # rest) (append_entry e b))"

definition cxa_atexit :: "bool \<Rightarrow> u64 \<Rightarrow> u64 \<Rightarrow> u64 \<Rightarrow> exit_state \<Rightarrow> (int \<times> exit_state) option" where
  "cxa_atexit mem func argument dso s =
     map_option (\<lambda>blocks. (0, s\<lparr>BLOCKS := blocks\<rparr>))
       (register_entry mem \<lparr>fn = func, arg = argument, dso_handle = dso\<rparr> (BLOCKS s))"

definition atexit :: "bool \<Rightarrow> u64 \<Rightarrow> exit_state \<Rightarrow> (int \<times> exit_state) option" where
  "atexit mem func s = cxa_atexit mem func 0 0 s"

definition at_quick_exit :: "bool \<Rightarrow> u64 \<Rightarrow> exit_state \<Rightarrow> (int \<times> exit_state) option" where
  "at_quick_exit mem func s =
     map_option (\<lambda>blocks. (0, s\<lparr>QUICK_BLOCKS := blocks\<rparr>))
       (register_entry mem \<lparr>fn = func, arg = 0, dso_handle = 0\<rparr> (QUICK_BLOCKS s))"

text \<open>The loop over one block, from its last entry down; entries with a null function are skipped.\<close>

fun run_block :: "AtExit list \<Rightarrow> nat \<Rightarrow> (u64 \<times> u64) list option" where
  "run_block es 0 = Some []"
| "run_block es (Suc i) =
     (if i < length es then
        map_option (\<lambda>calls. (if fn (es ! i) = 0 then [] else [(fn (es ! i), arg (es ! i))]) @ calls)
          (run_block es i)
      else None)"

fun run_blocks :: "AtExitBlock list \<Rightarrow> (u64 \<times> u64) list option" where
  "run_blocks [] = Some []"
| "run_blocks (b # rest) =
     do { calls \<leftarrow> run_block (fns b) (nat (bsize b)); more \<leftarrow> run_blocks rest; Some (calls @ more) }"

text \<open>Afterwards every block but the initial one has been deleted and the initial one is empty.\<close>

definition reset_chain :: "AtExitBlock list \<Rightarrow> AtExitBlock list" where
  "reset_chain blocks = [(last blocks)\<lparr>bsize := 0\<rparr>]"

definition run_exit_handlers :: "exit_state \<Rightarrow> ((u64 \<times> u64) list \<times> exit_state) option" where
  "run_exit_handlers s =
     map_option (\<lambda>calls. (calls, s\<lparr>BLOCKS := reset_chain (BLOCKS s)\<rparr>)) (run_blocks (BLOCKS s))"

definition quick_exit :: "exit_state \<Rightarrow> ((u64 \<times> u64) list \<times> exit_state) option" where
  "quick_exit s =
     map_option (\<lambda>calls. (calls, s\<lparr>QUICK_BLOCKS := reset_chain (QUICK_BLOCKS s)\<rparr>)) (run_blocks (QUICK_BLOCKS s))"

subsection \<open>Well-formed chains and the handlers they hold\<close>

fun chain_wf :: "AtExitBlock list \<Rightarrow> bool" where
  "chain_wf [] \<longleftrightarrow> False"
| "chain_wf (b # rest) \<longleftrightarrow>
     length (fns b) = 8 \<and> 0 \<le> bsize b \<and> bsize b \<le> 8 \<and>
     list_all (\<lambda>c. length (fns c) = 8 \<and> bsize c = 8) rest"

text \<open>The registered entries, the most recent one first.\<close>

definition entries :: "AtExitBlock list \<Rightarrow> AtExit list" where
  "entries blocks = concat (map (\<lambda>b. rev (take (nat (bsize b)) (fns b))) blocks)"

definition calls_of :: "AtExit list \<Rightarrow> (u64 \<times> u64) list" where
  "calls_of es = map (\<lambda>e. (fn e, arg e)) (filter (\<lambda>e. fn e \<noteq> 0) es)"

lemma calls_of_append [simp]: "calls_of (xs @ ys) = calls_of xs @ calls_of ys"
  by (simp add: calls_of_def)

lemma run_block_calls: "n \<le> length es \<Longrightarrow> run_block es n = Some (calls_of (rev (take n es)))"
  by (induction n) (auto simp: take_Suc_conv_app_nth calls_of_def)

lemma run_blocks_calls:
  "list_all (\<lambda>b. nat (bsize b) \<le> length (fns b)) blocks \<Longrightarrow> run_blocks blocks = Some (calls_of (entries blocks))"
  by (induction blocks) (auto simp: run_block_calls entries_def calls_of_def)

lemma chain_wf_bounds: "chain_wf blocks \<Longrightarrow> list_all (\<lambda>b. nat (bsize b) \<le> length (fns b)) blocks"
  by (cases blocks) (auto simp: list_all_iff)

lemma register_entry_correct:
  assumes "chain_wf blocks"
  shows "\<exists>blocks'. register_entry True e blocks = Some blocks' \<and> chain_wf blocks' \<and>
    entries blocks' = e # entries blocks"
proof (cases blocks)
  case (Cons b rest)
  then have b: "length (fns b) = 8" "0 \<le> bsize b" "bsize b \<le> 8"
      "list_all (\<lambda>c. length (fns c) = 8 \<and> bsize c = 8) rest"
    using assms by auto
  show ?thesis
  proof (cases "bsize b = 8")
    case True
    then show ?thesis using Cons b
      by (simp add: register_entry_def append_entry_def INITIAL_BLOCK_def entries_def eval_nat_numeral)
  next
    case False
    then have i: "nat (bsize b) < length (fns b)" "nat (bsize b + 1) = Suc (nat (bsize b))" using b by auto
    then show ?thesis using Cons b False
      by (simp add: register_entry_def append_entry_def entries_def take_Suc_conv_app_nth take_update_swap
          list_update_append)
  qed
qed (use assms in simp)

lemma reset_chain_wf: "chain_wf blocks \<Longrightarrow> chain_wf (reset_chain blocks)"
  by (cases blocks) (auto simp: reset_chain_def list_all_iff dest: last_in_set)

lemma entries_reset: "entries (reset_chain blocks) = []"
  by (simp add: entries_def reset_chain_def)

subsection \<open>Registries of handlers\<close>

text \<open>
  What both chains promise: registering an element puts its calls in front of those already held, and a
  run makes the calls held and leaves none.
\<close>

fun register_all :: "('e \<Rightarrow> 's \<Rightarrow> (int \<times> 's) option) \<Rightarrow> 'e list \<Rightarrow> 's \<Rightarrow> 's option" where
  "register_all reg [] s = Some s"
| "register_all reg (e # es) s = do { (_, s') \<leftarrow> reg e s; register_all reg es s' }"

locale handler_registry =
  fixes reg :: "'e \<Rightarrow> 's \<Rightarrow> (int \<times> 's) option"
    and run :: "'s \<Rightarrow> ('c list \<times> 's) option"
    and calls :: "'e \<Rightarrow> 'c list"
    and held :: "'s \<Rightarrow> 'c list"
    and wf :: "'s \<Rightarrow> bool"
  assumes reg_law: "wf s \<Longrightarrow> \<exists>s'. reg e s = Some (0, s') \<and> wf s' \<and> held s' = calls e @ held s"
    and run_law: "wf s \<Longrightarrow> \<exists>s'. run s = Some (held s, s') \<and> wf s' \<and> held s' = []"
begin

lemma register_all_held:
  "wf s \<Longrightarrow> \<exists>s'. register_all reg es s = Some s' \<and> wf s' \<and> held s' = concat (map calls (rev es)) @ held s"
proof (induction es arbitrary: s)
  case (Cons e es)
  obtain s1 where s1: "reg e s = Some (0, s1)" "wf s1" "held s1 = calls e @ held s"
    using reg_law [OF Cons.prems] by blast
  then show ?case using Cons.IH [OF s1(2)] by auto
qed simp

lemma lifo:
  assumes "wf s"
  shows "\<exists>s1 s2. register_all reg es s = Some s1 \<and>
    run s1 = Some (concat (map calls (rev es)) @ held s, s2) \<and> wf s2 \<and> held s2 = []"
proof -
  obtain s1 where s1: "register_all reg es s = Some s1" "wf s1" "held s1 = concat (map calls (rev es)) @ held s"
    using register_all_held [OF assms] by blast
  then show ?thesis using run_law [OF s1(2)] by auto
qed

end

definition exit_wf :: "exit_state \<Rightarrow> bool" where
  "exit_wf s \<longleftrightarrow> chain_wf (BLOCKS s) \<and> chain_wf (QUICK_BLOCKS s)"

definition reg_entry :: "AtExit \<Rightarrow> exit_state \<Rightarrow> (int \<times> exit_state) option" where
  "reg_entry e s = cxa_atexit True (fn e) (arg e) (dso_handle e) s"

lemma entry_eta: "\<lparr>fn = fn e, arg = arg e, dso_handle = dso_handle e\<rparr> = e" for e :: AtExit
  by simp

interpretation at_exit: handler_registry reg_entry run_exit_handlers "\<lambda>e. calls_of [e]"
  "\<lambda>s. calls_of (entries (BLOCKS s))" exit_wf
proof
  fix s e
  assume "exit_wf s"
  then obtain bs where "register_entry True e (BLOCKS s) = Some bs" "chain_wf bs" "entries bs = e # entries (BLOCKS s)"
    using register_entry_correct [of "BLOCKS s" e] by (auto simp: exit_wf_def)
  with \<open>exit_wf s\<close> show "\<exists>s'. reg_entry e s = Some (0, s') \<and> exit_wf s' \<and>
      calls_of (entries (BLOCKS s')) = calls_of [e] @ calls_of (entries (BLOCKS s))"
    by (auto simp: reg_entry_def cxa_atexit_def exit_wf_def calls_of_def entry_eta)
next
  fix s
  assume "exit_wf s"
  then show "\<exists>s'. run_exit_handlers s = Some (calls_of (entries (BLOCKS s)), s') \<and> exit_wf s' \<and>
      calls_of (entries (BLOCKS s')) = []"
    by (auto simp: run_exit_handlers_def exit_wf_def run_blocks_calls chain_wf_bounds reset_chain_wf
        entries_reset calls_of_def)
qed

interpretation at_quick: handler_registry "at_quick_exit True" quick_exit "\<lambda>f. if f = 0 then [] else [(f, 0)]"
  "\<lambda>s. calls_of (entries (QUICK_BLOCKS s))" exit_wf
proof
  fix s f
  assume "exit_wf s"
  then obtain bs where "register_entry True \<lparr>fn = f, arg = 0, dso_handle = 0\<rparr> (QUICK_BLOCKS s) = Some bs" "chain_wf bs"
      "entries bs = \<lparr>fn = f, arg = 0, dso_handle = 0\<rparr> # entries (QUICK_BLOCKS s)"
    using register_entry_correct [of "QUICK_BLOCKS s"] by (auto simp: exit_wf_def)
  with \<open>exit_wf s\<close> show "\<exists>s'. at_quick_exit True f s = Some (0, s') \<and> exit_wf s' \<and>
      calls_of (entries (QUICK_BLOCKS s')) = (if f = 0 then [] else [(f, 0)]) @ calls_of (entries (QUICK_BLOCKS s))"
    by (auto simp: at_quick_exit_def exit_wf_def calls_of_def)
next
  fix s
  assume "exit_wf s"
  then show "\<exists>s'. quick_exit s = Some (calls_of (entries (QUICK_BLOCKS s)), s') \<and> exit_wf s' \<and>
      calls_of (entries (QUICK_BLOCKS s')) = []"
    by (auto simp: quick_exit_def exit_wf_def run_blocks_calls chain_wf_bounds reset_chain_wf
        entries_reset calls_of_def)
qed

lemma initial_exit_wf: "exit_wf initial_exit_state"
  by (simp add: exit_wf_def initial_exit_state_def INITIAL_BLOCK_def)

text \<open>
  C30. Exit handlers run in the reverse order of their registration, each exactly once with its
  argument, however many are registered: any sequence of \<open>__cxa_atexit\<close> calls on a well-formed
  chain succeeds, the run at exit calls the new handlers last to first and then the earlier ones (null
  functions are skipped), and a second run calls nothing.  The same holds of \<open>at_quick_exit\<close> and
  \<open>quick_exit\<close>, on a chain of its own.
\<close>

theorem exit_handlers_run_in_reverse:
  assumes "exit_wf s"
  shows "(\<exists>s1 s2. register_all (\<lambda>e. cxa_atexit True (fn e) (arg e) (dso_handle e)) es s = Some s1 \<and>
            run_exit_handlers s1 = Some (calls_of (rev es @ entries (BLOCKS s)), s2) \<and>
            map_option fst (run_exit_handlers s2) = Some []) \<and>
         (\<exists>s1 s2. register_all (at_quick_exit True) fs s = Some s1 \<and>
            quick_exit s1 = Some (map (\<lambda>f. (f, 0)) (filter (\<lambda>f. f \<noteq> 0) (rev fs)) @ calls_of (entries (QUICK_BLOCKS s)), s2) \<and>
            map_option fst (quick_exit s2) = Some [])"
proof
  have reg: "(\<lambda>e. cxa_atexit True (fn e) (arg e) (dso_handle e)) = reg_entry"
    by (simp add: reg_entry_def fun_eq_iff)
  have calls: "concat (map (\<lambda>e. calls_of [e]) xs) = calls_of xs" for xs
    by (induction xs) (auto simp: calls_of_def)
  obtain s1 s2 where "register_all reg_entry es s = Some s1"
      "run_exit_handlers s1 = Some (calls_of (rev es @ entries (BLOCKS s)), s2)"
      "exit_wf s2" "calls_of (entries (BLOCKS s2)) = []"
    using at_exit.lifo [OF assms, of es] by (auto simp: calls)
  then show "\<exists>s1 s2. register_all (\<lambda>e. cxa_atexit True (fn e) (arg e) (dso_handle e)) es s = Some s1 \<and>
      run_exit_handlers s1 = Some (calls_of (rev es @ entries (BLOCKS s)), s2) \<and>
      map_option fst (run_exit_handlers s2) = Some []"
    unfolding reg using at_exit.run_law [of s2] by fastforce
next
  have calls: "concat (map (\<lambda>f. if f = 0 then [] else [(f, 0)]) xs) = map (\<lambda>f. (f, 0)) (filter (\<lambda>f. f \<noteq> 0) xs)"
    for xs :: "u64 list"
    by (induction xs) auto
  obtain s1 s2 where "register_all (at_quick_exit True) fs s = Some s1"
      "quick_exit s1 = Some (map (\<lambda>f. (f, 0)) (filter (\<lambda>f. f \<noteq> 0) (rev fs)) @ calls_of (entries (QUICK_BLOCKS s)), s2)"
      "exit_wf s2" "calls_of (entries (QUICK_BLOCKS s2)) = []"
    using at_quick.lifo [OF assms, of fs] by (auto simp: calls)
  then show "\<exists>s1 s2. register_all (at_quick_exit True) fs s = Some s1 \<and>
      quick_exit s1 = Some (map (\<lambda>f. (f, 0)) (filter (\<lambda>f. f \<noteq> 0) (rev fs)) @ calls_of (entries (QUICK_BLOCKS s)), s2) \<and>
      map_option fst (quick_exit s2) = Some []"
    using at_quick.run_law [of s2] by fastforce
qed

theorem exit_handlers_run_in_reverse_witness:
  "\<exists>s1 s2. register_all (at_quick_exit True) [7, 0, 9] initial_exit_state = Some s1 \<and>
     quick_exit s1 = Some ([(9, 0), (7, 0)], s2)"
proof -
  have "calls_of (entries (QUICK_BLOCKS initial_exit_state)) = []"
    by (simp add: calls_of_def entries_def initial_exit_state_def INITIAL_BLOCK_def)
  then show ?thesis
    using exit_handlers_run_in_reverse [OF initial_exit_wf, of "[]" "[7, 0, 9]"] by auto
qed

end
