(* ===== verification/Sortsearch.thy ===== *)
theory Sortsearch
  imports Cstring "HOL-Library.Multiset"
begin

text \<open>
  \<open>qsort\<close> and \<open>bsearch\<close> of \<^verbatim>\<open>src/ansi/stdlib.cpp\<close>.  The array is the list of its bytes; an
  element is a slice of \<open>sz\<close> of them, and the comparison callback is a function of the contents of the two
  elements.  \<open>None\<close> is an access outside the array.

  The comparison contract is the locale \<open>comparator\<close>: on a set of elements, swapping the arguments
  swaps the sign, and not being greater is transitive.
\<close>

subsection \<open>The functions\<close>

definition elem :: "u8 list \<Rightarrow> nat \<Rightarrow> nat \<Rightarrow> u8 list" where
  "elem buf sz j = take sz (drop (j * sz) buf)"

text \<open>The byte loop that exchanges two elements; \<open>n\<close> bytes are left, the next ones at \<open>a\<close> and \<open>b\<close>.\<close>

fun swap_bytes :: "nat \<Rightarrow> nat \<Rightarrow> nat \<Rightarrow> u8 list \<Rightarrow> u8 list option" where
  "swap_bytes 0 a b buf = Some buf"
| "swap_bytes (Suc n) a b buf =
     (if a < length buf \<and> b < length buf
      then (let tmp = buf ! a; buf' = buf[a := buf ! b] in swap_bytes n (a + 1) (b + 1) (buf'[b := tmp]))
      else None)"

text \<open>One pass; \<open>n\<close> pairs are left, the next one at the indices \<open>j\<close> and \<open>j + 1\<close>.\<close>

fun qsort_pass ::
    "(u8 list \<Rightarrow> u8 list \<Rightarrow> int) \<Rightarrow> nat \<Rightarrow> nat \<Rightarrow> nat \<Rightarrow> bool \<Rightarrow> u8 list \<Rightarrow> (bool \<times> u8 list) option" where
  "qsort_pass cmp sz 0 j changed buf = Some (changed, buf)"
| "qsort_pass cmp sz (Suc n) j changed buf =
     (if (j + 2) * sz \<le> length buf then
        (if cmp (elem buf sz j) (elem buf sz (j + 1)) > 0
         then do { buf' \<leftarrow> swap_bytes sz (j * sz) ((j + 1) * sz) buf;
                   qsort_pass cmp sz n (j + 1) True buf' }
         else qsort_pass cmp sz n (j + 1) changed buf)
      else None)"

fun qsort_rounds ::
    "(u8 list \<Rightarrow> u8 list \<Rightarrow> int) \<Rightarrow> nat \<Rightarrow> nat \<Rightarrow> nat \<Rightarrow> u8 list \<Rightarrow> u8 list option" where
  "qsort_rounds cmp cnt sz 0 buf = Some buf"
| "qsort_rounds cmp cnt sz (Suc n) buf =
     do { (changed, buf') \<leftarrow> qsort_pass cmp sz (cnt - 1) 0 False buf;
          if \<not> changed then Some buf' else qsort_rounds cmp cnt sz n buf' }"

definition qsort :: "u8 list \<Rightarrow> nat \<Rightarrow> nat \<Rightarrow> (u8 list \<Rightarrow> u8 list \<Rightarrow> int) \<Rightarrow> u8 list option" where
  "qsort buf cnt sz cmp = qsort_rounds cmp cnt sz cnt buf"

text \<open>The result of \<open>bsearch\<close> is the offset of the element found, or null.\<close>

function bsearch_loop ::
    "u8 list \<Rightarrow> u8 list \<Rightarrow> nat \<Rightarrow> (u8 list \<Rightarrow> u8 list \<Rightarrow> int) \<Rightarrow> nat \<Rightarrow> nat \<Rightarrow> nat option option" where
  "bsearch_loop key buf sz cmp lower upper =
     (if lower < upper then
        (let middle = (upper - lower) div 2 in
         if (lower + middle + 1) * sz \<le> length buf then
           (let res = cmp key (elem buf sz (lower + middle)) in
            if res < 0 then bsearch_loop key buf sz cmp lower (lower + middle)
            else if res > 0 then bsearch_loop key buf sz cmp (lower + middle + 1) upper
            else Some (Some ((lower + middle) * sz)))
         else None)
      else Some None)"
  by pat_completeness auto
termination
  by (relation "measure (\<lambda>(_, _, _, _, l, u). u - l)") (auto simp: less_imp_diff_less)

declare bsearch_loop.simps [simp del]

definition bsearch ::
    "u8 list \<Rightarrow> u8 list \<Rightarrow> nat \<Rightarrow> nat \<Rightarrow> (u8 list \<Rightarrow> u8 list \<Rightarrow> int) \<Rightarrow> nat option option" where
  "bsearch key buf cnt sz cmp = bsearch_loop key buf sz cmp 0 cnt"

subsection \<open>Elements of the array\<close>

lemma length_concat_const: "\<forall>x \<in> set us. length x = sz \<Longrightarrow> length (concat us) = length us * sz"
  by (induction us) auto

lemma elem_concat:
  assumes "\<forall>x \<in> set us. length x = sz" and "length x = sz"
  shows "elem (concat (us @ x # xs)) sz (length us) = x"
proof -
  have "length (concat us) = length us * sz" by (rule length_concat_const [OF assms(1)])
  then show ?thesis using assms(2) by (simp add: elem_def)
qed

lemma swap_bytes_blocks:
  "length x = n \<Longrightarrow> length y = n \<Longrightarrow>
   swap_bytes n (length p) (length p + n + length m) (p @ x @ m @ y @ q) = Some (p @ y @ m @ x @ q)"
proof (induction n arbitrary: p x m y q)
  case (Suc n)
  then obtain a x' b y' where x: "x = a # x'" "length x' = n" and y: "y = b # y'" "length y' = n"
    by (auto simp: length_Suc_conv)
  have "swap_bytes n (length (p @ [b])) (length (p @ [b]) + n + length (m @ [a])) ((p @ [b]) @ x' @ (m @ [a]) @ y' @ q) =
      Some ((p @ [b]) @ y' @ (m @ [a]) @ x' @ q)"
    by (rule Suc.IH) (use x y in auto)
  moreover have "(p @ x @ m @ y @ q) ! (length p + Suc n + length m) = b"
    using x y by (simp add: nth_append)
  moreover have "((p @ x @ m @ y @ q)[length p := b])[length p + Suc n + length m := a] =
      (p @ [b]) @ x' @ (m @ [a]) @ y' @ q"
    using x y by (simp add: list_update_append)
  ultimately show ?case using x y by (simp add: Let_def)
qed simp

text \<open>A pass on the list of elements.\<close>

fun bubble :: "('a \<Rightarrow> 'a \<Rightarrow> int) \<Rightarrow> 'a list \<Rightarrow> 'a list" where
  "bubble cmp (x # y # xs) =
     (if cmp x y > 0 then y # bubble cmp (x # xs) else x # bubble cmp (y # xs))"
| "bubble cmp xs = xs"

fun in_order :: "('a \<Rightarrow> 'a \<Rightarrow> int) \<Rightarrow> 'a list \<Rightarrow> bool" where
  "in_order cmp (x # y # xs) \<longleftrightarrow> cmp x y \<le> 0 \<and> in_order cmp (y # xs)"
| "in_order cmp xs \<longleftrightarrow> True"

lemma bubble_length [simp]: "length (bubble cmp xs) = length xs"
  by (induction cmp xs rule: bubble.induct) auto

lemma bubble_mset: "mset (bubble cmp xs) = mset xs"
  by (induction cmp xs rule: bubble.induct) auto

lemma bubble_set: "set (bubble cmp xs) = set xs"
  using mset_eq_setD [OF bubble_mset] by metis

lemma bubble_in_order: "in_order cmp xs \<Longrightarrow> bubble cmp xs = xs"
  by (induction cmp xs rule: bubble.induct) auto

lemma qsort_pass_bubble:
  assumes "\<forall>x \<in> set us. length x = sz" and "\<forall>x \<in> set xs. length x = sz" and "length xs = Suc n"
  shows "\<exists>c. qsort_pass cmp sz n (length us) changed (concat (us @ xs)) = Some (c, concat (us @ bubble cmp xs)) \<and>
    (c \<longleftrightarrow> changed \<or> \<not> in_order cmp xs)"
  using assms
proof (induction n arbitrary: us xs changed)
  case 0
  then obtain x where "xs = [x]" by (auto simp: length_Suc_conv)
  then show ?case by simp
next
  case (Suc n)
  then obtain x y zs where xs: "xs = x # y # zs" "length zs = n" by (auto simp: length_Suc_conv)
  let ?buf = "concat (us @ x # y # zs)"
  have len: "length x = sz" "length y = sz" "length (concat us) = length us * sz"
    using Suc.prems(1,2) xs(1) length_concat_const [of us sz] by auto
  have e: "elem ?buf sz (length us) = x" "elem ?buf sz (length us + 1) = y"
    using elem_concat [of us sz x "y # zs"] elem_concat [of "us @ [x]" sz y zs] Suc.prems(1) len by auto
  have in_range: "(length us + 2) * sz \<le> length ?buf" using len by (simp add: algebra_simps)
  show ?case
  proof (cases "cmp x y > 0")
    case True
    have "swap_bytes sz (length us * sz) ((length us + 1) * sz) ?buf = Some (concat ((us @ [y]) @ x # zs))"
      using swap_bytes_blocks [of x sz y "concat us" "[]" "concat zs"] len by (simp add: algebra_simps)
    moreover obtain c where "qsort_pass cmp sz n (length (us @ [y])) True (concat ((us @ [y]) @ x # zs)) =
        Some (c, concat ((us @ [y]) @ bubble cmp (x # zs)))" "c"
      using Suc.IH [of "us @ [y]" "x # zs" True] Suc.prems xs len by auto
    ultimately show ?thesis using True e in_range xs(1) by (simp, blast)
  next
    case False
    obtain c where "qsort_pass cmp sz n (length (us @ [x])) changed (concat ((us @ [x]) @ y # zs)) =
        Some (c, concat ((us @ [x]) @ bubble cmp (y # zs)))" "c \<longleftrightarrow> changed \<or> \<not> in_order cmp (y # zs)"
      using Suc.IH [of "us @ [x]" "y # zs" changed] Suc.prems xs len by auto
    then show ?thesis using False e in_range xs(1) by simp
  qed
qed

lemma funpow_bubble_in_order: "in_order cmp xs \<Longrightarrow> (bubble cmp ^^ n) xs = xs"
  by (induction n) (auto simp: bubble_in_order)

lemma qsort_rounds_bubble:
  "\<forall>x \<in> set xs. length x = sz \<Longrightarrow> length xs = Suc k \<Longrightarrow>
   qsort_rounds cmp (Suc k) sz n (concat xs) = Some (concat ((bubble cmp ^^ n) xs))"
proof (induction n arbitrary: xs)
  case (Suc n)
  obtain c where c: "qsort_pass cmp sz k 0 False (concat xs) = Some (c, concat (bubble cmp xs))"
      "c \<longleftrightarrow> \<not> in_order cmp xs"
    using qsort_pass_bubble [of "[]" sz xs k cmp False] Suc.prems by auto
  show ?case
  proof (cases "in_order cmp xs")
    case True
    then show ?thesis using c funpow_bubble_in_order [of cmp xs "Suc n"]
      by (simp add: bubble_in_order del: funpow.simps)
  next
    case False
    then show ?thesis using c Suc.IH [of "bubble cmp xs"] Suc.prems
      by (simp add: bubble_set funpow_swap1)
  qed
qed simp

lemma qsort_bubble:
  assumes "\<forall>x \<in> set xs. length x = sz"
  shows "qsort (concat xs) (length xs) sz cmp = Some (concat ((bubble cmp ^^ length xs) xs))"
proof (cases xs)
  case (Cons x zs)
  then show ?thesis using qsort_rounds_bubble [OF assms, of "length zs" cmp "length xs"]
    by (simp add: qsort_def)
qed (simp add: qsort_def)

subsection \<open>Slicing an array into its elements\<close>

definition chunks :: "u8 list \<Rightarrow> nat \<Rightarrow> nat \<Rightarrow> u8 list list" where
  "chunks buf sz n = map (elem buf sz) [0..<n]"

lemma chunks_length [simp]: "length (chunks buf sz n) = n"
  by (simp add: chunks_def)

lemma chunks_Suc: "chunks buf sz (Suc n) = chunks buf sz n @ [elem buf sz n]"
  by (simp add: chunks_def)

lemma chunks_concat_take: "n * sz \<le> length buf \<Longrightarrow> concat (chunks buf sz n) = take (n * sz) buf"
proof (induction n)
  case (Suc n)
  then have "concat (chunks buf sz (Suc n)) = take (n * sz) buf @ take sz (drop (n * sz) buf)"
    by (simp add: chunks_Suc elem_def)
  also have "\<dots> = take (n * sz + sz) buf" by (simp only: take_add)
  finally show ?case by (simp add: add.commute)
qed (simp add: chunks_def)

lemma chunks_concat: "length buf = n * sz \<Longrightarrow> concat (chunks buf sz n) = buf"
  by (simp add: chunks_concat_take)

lemma chunks_elem_length:
  assumes "length buf = n * sz" and "x \<in> set (chunks buf sz n)"
  shows "length x = sz"
proof -
  obtain j where j: "j < n" "x = elem buf sz j" using assms(2) by (auto simp: chunks_def)
  then have "Suc j * sz \<le> n * sz" by (intro mult_le_mono1) simp
  then show ?thesis using j assms(1) by (simp add: elem_def)
qed

lemma chunks_of_concat:
  assumes "\<forall>x \<in> set xs. length x = sz"
  shows "chunks (concat xs) sz (length xs) = xs"
proof (rule nth_equalityI)
  fix j assume "j < length (chunks (concat xs) sz (length xs))"
  then have j: "j < length xs" by simp
  have "xs = take j xs @ xs ! j # drop (Suc j) xs" using j by (rule id_take_nth_drop)
  then have "elem (concat xs) sz j = xs ! j"
    using elem_concat [of "take j xs" sz "xs ! j" "drop (Suc j) xs"] assms j
    by (metis in_set_takeD length_take less_imp_le min.absorb2 nth_mem)
  then show "chunks (concat xs) sz (length xs) ! j = xs ! j" using j by (simp add: chunks_def)
qed simp

subsection \<open>The comparison contract\<close>

locale comparator =
  fixes cmp :: "'a \<Rightarrow> 'a \<Rightarrow> int" and S :: "'a set"
  assumes sign: "a \<in> S \<Longrightarrow> b \<in> S \<Longrightarrow> cmp a b > 0 \<longleftrightarrow> cmp b a < 0"
    and le_trans: "a \<in> S \<Longrightarrow> b \<in> S \<Longrightarrow> c \<in> S \<Longrightarrow> cmp a b \<le> 0 \<Longrightarrow> cmp b c \<le> 0 \<Longrightarrow> cmp a c \<le> 0"
begin

lemma gt_le: "a \<in> S \<Longrightarrow> b \<in> S \<Longrightarrow> cmp a b > 0 \<Longrightarrow> cmp b a \<le> 0"
  using sign [of a b] by simp

lemma le_refl: "a \<in> S \<Longrightarrow> cmp a a \<le> 0"
  using sign [of a a] by (cases "cmp a a > 0") auto

lemma eq_sym: "a \<in> S \<Longrightarrow> b \<in> S \<Longrightarrow> cmp a b = 0 \<Longrightarrow> cmp b a = 0"
  using sign [of a b] sign [of b a] by linarith

lemma in_order_sorted:
  "set xs \<subseteq> S \<Longrightarrow> in_order cmp xs \<Longrightarrow> sorted_wrt (\<lambda>a b. cmp a b \<le> 0) xs"
proof (induction xs rule: induct_list012)
  case (3 x y zs)
  then have IH: "sorted_wrt (\<lambda>a b. cmp a b \<le> 0) (y # zs)" and xy: "cmp x y \<le> 0" by auto
  have "cmp x z \<le> 0" if "z \<in> set zs" for z
    using le_trans [of x y z] IH xy that "3.prems"(1) by auto
  then show ?case using IH xy by auto
qed auto

lemma sorted_in_order: "sorted_wrt (\<lambda>a b. cmp a b \<le> 0) xs \<Longrightarrow> in_order cmp xs"
  by (induction xs rule: induct_list012) auto

lemma bubble_split:
  "xs \<noteq> [] \<Longrightarrow> set xs \<subseteq> S \<Longrightarrow> \<exists>us m. bubble cmp xs = us @ [m] \<and> (\<forall>u \<in> set us. cmp u m \<le> 0)"
proof (induction "length xs" arbitrary: xs rule: less_induct)
  case less
  have le_max: "cmp a m \<le> 0" if "a \<in> set us \<union> {m}" "\<forall>u \<in> set us. cmp u m \<le> 0" "m \<in> S" for a m us
    using that le_refl by auto
  consider x where "xs = [x]" | x y zs where "xs = x # y # zs"
    using less.prems(1) by (cases xs rule: remdups_adj.cases) auto
  then show ?case
  proof cases
    case (2 x y zs)
    define a b where "a = (if cmp x y > 0 then y else x)" and "b = (if cmp x y > 0 then x else y)"
    have step: "bubble cmp xs = a # bubble cmp (b # zs)" and ab: "cmp a b \<le> 0" "a \<in> S" "b \<in> S"
      using 2 less.prems(2) gt_le [of x y] by (auto simp: a_def b_def)
    obtain us m where um: "bubble cmp (b # zs) = us @ [m]" "\<forall>u \<in> set us. cmp u m \<le> 0"
      using less.hyps [of "b # zs"] 2 less.prems(2) ab by auto
    have sub: "set us \<union> {m} = set (b # zs)" using bubble_set [of cmp "b # zs"] um(1) by auto
    then have m: "m \<in> S" using ab 2 less.prems(2) by auto
    have "cmp b m \<le> 0" by (rule le_max [of b us, OF _ um(2) m]) (use sub in auto)
    then have "cmp a m \<le> 0" using le_trans [of a b m] ab m by auto
    then show ?thesis using step um by (intro exI [of _ "a # us"] exI [of _ m]) auto
  qed auto
qed

lemma bubble_append:
  "us \<noteq> [] \<Longrightarrow> sorted_wrt (\<lambda>a b. cmp a b \<le> 0) vs \<Longrightarrow> \<forall>u \<in> set us. \<forall>v \<in> set vs. cmp u v \<le> 0 \<Longrightarrow>
   bubble cmp (us @ vs) = bubble cmp us @ vs"
proof (induction "length us" arbitrary: us rule: less_induct)
  case less
  consider x where "us = [x]" | x y zs where "us = x # y # zs"
    using less.prems(1) by (cases us rule: remdups_adj.cases) auto
  then show ?case
  proof cases
    case (1 x)
    then have "sorted_wrt (\<lambda>a b. cmp a b \<le> 0) (x # vs)" using less.prems by auto
    then show ?thesis using 1 bubble_in_order [OF sorted_in_order] by simp
  next
    case (2 x y zs)
    have "bubble cmp ((b # zs) @ vs) = bubble cmp (b # zs) @ vs" if "b \<in> {x, y}" for b
      using less.hyps [of "b # zs"] less.prems 2 that by auto
    then show ?thesis using 2 by auto
  qed
qed

lemma bubble_iter_sorts:
  assumes "set xs \<subseteq> S" and "i \<le> length xs"
  shows "\<exists>us vs. (bubble cmp ^^ i) xs = us @ vs \<and> length vs = i \<and> set (us @ vs) = set xs \<and>
    sorted_wrt (\<lambda>a b. cmp a b \<le> 0) vs \<and> (\<forall>u \<in> set us. \<forall>v \<in> set vs. cmp u v \<le> 0)"
  using assms(2)
proof (induction i)
  case (Suc i)
  then obtain us vs where uv: "(bubble cmp ^^ i) xs = us @ vs" "length vs = i" "set (us @ vs) = set xs"
      "sorted_wrt (\<lambda>a b. cmp a b \<le> 0) vs" "\<forall>u \<in> set us. \<forall>v \<in> set vs. cmp u v \<le> 0"
    by auto
  have "length ((bubble cmp ^^ i) xs) = length xs" by (induction i) auto
  then have ne: "us \<noteq> []" using uv(1,2) Suc.prems by auto
  obtain us' m where m: "bubble cmp us = us' @ [m]" "\<forall>u \<in> set us'. cmp u m \<le> 0"
    using bubble_split [OF ne] uv(3) assms(1) by auto
  have "set (us' @ [m]) = set us" using bubble_set [of cmp us] m(1) by simp
  then have sub: "m \<in> set us" "set us' \<subseteq> set us" "set (us' @ m # vs) = set (us @ vs)" by auto
  have "(bubble cmp ^^ Suc i) xs = us' @ m # vs"
    using bubble_append [OF ne uv(4,5)] uv(1) m(1) by simp
  moreover have "sorted_wrt (\<lambda>a b. cmp a b \<le> 0) (m # vs)" using uv(4,5) sub(1) by auto
  moreover have "\<forall>u \<in> set us'. \<forall>v \<in> set (m # vs). cmp u v \<le> 0" using m(2) uv(5) sub(2) by auto
  ultimately show ?case using uv(2,3) sub(3)
    by (intro exI [of _ us'] exI [of _ "m # vs"]) auto
qed auto

lemma bubble_all_sorted:
  assumes "set xs \<subseteq> S"
  shows "sorted_wrt (\<lambda>a b. cmp a b \<le> 0) ((bubble cmp ^^ length xs) xs)"
proof -
  have "length ((bubble cmp ^^ i) xs) = length xs" for i by (induction i) auto
  then show ?thesis using bubble_iter_sorts [OF assms order_refl] by (metis append_Nil diff_add_inverse2 length_0_conv length_append self_append_conv2)
qed

lemma bubble_stable:
  assumes "z \<in> S"
  shows "set xs \<subseteq> S \<Longrightarrow> filter (\<lambda>y. cmp z y = 0) (bubble cmp xs) = filter (\<lambda>y. cmp z y = 0) xs"
proof (induction "length xs" arbitrary: xs rule: less_induct)
  case less
  show ?case
  proof (cases xs rule: remdups_adj.cases)
    case (3 x y zs)
    then have xy: "x \<in> S" "y \<in> S" using less.prems by auto
    have "\<not> (cmp z x = 0 \<and> cmp z y = 0)" if "cmp x y > 0"
      using le_trans [of x z y] eq_sym [of z x] assms xy that by auto
    then show ?thesis using 3 less.hyps [of "x # zs"] less.hyps [of "y # zs"] less.prems by auto
  qed auto
qed

lemma bubble_iter_stable:
  assumes "z \<in> S" and "set xs \<subseteq> S"
  shows "filter (\<lambda>y. cmp z y = 0) ((bubble cmp ^^ n) xs) = filter (\<lambda>y. cmp z y = 0) xs"
proof (induction n)
  case (Suc n)
  have "set ((bubble cmp ^^ n) xs) = set xs" by (induction n) (auto simp: bubble_set)
  then show ?case using bubble_stable [OF assms(1)] Suc assms(2) by simp
qed simp

end

lemma bubble_iter_mset: "mset ((bubble cmp ^^ n) xs) = mset xs"
  by (induction n) (auto simp: bubble_mset)

subsection \<open>Binary search\<close>

text \<open>
  The array is in order for a key: the elements that come before the key precede the equal ones,
  and these precede the ones that come after it.
\<close>

definition ordered_for :: "u8 list \<Rightarrow> (u8 list \<Rightarrow> u8 list \<Rightarrow> int) \<Rightarrow> u8 list list \<Rightarrow> bool" where
  "ordered_for key cmp xs \<longleftrightarrow>
     sorted_wrt (\<lambda>x y. (cmp key x < 0 \<longrightarrow> cmp key y < 0) \<and> (cmp key y > 0 \<longrightarrow> cmp key x > 0)) xs"

lemma ordered_for_nth:
  assumes "ordered_for key cmp (chunks buf sz cnt)" and "i < j" and "j < cnt"
  shows "cmp key (elem buf sz i) < 0 \<Longrightarrow> cmp key (elem buf sz j) < 0"
    and "cmp key (elem buf sz j) > 0 \<Longrightarrow> cmp key (elem buf sz i) > 0"
proof -
  have "(cmp key (chunks buf sz cnt ! i) < 0 \<longrightarrow> cmp key (chunks buf sz cnt ! j) < 0) \<and>
      (cmp key (chunks buf sz cnt ! j) > 0 \<longrightarrow> cmp key (chunks buf sz cnt ! i) > 0)"
    using assms by (simp add: ordered_for_def sorted_wrt_iff_nth_less)
  then show "cmp key (elem buf sz i) < 0 \<Longrightarrow> cmp key (elem buf sz j) < 0"
    "cmp key (elem buf sz j) > 0 \<Longrightarrow> cmp key (elem buf sz i) > 0"
    using assms(2,3) by (simp_all add: chunks_def)
qed

lemma bsearch_loop_correct:
  assumes "length buf = cnt * sz" and ord: "ordered_for key cmp (chunks buf sz cnt)"
  shows "upper \<le> cnt \<Longrightarrow> \<forall>i < lower. cmp key (elem buf sz i) > 0 \<Longrightarrow>
    \<forall>i. upper \<le> i \<and> i < cnt \<longrightarrow> cmp key (elem buf sz i) < 0 \<Longrightarrow>
    (\<exists>i < cnt. bsearch_loop key buf sz cmp lower upper = Some (Some (i * sz)) \<and> cmp key (elem buf sz i) = 0) \<or>
    bsearch_loop key buf sz cmp lower upper = Some None \<and> (\<forall>i < cnt. cmp key (elem buf sz i) \<noteq> 0)"
proof (induction "upper - lower" arbitrary: lower upper rule: less_induct)
  case less
  show ?case
  proof (cases "lower < upper")
    case False
    have "cmp key (elem buf sz i) \<noteq> 0" if "i < cnt" for i
    proof (cases "i < lower")
      case True
      then show ?thesis using less.prems(2) by force
    next
      case outside: False
      then have "upper \<le> i" using False by simp
      then show ?thesis using less.prems(3) that by force
    qed
    moreover have "bsearch_loop key buf sz cmp lower upper = Some None"
      using False by (subst bsearch_loop.simps) simp
    ultimately show ?thesis by blast
  next
    case True
    define mid where "mid = lower + (upper - lower) div 2"
    have mid: "lower \<le> mid" "mid < upper" "mid < cnt" using True less.prems(1) by (auto simp: mid_def)
    then have "Suc mid * sz \<le> length buf" unfolding assms(1) by (intro mult_le_mono1) simp
    then have step: "bsearch_loop key buf sz cmp lower upper =
        (if cmp key (elem buf sz mid) < 0 then bsearch_loop key buf sz cmp lower mid
         else if cmp key (elem buf sz mid) > 0 then bsearch_loop key buf sz cmp (mid + 1) upper
         else Some (Some (mid * sz)))"
      using True by (subst bsearch_loop.simps) (simp add: Let_def mid_def)
    consider "cmp key (elem buf sz mid) < 0" | "cmp key (elem buf sz mid) > 0" | "cmp key (elem buf sz mid) = 0"
      by linarith
    then show ?thesis
    proof cases
      case 1
      then have "\<forall>i. mid \<le> i \<and> i < cnt \<longrightarrow> cmp key (elem buf sz i) < 0"
        using ordered_for_nth(1) [OF ord, of mid] by (metis le_neq_implies_less)
      moreover have "mid - lower < upper - lower" using mid by linarith
      ultimately have "(\<exists>i < cnt. bsearch_loop key buf sz cmp lower mid = Some (Some (i * sz)) \<and> cmp key (elem buf sz i) = 0) \<or>
          bsearch_loop key buf sz cmp lower mid = Some None \<and> (\<forall>i < cnt. cmp key (elem buf sz i) \<noteq> 0)"
        using less.hyps [of mid lower] mid less.prems(2) by simp
      then show ?thesis unfolding step using 1 by simp
    next
      case 2
      then have "\<forall>i < mid + 1. cmp key (elem buf sz i) > 0"
        using ordered_for_nth(2) [OF ord, of _ mid] mid by (metis less_Suc_eq Suc_eq_plus1)
      moreover have "upper - (mid + 1) < upper - lower" using mid by linarith
      ultimately have "(\<exists>i < cnt. bsearch_loop key buf sz cmp (mid + 1) upper = Some (Some (i * sz)) \<and> cmp key (elem buf sz i) = 0) \<or>
          bsearch_loop key buf sz cmp (mid + 1) upper = Some None \<and> (\<forall>i < cnt. cmp key (elem buf sz i) \<noteq> 0)"
        using less.hyps [of upper "mid + 1"] less.prems(1,3) by blast
      then show ?thesis unfolding step using 2 by simp
    next
      case 3
      then show ?thesis using step mid by auto
    qed
  qed
qed

lemma chunks_ball: "(\<exists>x \<in> set (chunks buf sz cnt). P x) \<longleftrightarrow> (\<exists>i < cnt. P (elem buf sz i))"
  by (auto simp: chunks_def)

lemma bsearch_correct:
  assumes "length buf = cnt * sz" and "ordered_for key cmp (chunks buf sz cnt)"
  shows "if \<exists>x \<in> set (chunks buf sz cnt). cmp key x = 0
    then \<exists>i < cnt. bsearch key buf cnt sz cmp = Some (Some (i * sz)) \<and> cmp key (elem buf sz i) = 0
    else bsearch key buf cnt sz cmp = Some None"
  using bsearch_loop_correct [OF assms, of cnt 0] unfolding bsearch_def chunks_ball by auto

subsection \<open>A comparator of the library: memcmp on blocks\<close>

definition block_memcmp :: "nat \<Rightarrow> u8 list \<Rightarrow> u8 list \<Rightarrow> int" where
  "block_memcmp n a b = (case memcmp (mem_of 0 (a @ b)) 0 (length a) n of Some r \<Rightarrow> r | None \<Rightarrow> 0)"

lemma block_memcmp_eq:
  assumes "length a = n" and "length b = n"
  shows "block_memcmp n a b = first_diff (\<lambda>x y. uint x - uint y) a b"
proof -
  have "cells_at (mem_of 0 (a @ b)) 0 a" "cells_at (mem_of 0 (a @ b)) (length a) b"
    using cells_at_mem_of [of 0 "a @ b"] by (simp_all add: cells_at_append)
  then show ?thesis using memcmp_cells [of _ 0 a "length a" b] assms by (simp add: block_memcmp_def)
qed

lemma first_diff_trans:
  fixes f :: "'a \<Rightarrow> int"
  shows "length a = length b \<Longrightarrow> length b = length c \<Longrightarrow> first_diff (\<lambda>x y. f x - f y) a b \<le> 0 \<Longrightarrow>
    first_diff (\<lambda>x y. f x - f y) b c \<le> 0 \<Longrightarrow> first_diff (\<lambda>x y. f x - f y) a c \<le> 0"
proof (induction a b arbitrary: c rule: list_induct2)
  case (Cons x xs y ys)
  then obtain z zs where c: "c = z # zs" "length ys = length zs" by (cases c) auto
  show ?case using Cons.IH [OF c(2)] Cons.prems(2,3) unfolding c(1) by (auto split: if_splits)
qed simp

lemma block_memcmp_sign:
  assumes "length a = n" and "length b = n"
  shows "block_memcmp n a b > 0 \<longleftrightarrow> block_memcmp n b a < 0"
proof -
  have "first_diff (\<lambda>x y. uint x - uint y) b a = - first_diff (\<lambda>x y. uint x - uint y) a b"
    by (rule first_diff_antisym) simp
  then show ?thesis
    unfolding block_memcmp_eq [OF assms] block_memcmp_eq [OF assms(2,1)] by linarith
qed

lemma block_memcmp_trans:
  assumes "length a = n" and "length b = n" and "length c = n"
    and "block_memcmp n a b \<le> 0" and "block_memcmp n b c \<le> 0"
  shows "block_memcmp n a c \<le> 0"
  using assms(4,5) first_diff_trans [of a b c uint] assms(1-3)
  unfolding block_memcmp_eq [OF assms(1,2)] block_memcmp_eq [OF assms(2,3)] block_memcmp_eq [OF assms(1,3)]
  by simp

interpretation memcmp_order: comparator "block_memcmp n" "{a. length a = n}" for n
proof
  fix a b c :: "u8 list"
  assume a: "a \<in> {a. length a = n}" and b: "b \<in> {a. length a = n}"
  then show "(block_memcmp n a b > 0) = (block_memcmp n b a < 0)"
    by (intro block_memcmp_sign) auto
  assume "c \<in> {a. length a = n}" and "block_memcmp n a b \<le> 0" and "block_memcmp n b c \<le> 0"
  then show "block_memcmp n a c \<le> 0"
    by (intro block_memcmp_trans [of a n b c]) (use a b in auto)
qed

lemma qsort_correct:
  assumes "length buf = cnt * sz" and "set (chunks buf sz cnt) \<subseteq> S" and C: "comparator cmp S"
  shows "\<exists>buf'. qsort buf cnt sz cmp = Some buf' \<and> length buf' = length buf \<and>
    mset (chunks buf' sz cnt) = mset (chunks buf sz cnt) \<and>
    sorted_wrt (\<lambda>a b. cmp a b \<le> 0) (chunks buf' sz cnt) \<and>
    (\<forall>z \<in> S. filter (\<lambda>y. cmp z y = 0) (chunks buf' sz cnt) = filter (\<lambda>y. cmp z y = 0) (chunks buf sz cnt))"
proof -
  let ?xs = "chunks buf sz cnt" and ?ys = "(bubble cmp ^^ cnt) (chunks buf sz cnt)"
  have len: "\<forall>x \<in> set ?xs. length x = sz" using chunks_elem_length [OF assms(1)] by blast
  have m: "mset ?ys = mset ?xs" by (rule bubble_iter_mset)
  then have ys: "\<forall>x \<in> set ?ys. length x = sz" "length ?ys = cnt"
    using len mset_eq_setD [OF m] mset_eq_length [OF m] by auto
  have q: "qsort buf cnt sz cmp = Some (concat ?ys)"
    using qsort_bubble [OF len, of cmp] chunks_concat [OF assms(1)] by simp
  have c: "chunks (concat ?ys) sz cnt = ?ys" using chunks_of_concat [OF ys(1)] ys(2) by simp
  have s: "sorted_wrt (\<lambda>a b. cmp a b \<le> 0) ?ys"
    using comparator.bubble_all_sorted [OF C assms(2)] by simp
  have l: "length (concat ?ys) = length buf"
    using length_concat_const [OF ys(1)] ys(2) assms(1) by simp
  have st: "\<forall>z \<in> S. filter (\<lambda>y. cmp z y = 0) ?ys = filter (\<lambda>y. cmp z y = 0) ?xs"
    using comparator.bubble_iter_stable [OF C _ assms(2)] by blast
  show ?thesis by (intro exI [of _ "concat ?ys"] conjI) (use q c l m s st in \<open>simp_all only:\<close>)
qed

context comparator
begin

lemma ordered_for_sorted:
  assumes "key \<in> S" and "set xs \<subseteq> S" and "sorted_wrt (\<lambda>a b. cmp a b \<le> 0) xs"
  shows "sorted_wrt (\<lambda>x y. (cmp key x < 0 \<longrightarrow> cmp key y < 0) \<and> (cmp key y > 0 \<longrightarrow> cmp key x > 0)) xs"
proof (rule sorted_wrt_mono_rel [OF _ assms(3)])
  fix x y
  assume "x \<in> set xs" "y \<in> set xs" and xy: "cmp x y \<le> 0"
  then have S: "x \<in> S" "y \<in> S" using assms(2) by auto
  have "cmp key y < 0" if "cmp key x < 0"
  proof (rule ccontr)
    assume "\<not> cmp key y < 0"
    then have "cmp y key \<le> 0" using sign [of y key] S(2) assms(1) by linarith
    then have "cmp x key \<le> 0" using le_trans [OF S assms(1) xy] by blast
    then show False using that sign [of x key] S(1) assms(1) by linarith
  qed
  moreover have "cmp key x > 0" if "cmp key y > 0"
  proof (rule ccontr)
    assume "\<not> cmp key x > 0"
    then have "cmp key y \<le> 0" using le_trans [OF assms(1) S _ xy] by linarith
    then show False using that by linarith
  qed
  ultimately show "(cmp key x < 0 \<longrightarrow> cmp key y < 0) \<and> (cmp key y > 0 \<longrightarrow> cmp key x > 0)" by blast
qed

end

subsection \<open>Properties\<close>

text \<open>
  C3. For a comparison that is a total preorder on the elements, \<open>qsort\<close> stays inside the array and
  returns with the elements rearranged into ascending order.  The result is a permutation of
  the input, and elements that compare equal keep their order.
\<close>

theorem qsort_sorts_stably:
  assumes "length buf = cnt * sz" and "set (chunks buf sz cnt) \<subseteq> S"
    and "\<And>a b. a \<in> S \<Longrightarrow> b \<in> S \<Longrightarrow> cmp a b > 0 \<longleftrightarrow> cmp b a < 0"
    and "\<And>a b c. a \<in> S \<Longrightarrow> b \<in> S \<Longrightarrow> c \<in> S \<Longrightarrow> cmp a b \<le> 0 \<Longrightarrow> cmp b c \<le> 0 \<Longrightarrow> cmp a c \<le> 0"
  shows "\<exists>buf'. qsort buf cnt sz cmp = Some buf' \<and> length buf' = length buf \<and>
    mset (chunks buf' sz cnt) = mset (chunks buf sz cnt) \<and>
    sorted_wrt (\<lambda>a b. cmp a b \<le> 0) (chunks buf' sz cnt) \<and>
    (\<forall>z \<in> S. filter (\<lambda>y. cmp z y = 0) (chunks buf' sz cnt) = filter (\<lambda>y. cmp z y = 0) (chunks buf sz cnt))"
  by (rule qsort_correct [OF assms(1,2) comparator.intro [OF assms(3,4)]])

theorem qsort_sorts_stably_witness:
  "\<exists>buf'. qsort [2, 9, 1, 7, 2, 3] 3 2 (block_memcmp 2) = Some buf' \<and> length buf' = 6 \<and>
     sorted_wrt (\<lambda>a b. block_memcmp 2 a b \<le> 0) (chunks buf' 2 3)"
proof -
  have "\<exists>buf'. qsort [2, 9, 1, 7, 2, 3] 3 2 (block_memcmp 2) = Some buf' \<and>
      length buf' = length [2, 9, 1, 7, 2, 3 :: u8] \<and>
      mset (chunks buf' 2 3) = mset (chunks [2, 9, 1, 7, 2, 3] 2 3) \<and>
      sorted_wrt (\<lambda>a b. block_memcmp 2 a b \<le> 0) (chunks buf' 2 3) \<and>
      (\<forall>z \<in> {a. length a = 2}. filter (\<lambda>y. block_memcmp 2 z y = 0) (chunks buf' 2 3) =
         filter (\<lambda>y. block_memcmp 2 z y = 0) (chunks [2, 9, 1, 7, 2, 3] 2 3))"
  proof (rule qsort_sorts_stably [where S = "{a. length a = 2}"])
    show "set (chunks [2, 9, 1, 7, 2, 3] 2 3) \<subseteq> {a. length a = 2}"
      using chunks_elem_length [of "[2, 9, 1, 7, 2, 3]" 3 2] by auto
  qed ((rule memcmp_order.sign memcmp_order.le_trans; assumption) | simp)+
  then show ?thesis by auto
qed

text \<open>
  \<open>bsearch\<close> on an array that is ordered for the key finds an element that compares equal whenever there
  is one and returns null otherwise, without reading outside the array.
\<close>

theorem bsearch_finds_iff_present:
  assumes "length buf = cnt * sz" and "ordered_for key cmp (chunks buf sz cnt)"
  shows "if \<exists>x \<in> set (chunks buf sz cnt). cmp key x = 0
    then \<exists>i < cnt. bsearch key buf cnt sz cmp = Some (Some (i * sz)) \<and> cmp key (elem buf sz i) = 0
    else bsearch key buf cnt sz cmp = Some None"
  by (rule bsearch_correct [OF assms])

theorem bsearch_finds_iff_present_witness:
  "\<exists>i < 3. bsearch [2] [1, 2, 5] 3 1 (block_memcmp 1) = Some (Some (i * 1)) \<and>
     block_memcmp 1 [2] (elem [1, 2, 5] 1 i) = 0"
proof -
  have "ordered_for [2] (block_memcmp 1) (chunks [1, 2, 5] 1 3)" by code_simp
  moreover have "\<exists>x \<in> set (chunks [1, 2, 5] 1 3). block_memcmp 1 [2] x = 0" by code_simp
  ultimately show ?thesis using bsearch_finds_iff_present [of "[1, 2, 5]" 3 1 "[2]" "block_memcmp 1"] by simp
qed

text \<open>
  C20. The two work together: after \<open>qsort\<close>, \<open>bsearch\<close> with the same comparison returns, when an element
  that compares equal to the key was in the array before sorting, the address of such an element in
  the sorted array, and otherwise null.
\<close>

theorem bsearch_after_qsort:
  assumes "length buf = cnt * sz" and "set (chunks buf sz cnt) \<subseteq> S" and "key \<in> S"
    and "\<And>a b. a \<in> S \<Longrightarrow> b \<in> S \<Longrightarrow> cmp a b > 0 \<longleftrightarrow> cmp b a < 0"
    and "\<And>a b c. a \<in> S \<Longrightarrow> b \<in> S \<Longrightarrow> c \<in> S \<Longrightarrow> cmp a b \<le> 0 \<Longrightarrow> cmp b c \<le> 0 \<Longrightarrow> cmp a c \<le> 0"
  shows "\<exists>buf'. qsort buf cnt sz cmp = Some buf' \<and>
    (if \<exists>x \<in> set (chunks buf sz cnt). cmp key x = 0
     then \<exists>i < cnt. bsearch key buf' cnt sz cmp = Some (Some (i * sz)) \<and> cmp key (elem buf' sz i) = 0 \<and>
       elem buf' sz i \<in> set (chunks buf sz cnt)
     else bsearch key buf' cnt sz cmp = Some None)"
proof -
  have C: "comparator cmp S" by (rule comparator.intro [OF assms(4,5)])
  obtain buf' where b: "qsort buf cnt sz cmp = Some buf'" "length buf' = length buf"
      "mset (chunks buf' sz cnt) = mset (chunks buf sz cnt)"
      "sorted_wrt (\<lambda>a b. cmp a b \<le> 0) (chunks buf' sz cnt)"
    using qsort_correct [OF assms(1,2) C] by blast
  have set: "set (chunks buf' sz cnt) = set (chunks buf sz cnt)" by (rule mset_eq_setD [OF b(3)])
  then have "ordered_for key cmp (chunks buf' sz cnt)"
    using comparator.ordered_for_sorted [OF C assms(3) _ b(4)] assms(2) by (simp add: ordered_for_def)
  note found = bsearch_correct [of buf' cnt sz key cmp, OF _ this]
  have "elem buf' sz i \<in> set (chunks buf sz cnt)" if "i < cnt" for i
    using that unfolding set [symmetric] by (auto simp: chunks_def)
  then show ?thesis using found b(1,2) assms(1) unfolding set by (auto split: if_splits)
qed

theorem bsearch_after_qsort_witness:
  "\<exists>buf' i. qsort [2, 9, 1, 7] 4 1 (block_memcmp 1) = Some buf' \<and> bsearch [9] buf' 4 1 (block_memcmp 1) = Some (Some i) \<and>
    block_memcmp 1 [9] (elem buf' 1 i) = 0"
proof -
  let ?xs = "[2, 9, 1, 7] :: u8 list"
  have "\<exists>buf'. qsort ?xs 4 1 (block_memcmp 1) = Some buf' \<and>
      (if \<exists>x \<in> set (chunks ?xs 1 4). block_memcmp 1 [9] x = 0
       then \<exists>i < 4. bsearch [9] buf' 4 1 (block_memcmp 1) = Some (Some (i * 1)) \<and> block_memcmp 1 [9] (elem buf' 1 i) = 0 \<and>
         elem buf' 1 i \<in> set (chunks ?xs 1 4)
       else bsearch [9] buf' 4 1 (block_memcmp 1) = Some None)"
  proof (rule bsearch_after_qsort [where S = "{a. length a = 1}"])
    show "set (chunks ?xs 1 4) \<subseteq> {a. length a = 1}" using chunks_elem_length [of ?xs 4 1] by auto
  qed ((rule memcmp_order.sign memcmp_order.le_trans; assumption) | simp)+
  moreover have "\<exists>x \<in> set (chunks ?xs 1 4). block_memcmp 1 [9] x = 0" by code_simp
  ultimately show ?thesis by auto
qed

end
