(* ===== verification/Spec2Isabelle.thy ===== *)
theory Spec2Isabelle
  imports Once Cond Barrier Tls_Keys Strftime Scanf Format_Int Stdio Snprintf Printf Inttypes Utf8 Wstring Chacha Semaphore Rwlock Ctype Wctype Strtoint Cstring Calendar Mutex Atexit Sortsearch
begin

text \<open>
  A verification library for hzlibc (Horizon libc), a C library written in C++.

  \<^bold>\<open>The program.\<close>  The sources are layered.  \<^verbatim>\<open>src/ansi\<close> holds the functions of ISO C, \<^verbatim>\<open>src/posix\<close>,
  \<^verbatim>\<open>src/glibc\<close>, \<^verbatim>\<open>src/bsd\<close>, \<^verbatim>\<open>src/linux\<close> and \<^verbatim>\<open>src/lsb\<close> add the functions of those interfaces,
  \<^verbatim>\<open>src/internal\<close> holds what several layers share (character tables, mutexes, threads, the ChaCha20
  generator), \<^verbatim>\<open>src/rtld\<close> is the dynamic linker, and \<^verbatim>\<open>sys\<close> the system calls of each kernel.
  String parsing calls the character classes, the wide functions call the byte functions
  and the character conversions, sorting swaps the bytes of caller memory, and the locks rest on
  one atomic word each and the kernel's futex.

  \<^bold>\<open>Conventions.\<close>  A result type \<open>'a option\<close> has \<open>None\<close> for undefined behaviour, a read or write of an
  unmapped address, a failed \<open>__ensure\<close> or a loop that does not end; errors the code reports are
  values of type \<open>errno\<close>.  Fixed-width integers are words, or integers whose range is checked by
  \<open>ck32\<close> and \<open>ck64\<close> where C leaves overflow undefined.  Plain \<open>char\<close> and \<open>wchar_t\<close> are signed,
  as on x86.  Memory is a partial function from addresses to cells.  Loops without a bound are
  \<open>partial_function (option)\<close>, so a theorem that states a result of the form \<open>Some\<close> also states that
  the loop ends; the others recurse on the count they run down.  There is no fuel.

  \<^bold>\<open>The theories.\<close>
  \<^item> \<open>Hz_Prelude\<close>: integer ranges, \<open>errno\<close>, word lemmas, reachable states, and the locale
    \<open>inductive_invariant\<close>, which the mutex, the semaphore (twice), the read-write lock, \<open>thread_once\<close>, the condition variable and
    the barrier interpret.
  \<^item> \<open>Ctype\<close> (\<^verbatim>\<open>src/internal/ctype.cpp\<close>, \<^verbatim>\<open>src/ansi/ctype.cpp\<close>): the three tables entry by entry; the class
    functions agree with the ASCII classes and the case mappings obey their laws.  \<open>Wctype\<close>
    (\<^verbatim>\<open>src/ansi/wctype.cpp\<close>): the wide classes are the ASCII classes and empty beyond.
  \<^item> \<open>Cmem\<close>, \<open>Cstring\<close> (\<^verbatim>\<open>src/ansi/string.cpp\<close> and the POSIX and GNU additions): copying, comparison,
    search and splitting, with the locales \<open>zero_scan\<close>, \<open>zero_copy\<close>, \<open>bounded_zero_copy\<close> and
    \<open>zero_compare\<close> for the loops that several functions share.  \<open>Wstring\<close> (\<^verbatim>\<open>src/ansi/wchar.cpp\<close>,
    \<^verbatim>\<open>src/posix/wchar.cpp\<close>) interprets the scan and copy locales on wide characters.
  \<^item> \<open>Utf8\<close> (\<^verbatim>\<open>src/ansi/uchar.cpp\<close>, \<^verbatim>\<open>src/ansi/wchar.cpp\<close>, \<^verbatim>\<open>src/ansi/stdlib.cpp\<close>): conversions between
    multibyte and wide characters; the round trips for one character and for strings.
  \<^item> \<open>Strtoint\<close> (\<^verbatim>\<open>src/ansi/str_to_int.hpp\<close>, \<^verbatim>\<open>src/ansi/stdlib.cpp\<close>): the number parser for bytes and wide
    characters (locale \<open>number_chars\<close>); its value, end pointer and range errors.  \<open>Inttypes\<close>
    (\<^verbatim>\<open>src/ansi/inttypes.cpp\<close>): the separate parser of \<open>strtoumax\<close> and \<open>strtoimax\<close>, exact on decimal
    numbers, and integer arithmetic and \<open>rand\<close>.
  \<^item> \<open>Printf\<close> (\<^verbatim>\<open>src/ansi/stdio.cpp\<close>): \<open>vfprintf\<close> over an abstract sink, the state of a call being the file, the
    count, the mutex depth and the remaining arguments; every path releases the mutex (locale
    \<open>ordered_sink\<close>), and the call does to any sink that keeps its bytes what it does to a list (locale
    \<open>byte_sink\<close>).  \<open>Snprintf\<close> interprets that contract on the string file and shows the truncation rule;
    \<open>Format_Int\<close> gives the text of the integer conversions in closed form, compares it with the field of ISO C, written from the standard (\<open>iso_field\<close>),
    and reads it back with \<open>strtol\<close> and \<open>strtoul\<close>.
  \<^item> \<open>Stdio\<close> (\<^verbatim>\<open>src/ansi/stdio.cpp\<close>, \<^verbatim>\<open>src/internal/stdio_unlocked.cpp\<close>, \<^verbatim>\<open>src/posix/stdio.cpp\<close>): files with push-back
    refine a byte stream; lines, positioning, opening and closing (locale \<open>byte_source\<close>, interpreted on
    string files and proved for descriptor files).  \<open>Scanf\<close>: \<open>vfscanf\<close> over a source with push-back (locale
    \<open>peek_source\<close>); it reads decimal numbers, and what \<open>snprintf\<close> prints.
  \<^item> \<open>Calendar\<close> (\<^verbatim>\<open>src/ansi/time.cpp\<close>): \<open>gmtime_r\<close>, \<open>timegm\<close>, \<open>localtime_r\<close>, \<open>mktime\<close> and the zone
    file; round trips, normalisation, and the cases where they fail, such as dates before 1970.  \<open>Strftime\<close> (\<^verbatim>\<open>src/ansi/time.cpp\<close>,
    \<^verbatim>\<open>src/ansi/wchar.cpp\<close>, \<^verbatim>\<open>src/posix/time.cpp\<close>): \<open>strftime\<close> and \<open>wcsftime\<close> as one definition over the width of a
    character; the locale \<open>text_writer\<close>, interpreted on the caller's buffer, reduces a call to the text
    of its format.  That text is given independently of the loop, item by item (\<open>conv_text\<close>), and in closed form for \<open>asctime\<close>.
  \<^item> \<open>Sortsearch\<close> (\<^verbatim>\<open>src/ansi/stdlib.cpp\<close>): \<open>qsort\<close> sorts stably, \<open>bsearch\<close> finds what is there, and
    the one prepares for the other (locale \<open>comparator\<close>).  \<open>Atexit\<close>: the exit handlers refine a
    stack (locale \<open>handler_registry\<close>).
  \<^item> \<open>Mutex\<close> (\<^verbatim>\<open>src/internal/mutex.cpp\<close>), \<open>Semaphore\<close> (\<^verbatim>\<open>src/posix/semaphore.cpp\<close>), \<open>Rwlock\<close>
    (\<^verbatim>\<open>src/posix/pthread.cpp\<close>): step relations over any interleaving of threads, one shared
    access per step.  The mutex excludes and loses no wakeup.  The read-write lock excludes, but a
    writer that meets a reader never returns.  The semaphore conserves its units when posts are
    serial; otherwise it can duplicate a unit, and it can lose a wakeup.
  \<^item> \<open>Once\<close>, \<open>Cond\<close>, \<open>Tls_Keys\<close> (\<^verbatim>\<open>src/internal/thread.cpp\<close>) and \<open>Barrier\<close> (\<^verbatim>\<open>src/posix/pthread.cpp\<close>): \<open>thread_once\<close> runs its
    function exactly once and loses no wakeup.  A broadcast wakes every earlier waiter and a wait
    returns with the mutex, but a signal can go to a later waiter.  The keys of thread-specific data, whose
    functions are atomic under one mutex, refine a table, and an ending thread calls each destructor once.  The barrier
    lets no thread pass early when its count of threads uses it, but it can lose an arrival and then hangs.
  \<^item> \<open>Chacha\<close> (\<^verbatim>\<open>src/internal/cha_cha.cpp\<close>, \<^verbatim>\<open>src/bsd/stdlib.cpp\<close>): the block function, checked on the RFC
    8439 vector and injective in its rounds; \<open>arc4random_buf\<close> does not repeat a nonce.

  \<^bold>\<open>Assumptions about other code.\<close>  The library \<open>hz\<close> is a git submodule outside the sources.  Its
  atomics are taken to behave like the C++ ones (sequentially consistent: the weaker memory
  orders the code asks for are not modelled), and its string view comparison is a parameter of
  \<open>wctype\<close>.  \<open>hz::to_integer\<close>, which reads widths and precisions, is the parameter \<open>to_int\<close>, assumed
  to return a decimal number and its length (\<open>decimal_reader\<close>).  The system calls behind a file are parameters,
  assumed to behave like those of a regular file (\<open>reads_file\<close>, \<open>writes_file\<close>), as is \<open>realloc\<close>
  (\<open>reallocates\<close>).  The futex follows its Linux documentation, and \<open>sys_getrandom\<close> is a list of outcomes.

  \<^bold>\<open>Bounds.\<close>  The read-write lock is proved for fewer than 2^29 threads, far from the 30-bit
  count; the nonces for fewer than 2^96 calls; calendar years are bounded by their 32-bit field.  The
  condition variable is proved for fewer than 2^32 signals, since its word wraps, and the keys for fewer than 2^31 calls, since the
  generation of a key is an \<open>int\<close>.

  \<^bold>\<open>Not modelled.\<close>  The floating-point conversions of \<open>printf\<close> and \<open>scanf\<close>, the environment, thread
  creation, address and name parsing, pattern matching, option parsing and the
  dynamic linker are not modelled yet, although much of them is pure.  Functions over \<open>hz\<close> containers and
  the slab allocator would need the submodule.  Floating-point parsing and the mathematical functions need
  IEEE arithmetic, outside the library theories used.  The system call wrappers, the assembly and the
  third-party unwinder have no behaviour of their own that a model could show.
\<close>

end
